(* ===== verification/PL_Prelude.thy ===== *)
theory PL_Prelude
  imports "HOL-Library.Word" "HOL-Library.Product_Lexorder"
begin

text \<open>
  Shared vocabulary of the development: the machine types of the Rust sources, the
  error and result types, and the generic facts the component theories rely on.

  \<^item> \<open>u8\<close>, \<open>u32\<close> and \<open>u64\<close> are words of that width: \<open>+\<close> wraps around, as Rust's release
    arithmetic does; \<open>usize\<close> counts elements that sit in memory and is a \<open>nat\<close>;
  \<^item> \<open>i32\<close> is an \<open>int\<close>; where the sources compute with it, \<open>wrap_i32\<close> (atomic
    \<open>fetch_add\<close>/\<open>fetch_sub\<close>) and \<open>i32_saturating_sub\<close> are written out;
  \<^item> \<open>Result<T, E>\<close> is the sum \<open>error + 'a\<close>; \<open>and_then\<close> is the \<open>?\<close> operator.
\<close>

section \<open>Machine types\<close>

type_synonym u8 = "8 word"
type_synonym u16 = "16 word"
type_synonym u32 = "32 word"
type_synonym u64 = "64 word"
type_synonym i32 = int
type_synonym usize = nat
type_synonym bytes = "u8 list"

abbreviation u64_MAX :: u64 where
  "u64_MAX \<equiv> - 1"

section \<open>Collections of facts\<close>

named_theorems wf_intros \<open>introduction rules for the well-formedness invariants\<close>
named_theorems abs_simps \<open>how an operation acts on the abstract view of its component\<close>
named_theorems eval_simps \<open>definitions unfolded to evaluate closed terms\<close>

section \<open>Results\<close>

text \<open>
  \<open>IoError\<close>, \<open>DbError\<close> and \<open>DecodeError\<close> are failures reported by the file system, RocksDB
  and the (de)serialisers; \<open>IntError\<close> is a failed \<open>try_into\<close>; \<open>Msg\<close> carries the text of an
  \<open>anyhow!\<close> or \<open>String\<close> error raised by the sources themselves; \<open>Panic\<close> is a panic of the
  calling thread, such as a slice index out of range.
\<close>

datatype error = IoError | DbError | DecodeError | IntError | Msg string | Panic

type_synonym 'a result = "error + 'a"

definition and_then :: "'e + 'a \<Rightarrow> ('a \<Rightarrow> 'e + 'b) \<Rightarrow> 'e + 'b" where
  "and_then r f = (case r of Inl e \<Rightarrow> Inl e | Inr x \<Rightarrow> f x)"

lemma and_then_simps [simp]:
  "and_then (Inl e) f = Inl e"
  "and_then (Inr x) f = f x"
  by (simp_all add: and_then_def)

text \<open>Evaluates the first computation before looking at the rest.\<close>

lemma and_then_weak_cong: "r = r' \<Longrightarrow> and_then r f = and_then r' f"
  by simp

lemma and_then_eq_Inr_iff:
  "and_then r f = Inr y \<longleftrightarrow> (\<exists>x. r = Inr x \<and> f x = Inr y)"
  by (cases r) auto

lemma and_then_InrE:
  assumes "and_then r f = Inr y"
  obtains x where "r = Inr x" "f x = Inr y"
  using assms by (cases r) auto

lemma and_then_eq_Inl_iff:
  "and_then r f = Inl e \<longleftrightarrow> r = Inl e \<or> (\<exists>x. r = Inr x \<and> f x = Inl e)"
  by (cases r) auto

text \<open>A loop whose body may fail stops at the first error, as \<open>?\<close> inside \<open>for\<close> does.\<close>

fun try_fold :: "('s \<Rightarrow> 'x \<Rightarrow> 'e + 's) \<Rightarrow> 's \<Rightarrow> 'x list \<Rightarrow> 'e + 's" where
  "try_fold f s [] = Inr s"
| "try_fold f s (x # xs) = and_then (f s x) (\<lambda>s'. try_fold f s' xs)"

text \<open>\<open>map\<close> followed by \<open>collect::<Result<Vec<_>>>\<close>.\<close>

fun try_map :: "('x \<Rightarrow> 'e + 'y) \<Rightarrow> 'x list \<Rightarrow> 'e + 'y list" where
  "try_map f [] = Inr []"
| "try_map f (x # xs) = and_then (f x) (\<lambda>y. and_then (try_map f xs) (\<lambda>ys. Inr (y # ys)))"

lemma try_fold_append:
  "try_fold f s (xs @ ys) = and_then (try_fold f s xs) (\<lambda>s'. try_fold f s' ys)"
  by (induction xs arbitrary: s) (auto simp: and_then_def split: sum.splits)

lemma try_map_Inr: "(\<And>x. x \<in> set xs \<Longrightarrow> f x = Inr (g x)) \<Longrightarrow> try_map f xs = Inr (map g xs)"
  by (induction xs) auto

lemma try_map_map_Inr [simp]: "try_map id (map Inr xs) = Inr xs"
  by (induction xs) auto

section \<open>Integers of the sources\<close>

text \<open>The \<open>i32\<close> value with the same low 32 bits: what an atomic \<open>fetch_add\<close> leaves behind.\<close>

definition wrap_i32 :: "int \<Rightarrow> i32" where
  "wrap_i32 x = signed_take_bit 31 x"

definition i32_MAX :: i32 where
  "i32_MAX = 2147483647"

definition i32_MIN :: i32 where
  "i32_MIN = - 2147483648"

definition i32_saturating_sub :: "i32 \<Rightarrow> i32 \<Rightarrow> i32" where
  "i32_saturating_sub a b = max i32_MIN (min i32_MAX (a - b))"

text \<open>\<open>x as i32\<close> for \<open>x: u32\<close>.\<close>

definition u32_as_i32 :: "u32 \<Rightarrow> i32" where
  "u32_as_i32 x = sint x"

text \<open>\<open>x as u32\<close> for \<open>x: i32\<close>.\<close>

definition i32_as_u32 :: "i32 \<Rightarrow> u32" where
  "i32_as_u32 x = word_of_int x"

lemma wrap_i32_id: "- 2147483648 \<le> x \<Longrightarrow> x < 2147483648 \<Longrightarrow> wrap_i32 x = x"
  by (simp add: wrap_i32_def signed_take_bit_int_eq_self)

lemma wrap_i32_range: "- 2147483648 \<le> wrap_i32 x \<and> wrap_i32 x < 2147483648"
  using signed_take_bit_int_greater_eq_minus_exp [of 31 x]
    signed_take_bit_int_less_exp [of 31 x]
  by (simp add: wrap_i32_def)

lemma wrap_i32_eq_iff: "wrap_i32 a = wrap_i32 b \<longleftrightarrow> a mod 4294967296 = b mod 4294967296"
  by (simp add: wrap_i32_def signed_take_bit_eq_iff_take_bit_eq take_bit_eq_mod)

lemma wrap_i32_mod [simp]: "wrap_i32 a mod 4294967296 = a mod 4294967296"
  using take_bit_signed_take_bit [of 32 31 a] by (simp add: wrap_i32_def take_bit_eq_mod)

lemma wrap_i32_wrap [simp]:
  "wrap_i32 (wrap_i32 a) = wrap_i32 a"
  "wrap_i32 (wrap_i32 a + b) = wrap_i32 (a + b)"
  "wrap_i32 (b + wrap_i32 a) = wrap_i32 (b + a)"
  "wrap_i32 (wrap_i32 a - b) = wrap_i32 (a - b)"
  unfolding wrap_i32_eq_iff
  by (rule wrap_i32_mod, (rule mod_add_cong mod_diff_cong, rule wrap_i32_mod refl, rule wrap_i32_mod refl)+)

lemma u32_as_i32_small:
  assumes "uint x < 2147483648"
  shows "u32_as_i32 x = uint x"
proof -
  have "- (2 ^ 31) \<le> uint x"
    by (rule order_trans [OF _ uint_ge_0 [of x]]) simp
  then have "signed_take_bit 31 (uint x) = uint x"
    by (rule signed_take_bit_int_eq_self) (use assms in simp)
  then show ?thesis
    by (simp add: u32_as_i32_def sint_uint)
qed

section \<open>Words\<close>

lemma word_less_Suc_iff: "x \<noteq> - 1 \<Longrightarrow> x < x + 1" for x :: "'a::len word"
  using inc_less_eq_triv_imp linorder_not_le by blast

lemma word_Suc_le: "x < y \<Longrightarrow> x + 1 \<le> y" for x :: "'a::len word"
  by (rule inc_le)

lemma word_le_less_Suc: "y \<noteq> - 1 \<Longrightarrow> x \<le> y \<longleftrightarrow> x < y + 1" for x :: "'a::len word"
  by (metis inc_le leD leI order_le_less_trans word_less_Suc_iff)

lemma word_not_Suc_le: "\<not> y + 1 \<le> x \<Longrightarrow> x \<le> y" for x y :: "'a::len word"
  using word_Suc_le [of y x] by (auto simp: not_le [symmetric])

lemma word_less_not_max: "x < y \<Longrightarrow> x \<noteq> - 1" for x y :: "'a::len word"
  by (metis leD word_order.extremum)

lemma word_atMost_Suc:
  fixes x y :: "'a::len word"
  assumes "x < y"
  shows "{..x + 1} = insert (x + 1) {..x}"
proof -
  have "k \<le> x + 1 \<longleftrightarrow> k = x + 1 \<or> k \<le> x" for k
    unfolding word_le_less_Suc [OF word_less_not_max [OF assms]] by (rule dual_order.order_iff_strict [THEN trans]) auto
  then show ?thesis by auto
qed

lemma word_pred_bounds: "x < y \<Longrightarrow> x \<le> y - 1 \<and> y - 1 < y \<and> y - 1 + 1 = y" for x y :: "'a::len word"
  using word_less_Suc_iff [of "y - 1"] word_le_less_Suc [of "y - 1" x] by (cases "y = 0") auto

text \<open>\<open>len() as u64\<close> is exact below the capacity of a \<open>u64\<close>.\<close>

definition u64_cap :: nat where
  "u64_cap = 2 ^ LENGTH(64)"

lemma unat_of_nat_u64 [simp]: "n < u64_cap \<Longrightarrow> unat (of_nat n :: u64) = n"
  unfolding u64_cap_def by (simp only: unat_of_nat mod_less)

lemma unat_less_u64_cap: "unat (x :: u64) < u64_cap"
  unfolding u64_cap_def by (rule unsigned_less)

lemma of_nat_u64_less_iff:
  "i < u64_cap \<Longrightarrow> j < u64_cap \<Longrightarrow> (of_nat i :: u64) < of_nat j \<longleftrightarrow> i < j"
  by (simp add: word_less_nat_alt)

lemma of_nat_u64_le_iff:
  "i < u64_cap \<Longrightarrow> j < u64_cap \<Longrightarrow> (of_nat i :: u64) \<le> of_nat j \<longleftrightarrow> i \<le> j"
  by (simp add: word_le_nat_alt)

lemma of_nat_u64_eq_iff:
  "i < u64_cap \<Longrightarrow> j < u64_cap \<Longrightarrow> (of_nat i :: u64) = of_nat j \<longleftrightarrow> i = j"
  by (metis unat_of_nat_u64)

lemma of_nat_u64_not_max: "Suc i < u64_cap \<Longrightarrow> (of_nat i :: u64) \<noteq> - 1"
  using of_nat_u64_less_iff [of i "Suc i"] by (auto dest: word_less_not_max)

section \<open>Text\<close>

definition digit_char :: "nat \<Rightarrow> char" where
  "digit_char d = char_of (48 + d)"

text \<open>Decimal formatting, as \<open>format!\<close> prints a \<open>u64\<close>.\<close>

fun dec_string :: "nat \<Rightarrow> string" where
  "dec_string n = (if n < 10 then [digit_char n] else dec_string (n div 10) @ [digit_char (n mod 10)])"

declare dec_string.simps [simp del]

text \<open>\<open>into_bytes\<close> of a string.\<close>

definition string_bytes :: "string \<Rightarrow> bytes" where
  "string_bytes s = map of_char s"

section \<open>Lists\<close>

lemma find_takeWhile:
  "find (\<lambda>x. \<not> P x) xs =
     (let k = length (takeWhile P xs) in if k < length xs then Some (xs ! k) else None)"
  by (induction xs) (auto simp: Let_def)

lemma find_prefix:
  assumes "\<And>i. i < length xs \<Longrightarrow> P (xs ! i) \<longleftrightarrow> i < k"
  shows "find (\<lambda>x. \<not> P x) xs = (if k < length xs then Some (xs ! k) else None)"
proof -
  have "takeWhile P xs = take k xs"
    using assms by (intro takeWhile_eq_take_P_nth) auto
  then show ?thesis by (simp add: find_takeWhile Let_def min_def)
qed

lemma find_sorted_least:
  fixes key :: "'a \<Rightarrow> 'b::linorder"
  assumes "sorted_wrt (<) (map key xs)" "find P xs = Some x" "y \<in> set xs" "P y"
  shows "key x \<le> key y"
  using assms
proof (induction xs)
  case (Cons z zs)
  then show ?case by (cases "P z") (auto simp: less_imp_le)
qed simp

lemma find_some_mem: "find P xs = Some x \<Longrightarrow> x \<in> set xs \<and> P x"
  by (induction xs) (auto split: if_splits)

lemma find_none_all: "find P xs = None \<Longrightarrow> x \<in> set xs \<Longrightarrow> \<not> P x"
  by (induction xs) (auto split: if_splits)

lemma find_map: "find P (map f xs) = map_option f (find (\<lambda>x. P (f x)) xs)"
  by (induction xs) auto

lemma split_first_unique:
  "x \<notin> set a \<Longrightarrow> x \<notin> set a' \<Longrightarrow> a @ x # b = a' @ x # b' \<longleftrightarrow> a = a' \<and> b = b'"
proof (induction a arbitrary: a')
  case Nil
  then show ?case by (cases a') auto
next
  case (Cons y a)
  then show ?case by (cases a') auto
qed

lemma split_last_unique:
  assumes "x \<notin> set b" "x \<notin> set b'"
  shows "a @ x # b = a' @ x # b' \<longleftrightarrow> a = a' \<and> b = b'"
proof -
  have "a @ x # b = a' @ x # b' \<longleftrightarrow> rev b @ x # rev a = rev b' @ x # rev a'"
    by (metis append.assoc append_Cons append_Nil rev.simps(2) rev_append rev_rev_ident)
  with assms show ?thesis by (auto simp: split_first_unique)
qed

end
