(* ===== verification/PL_Collections.thy ===== *)
theory PL_Collections
  imports PL_Prelude
begin

text \<open>
  The ordered containers of Rust's standard library, as the sources use them.
  A \<open>BTreeSet<T>\<close> is the strictly ascending list of its elements and a \<open>BTreeMap<K, V>\<close> the
  list of its entries with strictly ascending keys: iteration order is list order, and
  every operation computes. The lemmas below characterise each operation through the
  set of elements (the finite map) alone, so that client proofs never look at the list.
\<close>

section \<open>BTreeSet\<close>

type_synonym 'a btree_set = "'a list"

definition bts_ok :: "'a::linorder btree_set \<Rightarrow> bool" where
  "bts_ok S \<longleftrightarrow> sorted_wrt (<) S"

fun bts_insert :: "'a::linorder \<Rightarrow> 'a btree_set \<Rightarrow> 'a btree_set" where
  "bts_insert x [] = [x]"
| "bts_insert x (y # ys) =
     (if y < x then y # bts_insert x ys else if y = x then y # ys else x # y # ys)"

definition bts_remove :: "'a \<Rightarrow> 'a btree_set \<Rightarrow> 'a btree_set" where
  "bts_remove x S = filter (\<lambda>y. y \<noteq> x) S"

text \<open>\<open>S.range(..=x).next_back()\<close>: the greatest element not above \<open>x\<close>.\<close>

definition bts_last_le :: "'a::linorder \<Rightarrow> 'a btree_set \<Rightarrow> 'a option" where
  "bts_last_le x S =
     (let ys = filter (\<lambda>y. y \<le> x) S in if ys = [] then None else Some (last ys))"

text \<open>\<open>S.range(x..).next()\<close>: the least element not below \<open>x\<close>.\<close>

definition bts_first_ge :: "'a::linorder \<Rightarrow> 'a btree_set \<Rightarrow> 'a option" where
  "bts_first_ge x S = find (\<lambda>y. x \<le> y) S"

lemma set_bts_insert [simp]: "set (bts_insert x S) = insert x (set S)"
  by (induction S) auto

lemma set_bts_remove [simp]: "set (bts_remove x S) = set S - {x}"
  by (auto simp: bts_remove_def)

lemma bts_ok_Nil [simp, wf_intros]: "bts_ok []"
  by (simp add: bts_ok_def)

lemma bts_ok_insert [wf_intros]: "bts_ok S \<Longrightarrow> bts_ok (bts_insert x S)"
  unfolding bts_ok_def
proof (induction S)
  case (Cons y ys)
  then show ?case by auto
qed simp

lemma bts_ok_remove [wf_intros]: "bts_ok S \<Longrightarrow> bts_ok (bts_remove x S)"
  by (simp add: bts_ok_def bts_remove_def sorted_wrt_filter)

lemma bts_ok_distinct: "bts_ok S \<Longrightarrow> distinct S"
  by (simp add: bts_ok_def strict_sorted_iff)

lemma length_bts_remove_less: "x \<in> set S \<Longrightarrow> length (bts_remove x S) < length S"
  unfolding bts_remove_def by (rule length_filter_less [of x]) auto

lemma length_bts_remove_le: "length (bts_remove x S) \<le> length S"
  by (simp add: bts_remove_def)

lemma bts_last_le_None: "bts_last_le x S = None \<longleftrightarrow> (\<forall>y \<in> set S. x < y)"
  by (auto simp: bts_last_le_def Let_def filter_empty_conv not_le)

lemma bts_first_ge_None: "bts_first_ge x S = None \<longleftrightarrow> (\<forall>y \<in> set S. y < x)"
  by (auto simp: bts_first_ge_def find_None_iff not_le)

lemma bts_first_ge_mem: "bts_first_ge x S = Some y \<Longrightarrow> y \<in> set S \<and> x \<le> y"
  by (auto simp: bts_first_ge_def find_Some_iff)

lemma bts_last_le_mem: "bts_last_le x S = Some y \<Longrightarrow> y \<in> set S \<and> y \<le> x"
  using last_in_set [of "filter (\<lambda>y. y \<le> x) S"]
  by (auto simp: bts_last_le_def Let_def split: if_splits)

lemma bts_last_le_ex: "y \<in> set S \<Longrightarrow> y \<le> x \<Longrightarrow> \<exists>z. bts_last_le x S = Some z"
  using bts_last_le_None [of x S] not_less by blast

lemma bts_first_ge_ex: "y \<in> set S \<Longrightarrow> x \<le> y \<Longrightarrow> \<exists>z. bts_first_ge x S = Some z"
  using bts_first_ge_None [of x S] not_less by blast

lemma sorted_wrt_last: "sorted_wrt (<) xs \<Longrightarrow> y \<in> set xs \<Longrightarrow> y \<le> last xs"
  for xs :: "'a::linorder list"
  by (induction xs) (auto intro: less_imp_le split: if_splits)

lemma bts_first_ge_least:
  assumes "bts_ok S" "bts_first_ge x S = Some y" "z \<in> set S" "x \<le> z"
  shows "y \<le> z"
  using assms unfolding bts_ok_def bts_first_ge_def
  by (induction S) (auto split: if_splits)

lemma bts_last_le_greatest:
  assumes "bts_ok S" "bts_last_le x S = Some y" "z \<in> set S" "z \<le> x"
  shows "z \<le> y"
proof -
  let ?ys = "filter (\<lambda>y. y \<le> x) S"
  have "z \<in> set ?ys" using assms by simp
  moreover have "sorted_wrt (<) ?ys"
    using assms(1) by (simp add: bts_ok_def sorted_wrt_filter)
  ultimately have "z \<le> last ?ys" by (rule sorted_wrt_last [rotated])
  then show ?thesis
    using assms(2) by (auto simp: bts_last_le_def Let_def split: if_splits)
qed

section \<open>BTreeMap\<close>

type_synonym ('k, 'v) btree_map = "('k \<times> 'v) list"

definition btm_ok :: "('k::linorder, 'v) btree_map \<Rightarrow> bool" where
  "btm_ok m \<longleftrightarrow> sorted_wrt (<) (map fst m)"

definition btm_get :: "'k \<Rightarrow> ('k, 'v) btree_map \<Rightarrow> 'v option" where
  "btm_get k m = map_of m k"

definition btm_contains :: "'k \<Rightarrow> ('k, 'v) btree_map \<Rightarrow> bool" where
  "btm_contains k m \<longleftrightarrow> btm_get k m \<noteq> None"

text \<open>\<open>insert\<close> replaces the value of a key that is already present.\<close>

fun btm_insert :: "'k::linorder \<Rightarrow> 'v \<Rightarrow> ('k, 'v) btree_map \<Rightarrow> ('k, 'v) btree_map" where
  "btm_insert k v [] = [(k, v)]"
| "btm_insert k v (p # ps) =
     (if fst p < k then p # btm_insert k v ps
      else if fst p = k then (k, v) # ps else (k, v) # p # ps)"

definition btm_remove :: "'k \<Rightarrow> ('k, 'v) btree_map \<Rightarrow> ('k, 'v) btree_map" where
  "btm_remove k m = filter (\<lambda>p. fst p \<noteq> k) m"

definition btm_keys :: "('k, 'v) btree_map \<Rightarrow> 'k list" where
  "btm_keys m = map fst m"

definition btm_values :: "('k, 'v) btree_map \<Rightarrow> 'v list" where
  "btm_values m = map snd m"

lemma btm_get_Nil [simp]: "btm_get k [] = None"
  by (simp add: btm_get_def)

lemma btm_get_Cons: "btm_get k (p # ps) = (if k = fst p then Some (snd p) else btm_get k ps)"
  by (cases p) (auto simp: btm_get_def)

lemma btm_get_insert [simp]: "btm_ok m \<Longrightarrow> btm_get k (btm_insert k' v m) =
    (if k = k' then Some v else btm_get k m)"
  unfolding btm_ok_def by (induction m) (auto simp: btm_get_Cons)

lemma btm_get_remove [simp]: "btm_get k (btm_remove k' m) = (if k = k' then None else btm_get k m)"
  by (induction m) (auto simp: btm_remove_def btm_get_Cons)

lemma keys_btm_insert [simp]: "fst ` set (btm_insert k v m) = insert k (fst ` set m)"
  by (induction m) auto

lemma keys_btm_remove [simp]: "fst ` set (btm_remove k m) = fst ` set m - {k}"
  by (auto simp: btm_remove_def)

lemma btm_ok_Nil [simp, wf_intros]: "btm_ok []"
  by (simp add: btm_ok_def)

lemma btm_ok_Cons: "btm_ok (p # ps) \<longleftrightarrow> (\<forall>k \<in> fst ` set ps. fst p < k) \<and> btm_ok ps"
  by (auto simp: btm_ok_def)

lemma btm_ok_insert [wf_intros]: "btm_ok m \<Longrightarrow> btm_ok (btm_insert k v m)"
  by (induction m) (auto simp: btm_ok_Cons)

lemma btm_ok_remove [wf_intros]: "btm_ok m \<Longrightarrow> btm_ok (btm_remove k m)"
  by (induction m) (auto simp: btm_ok_Cons btm_remove_def)

lemma btm_ok_distinct: "btm_ok m \<Longrightarrow> distinct (map fst m)"
  by (simp add: btm_ok_def strict_sorted_iff)

lemma btm_get_Some_iff: "btm_ok m \<Longrightarrow> btm_get k m = Some v \<longleftrightarrow> (k, v) \<in> set m"
  by (simp add: btm_get_def btm_ok_distinct)

lemma btm_get_None_iff: "btm_get k m = None \<longleftrightarrow> k \<notin> fst ` set m"
  by (simp add: btm_get_def map_of_eq_None_iff)

lemma set_btm_remove: "set (btm_remove k m) = {p \<in> set m. fst p \<noteq> k}"
  by (auto simp: btm_remove_def)

lemma length_btm_insert:
  "btm_ok m \<Longrightarrow> length (btm_insert k v m) = (if btm_get k m = None then Suc (length m) else length m)"
  by (induction m) (force simp: btm_ok_Cons btm_get_Cons btm_get_None_iff)+

lemma length_btm_remove:
  "btm_ok m \<Longrightarrow> length (btm_remove k m) = (if btm_get k m = None then length m else length m - 1)"
proof (induction m)
  case (Cons p ps)
  have "filter (\<lambda>q. fst q \<noteq> fst p) ps = ps"
    using Cons.prems by (auto simp: btm_ok_Cons filter_id_conv)
  then show ?case
    using Cons by (cases ps) (auto simp: btm_ok_Cons btm_get_Cons btm_remove_def)
qed (simp add: btm_remove_def)

text \<open>How many entries satisfy a predicate, and how the updates change that number.\<close>

definition btm_count :: "('k \<times> 'v \<Rightarrow> bool) \<Rightarrow> ('k, 'v) btree_map \<Rightarrow> nat" where
  "btm_count P m = length (filter P m)"

lemma btm_count_Nil [simp]: "btm_count P [] = 0"
  by (simp add: btm_count_def)

lemma btm_count_Cons [simp]: "btm_count P (p # ps) = (if P p then 1 else 0) + btm_count P ps"
  by (simp add: btm_count_def)

lemma btm_count_zero_iff: "btm_count P m = 0 \<longleftrightarrow> (\<forall>p \<in> set m. \<not> P p)"
  by (simp add: btm_count_def filter_empty_conv)

lemma btm_get_Cons_same: "btm_ok (p # ps) \<Longrightarrow> btm_get (fst p) ps = None"
  by (force simp: btm_ok_Cons btm_get_None_iff)

lemma btm_count_insert_new:
  "btm_get k m = None \<Longrightarrow> btm_count P (btm_insert k v m) = (if P (k, v) then 1 else 0) + btm_count P m"
  by (induction m) (auto simp: btm_get_Cons split: if_splits)

lemma btm_count_insert_old:
  "btm_ok m \<Longrightarrow> btm_get k m = Some w \<Longrightarrow>
   btm_count P (btm_insert k v m) + (if P (k, w) then 1 else 0) = btm_count P m + (if P (k, v) then 1 else 0)"
proof (induction m)
  case (Cons p ps)
  show ?case
  proof (cases "k = fst p")
    case True
    with Cons.prems show ?thesis by (cases p) (simp add: btm_get_Cons)
  next
    case False
    then have g: "btm_get k ps = Some w" using Cons.prems by (simp add: btm_get_Cons)
    then have "k \<in> fst ` set ps" using btm_get_None_iff [of k ps] by auto
    then have "fst p < k" using Cons.prems by (auto simp: btm_ok_Cons)
    with Cons g show ?thesis by (simp add: btm_ok_Cons)
  qed
qed simp

lemma btm_remove_absent: "btm_get k m = None \<Longrightarrow> btm_remove k m = m"
  by (force simp: btm_remove_def btm_get_None_iff filter_id_conv)

lemma btm_count_remove:
  "btm_ok m \<Longrightarrow> btm_get k m = Some v \<Longrightarrow>
   btm_count P m = btm_count P (btm_remove k m) + (if P (k, v) then 1 else 0)"
proof (induction m)
  case (Cons p ps)
  show ?case
  proof (cases "k = fst p")
    case True
    with Cons.prems have "btm_remove k (p # ps) = ps"
      using btm_remove_absent [OF btm_get_Cons_same [OF Cons.prems(1)]] by (simp add: btm_remove_def)
    with True Cons.prems show ?thesis by (cases p) (simp add: btm_get_Cons)
  qed (use Cons in \<open>auto simp: btm_remove_def btm_ok_Cons btm_get_Cons\<close>)
qed simp

lemma set_btm_insert_new: "k \<notin> fst ` set m \<Longrightarrow> set (btm_insert k v m) = insert (k, v) (set m)"
  by (induction k v m rule: btm_insert.induct) auto

lemma btm_remove_insert [simp]: "btm_remove k (btm_insert k v m) = btm_remove k m"
  by (induction m) (auto simp: btm_remove_def)

end
