(* ===== verification/PL_Position.thy ===== *)
theory PL_Position
  imports PL_Collections
begin

text \<open>
  Positions and message ids (\<open>managed-ledger/src/position.rs\<close>), cursor options
  (\<open>cursor_init.rs\<close>) and the list-based read helpers (\<open>cursor_read.rs\<close>).
  The derived Rust order compares the fields in declaration order; it is the \<open>linorder\<close>
  instance of the two types.
\<close>

section \<open>Data\<close>

datatype ManagedLedgerPosition =
  ManagedLedgerPosition (ledger_id: u64) (entry_id: u64) (pos_partition: i32)

datatype MessageId = MessageId (ledger: u64) (entry: u64) (partition: i32)

record StoredMessage =
  sm_message_id :: MessageId
  sm_metadata :: bytes
  sm_payload :: bytes

definition StoredMessage_new :: "MessageId \<Rightarrow> bytes \<Rightarrow> bytes \<Rightarrow> StoredMessage" where
  "StoredMessage_new mid md pl = \<lparr>sm_message_id = mid, sm_metadata = md, sm_payload = pl\<rparr>"

definition StoredMessage_from_payload :: "MessageId \<Rightarrow> bytes \<Rightarrow> StoredMessage" where
  "StoredMessage_from_payload mid pl = StoredMessage_new mid [] pl"

definition position_of :: "MessageId \<Rightarrow> ManagedLedgerPosition" where
  "position_of m = ManagedLedgerPosition (ledger m) (entry m) (partition m)"

definition message_id_of :: "ManagedLedgerPosition \<Rightarrow> MessageId" where
  "message_id_of p = MessageId (ledger_id p) (entry_id p) (pos_partition p)"

section \<open>The derived order\<close>

definition position_key :: "ManagedLedgerPosition \<Rightarrow> u64 \<times> u64 \<times> i32" where
  "position_key p = (ledger_id p, entry_id p, pos_partition p)"

definition message_key :: "MessageId \<Rightarrow> u64 \<times> u64 \<times> i32" where
  "message_key m = (ledger m, entry m, partition m)"

lemma position_key_inject [simp]: "position_key p = position_key q \<longleftrightarrow> p = q"
  by (cases p; cases q) (simp add: position_key_def)

lemma message_key_inject [simp]: "message_key p = message_key q \<longleftrightarrow> p = q"
  by (cases p; cases q) (simp add: message_key_def)

instantiation ManagedLedgerPosition :: linorder
begin

definition less_eq_ManagedLedgerPosition :: "ManagedLedgerPosition \<Rightarrow> ManagedLedgerPosition \<Rightarrow> bool" where
  "p \<le> q \<longleftrightarrow> position_key p \<le> position_key q"

definition less_ManagedLedgerPosition :: "ManagedLedgerPosition \<Rightarrow> ManagedLedgerPosition \<Rightarrow> bool" where
  "p < q \<longleftrightarrow> position_key p < position_key q"

instance
proof
  fix p q r :: ManagedLedgerPosition
  show "p < q \<longleftrightarrow> p \<le> q \<and> \<not> q \<le> p"
    by (simp add: less_eq_ManagedLedgerPosition_def less_ManagedLedgerPosition_def less_le_not_le)
  show "p \<le> p" by (simp add: less_eq_ManagedLedgerPosition_def)
  show "p \<le> q \<Longrightarrow> q \<le> r \<Longrightarrow> p \<le> r"
    by (auto simp: less_eq_ManagedLedgerPosition_def)
  show "p \<le> q \<Longrightarrow> q \<le> p \<Longrightarrow> p = q"
    by (metis antisym less_eq_ManagedLedgerPosition_def position_key_inject)
  show "p \<le> q \<or> q \<le> p"
    by (auto simp: less_eq_ManagedLedgerPosition_def)
qed

end

instantiation MessageId :: linorder
begin

definition less_eq_MessageId :: "MessageId \<Rightarrow> MessageId \<Rightarrow> bool" where
  "p \<le> q \<longleftrightarrow> message_key p \<le> message_key q"

definition less_MessageId :: "MessageId \<Rightarrow> MessageId \<Rightarrow> bool" where
  "p < q \<longleftrightarrow> message_key p < message_key q"

instance
proof
  fix p q r :: MessageId
  show "p < q \<longleftrightarrow> p \<le> q \<and> \<not> q \<le> p"
    by (simp add: less_eq_MessageId_def less_MessageId_def less_le_not_le)
  show "p \<le> p" by (simp add: less_eq_MessageId_def)
  show "p \<le> q \<Longrightarrow> q \<le> r \<Longrightarrow> p \<le> r"
    by (auto simp: less_eq_MessageId_def)
  show "p \<le> q \<Longrightarrow> q \<le> p \<Longrightarrow> p = q"
    by (metis antisym less_eq_MessageId_def message_key_inject)
  show "p \<le> q \<or> q \<le> p"
    by (auto simp: less_eq_MessageId_def)
qed

end

lemmas position_order_defs =
  less_eq_ManagedLedgerPosition_def less_ManagedLedgerPosition_def position_key_def
lemmas message_order_defs = less_eq_MessageId_def less_MessageId_def message_key_def

declare position_order_defs [eval_simps] message_order_defs [eval_simps]

lemma position_less_iff:
  "p < q \<longleftrightarrow> ledger_id p < ledger_id q \<or> ledger_id p = ledger_id q \<and>
     (entry_id p < entry_id q \<or> entry_id p = entry_id q \<and> pos_partition p < pos_partition q)"
  by (auto simp: position_order_defs)

lemma position_le_iff:
  "p \<le> q \<longleftrightarrow> ledger_id p < ledger_id q \<or> ledger_id p = ledger_id q \<and>
     (entry_id p < entry_id q \<or> entry_id p = entry_id q \<and> pos_partition p \<le> pos_partition q)"
  by (auto simp: position_order_defs)

lemma position_of_sel [simp]:
  "ledger_id (position_of m) = ledger m"
  "entry_id (position_of m) = entry m"
  "pos_partition (position_of m) = partition m"
  by (simp_all add: position_of_def)

lemma message_id_of_sel [simp]:
  "ledger (message_id_of p) = ledger_id p"
  "entry (message_id_of p) = entry_id p"
  "partition (message_id_of p) = pos_partition p"
  by (simp_all add: message_id_of_def)

lemma message_id_of_position_of [simp]: "message_id_of (position_of m) = m"
  by (cases m) (simp add: message_id_of_def)

lemma position_of_message_id_of [simp]: "position_of (message_id_of p) = p"
  by (cases p) (simp add: position_of_def)

lemma position_of_inject [simp]: "position_of m = position_of n \<longleftrightarrow> m = n"
  by (metis message_id_of_position_of)

lemma position_of_mono [simp]:
  "position_of m < position_of n \<longleftrightarrow> m < n"
  "position_of m \<le> position_of n \<longleftrightarrow> m \<le> n"
  by (simp_all add: message_order_defs position_order_defs)

section \<open>Cursor options (cursor\_init.rs)\<close>

datatype InitialPosition = Latest | Earliest

record CursorInitOptions =
  initial_position :: InitialPosition
  start_message_id :: "MessageId option"

record CursorOpenResult =
  created :: bool
  first_unacked :: "ManagedLedgerPosition option"

section \<open>Read helpers (cursor\_read.rs)\<close>

definition cursor_subscription_key :: "string \<Rightarrow> string \<Rightarrow> string" where
  "cursor_subscription_key topic subscription = topic @ '':'' @ subscription"

definition position_at_or_after :: "ManagedLedgerPosition \<Rightarrow> ManagedLedgerPosition \<Rightarrow> bool" where
  "position_at_or_after candidate start \<longleftrightarrow>
     (ledger_id start, entry_id start) \<le> (ledger_id candidate, entry_id candidate)"

fun first_unacked_from_messages ::
    "(MessageId \<times> bytes) list \<Rightarrow> (MessageId \<Rightarrow> bool) \<Rightarrow> ManagedLedgerPosition option" where
  "first_unacked_from_messages [] is_acknowledged = None"
| "first_unacked_from_messages ((mid, _) # msgs) is_acknowledged =
     (if \<not> is_acknowledged mid then Some (position_of mid)
      else first_unacked_from_messages msgs is_acknowledged)"

text \<open>The loop of \<open>read_from_messages\<close> with its output vector \<open>out\<close>.\<close>

fun read_from_messages_loop ::
    "(MessageId \<times> bytes) list \<Rightarrow> ManagedLedgerPosition \<Rightarrow> usize \<Rightarrow> (MessageId \<times> bytes) list
     \<Rightarrow> (MessageId \<times> bytes) list" where
  "read_from_messages_loop [] start limit out = out"
| "read_from_messages_loop ((mid, pl) # msgs) start limit out =
     (if \<not> position_at_or_after (position_of mid) start
      then read_from_messages_loop msgs start limit out
      else let out' = out @ [(mid, pl)] in
           if limit \<le> length out' then out'
           else read_from_messages_loop msgs start limit out')"

definition read_from_messages ::
    "(MessageId \<times> bytes) list \<Rightarrow> ManagedLedgerPosition \<Rightarrow> usize \<Rightarrow> (MessageId \<times> bytes) list" where
  "read_from_messages msgs start limit = read_from_messages_loop msgs start limit []"

definition last_position_from_messages ::
    "(MessageId \<times> bytes) list \<Rightarrow> ManagedLedgerPosition option" where
  "last_position_from_messages msgs =
     (if msgs = [] then None else Some (position_of (fst (last msgs))))"

definition next_position_single_ledger ::
    "ManagedLedgerPosition \<Rightarrow> ManagedLedgerPosition option" where
  "next_position_single_ledger current =
     Some (ManagedLedgerPosition (ledger_id current) (entry_id current + 1) (pos_partition current))"

lemma first_unacked_from_messages_find:
  "first_unacked_from_messages msgs ack =
     map_option (\<lambda>m. position_of (fst m)) (find (\<lambda>m. \<not> ack (fst m)) msgs)"
  by (induction msgs) auto

text \<open>
  The loop checks the limit only after it pushed an entry, so a limit of zero still
  yields one entry: it behaves as \<open>max 1 limit\<close>.
\<close>

lemma read_from_messages_loop_take:
  "length out < max 1 limit \<Longrightarrow>
   read_from_messages_loop msgs start limit out =
     out @ take (max 1 limit - length out)
       (filter (\<lambda>m. position_at_or_after (position_of (fst m)) start) msgs)"
proof (induction msgs start limit out rule: read_from_messages_loop.induct)
  case (2 mid pl msgs start limit out)
  let ?at = "position_at_or_after (position_of mid) start"
  show ?case
  proof (cases "?at \<and> \<not> limit \<le> length (out @ [(mid, pl)])")
    case True
    moreover from True obtain k where "max 1 limit - length out = Suc k" "k = max 1 limit - length (out @ [(mid, pl)])"
      by (cases "max 1 limit - length out") auto
    ultimately show ?thesis
      using 2 by (auto simp: Let_def)
  next
    case False
    then show ?thesis
    proof (cases ?at)
      case True
      with False 2 have "max 1 limit - length out = 1" by auto
      with True False show ?thesis by (simp add: Let_def)
    qed (use 2 in simp)
  qed
qed simp

lemma read_from_messages_eq:
  "read_from_messages msgs start limit =
     take (max 1 limit) (filter (\<lambda>m. position_at_or_after (position_of (fst m)) start) msgs)"
  by (simp add: read_from_messages_def read_from_messages_loop_take)

section \<open>Transient entries of non-persistent topics\<close>

record NonPersistentEntry =
  np_position :: ManagedLedgerPosition
  np_metadata :: bytes
  np_payload :: bytes
  released :: bool

definition NonPersistentEntry_create ::
    "u64 \<Rightarrow> u64 \<Rightarrow> i32 \<Rightarrow> bytes \<Rightarrow> bytes \<Rightarrow> NonPersistentEntry" where
  "NonPersistentEntry_create lid eid part md pl =
     \<lparr>np_position = ManagedLedgerPosition lid eid part, np_metadata = md, np_payload = pl,
      released = False\<rparr>"

definition retained_duplicate :: "NonPersistentEntry \<Rightarrow> NonPersistentEntry" where
  "retained_duplicate e =
     NonPersistentEntry_create (ledger_id (np_position e)) (entry_id (np_position e))
       (pos_partition (np_position e)) (np_metadata e) (np_payload e)"

definition np_len :: "NonPersistentEntry \<Rightarrow> usize" where
  "np_len e = length (np_metadata e) + length (np_payload e)"

definition np_is_empty :: "NonPersistentEntry \<Rightarrow> bool" where
  "np_is_empty e \<longleftrightarrow> np_metadata e = [] \<and> np_payload e = []"

text \<open>\<open>release\<close> swaps the flag to true and reports whether this call was the first.\<close>

definition release :: "NonPersistentEntry \<Rightarrow> bool \<times> NonPersistentEntry" where
  "release e = (\<not> released e, e\<lparr>released := True\<rparr>)"

end
