(* ===== verification/PL_RangeSet.thy ===== *)
theory PL_RangeSet
  imports PL_Position
begin

text \<open>
  The acknowledged-range set of \<open>managed-ledger/src/range_set.rs\<close>: coalesced inclusive
  ranges kept in a \<open>BTreeSet<(K, K)>\<close>. The trait \<open>Succ\<close> of the sources is the argument
  \<open>sc\<close> of the operations; what the set needs of it is the locale \<open>succ_key\<close>, interpreted
  below on the two implementations of the sources (\<open>u64\<close> and \<open>ManagedLedgerPosition\<close>).
  The abstract view of a range set is the set of keys it covers (\<open>covers\<close>).
\<close>

section \<open>Model\<close>

record 'k RangeSet =
  ranges :: "('k \<times> 'k) btree_set"

definition succ_u64 :: "u64 \<Rightarrow> u64 option" where
  "succ_u64 x = (if x = u64_MAX then None else Some (x + 1))"

definition succ_position :: "ManagedLedgerPosition \<Rightarrow> ManagedLedgerPosition option" where
  "succ_position p =
     map_option (\<lambda>e. ManagedLedgerPosition (ledger_id p) e (pos_partition p)) (succ_u64 (entry_id p))"

definition rs_new :: "'k RangeSet" where
  "rs_new = \<lparr>ranges = []\<rparr>"

definition rs_clear :: "'k RangeSet \<Rightarrow> 'k RangeSet" where
  "rs_clear rs = rs\<lparr>ranges := []\<rparr>"

definition rs_len :: "'k RangeSet \<Rightarrow> usize" where
  "rs_len rs = length (ranges rs)"

definition rs_is_empty :: "'k RangeSet \<Rightarrow> bool" where
  "rs_is_empty rs \<longleftrightarrow> ranges rs = []"

definition rs_contains :: "'k::linorder RangeSet \<Rightarrow> 'k \<Rightarrow> bool" where
  "rs_contains rs pos =
     ((case bts_last_le (pos, pos) (ranges rs) of
         Some (start, end) \<Rightarrow> start \<le> pos \<and> pos \<le> end
       | None \<Rightarrow> False) \<or>
      (case bts_first_ge (pos, pos) (ranges rs) of
         Some (start, _) \<Rightarrow> start = pos
       | None \<Rightarrow> False))"

text \<open>The merge loop of \<open>insert_range\<close>; every round removes one stored range.\<close>

function merge_loop ::
    "('k::linorder \<Rightarrow> 'k option) \<Rightarrow> 'k \<Rightarrow> 'k \<Rightarrow> ('k \<times> 'k) btree_set
     \<Rightarrow> 'k \<times> 'k \<times> ('k \<times> 'k) btree_set" where
  "merge_loop sc start end R =
     (let limit = (case sc end of Some l \<Rightarrow> l | None \<Rightarrow> end) in
      case bts_first_ge (start, start) R of
        None \<Rightarrow> (start, end, R)
      | Some (s, e) \<Rightarrow>
          if s \<le> limit
          then merge_loop sc (if s < start then s else start) (if end < e then e else end)
                 (bts_remove (s, e) R)
          else (start, end, R))"
  by pat_completeness auto
termination
  by (relation "measure (\<lambda>(sc, start, end, R). length R)")
     (auto dest!: bts_first_ge_mem intro: length_bts_remove_less)

declare merge_loop.simps [simp del]

definition rs_insert_range ::
    "('k::linorder \<Rightarrow> 'k option) \<Rightarrow> 'k RangeSet \<Rightarrow> 'k \<Rightarrow> 'k \<Rightarrow> 'k RangeSet" where
  "rs_insert_range sc rs start0 end0 =
     (if end0 < start0 then rs
      else case merge_loop sc start0 end0 (ranges rs) of
        (start, end, R) \<Rightarrow>
          (case bts_last_le (start, start) R of
             Some (s, e) \<Rightarrow>
               if sc e = Some start
               then rs\<lparr>ranges := bts_insert (s, end) (bts_remove (s, e) R)\<rparr>
               else rs\<lparr>ranges := bts_insert (start, end) R\<rparr>
           | None \<Rightarrow> rs\<lparr>ranges := bts_insert (start, end) R\<rparr>))"

definition rs_insert ::
    "('k::linorder \<Rightarrow> 'k option) \<Rightarrow> 'k RangeSet \<Rightarrow> 'k \<Rightarrow> 'k RangeSet" where
  "rs_insert sc rs pos = (if rs_contains rs pos then rs else rs_insert_range sc rs pos pos)"

definition rs_take_covering :: "'k::linorder RangeSet \<Rightarrow> 'k \<Rightarrow> 'k option \<times> 'k RangeSet" where
  "rs_take_covering rs pos =
     (let second =
        (case bts_first_ge (pos, pos) (ranges rs) of
           Some (start, end) \<Rightarrow>
             if start = pos
             then (Some end, rs\<lparr>ranges := bts_remove (start, end) (ranges rs)\<rparr>)
             else (None, rs)
         | None \<Rightarrow> (None, rs))
      in case bts_last_le (pos, pos) (ranges rs) of
           Some (start, end) \<Rightarrow>
             if start \<le> pos
             then (Some end, rs\<lparr>ranges := bts_remove (start, end) (ranges rs)\<rparr>)
             else second
         | None \<Rightarrow> second)"

declare rs_new_def [eval_simps] rs_clear_def [eval_simps] rs_contains_def [eval_simps]
  rs_insert_range_def [eval_simps] rs_insert_def [eval_simps] rs_take_covering_def [eval_simps]
  merge_loop.simps [eval_simps] bts_last_le_def [eval_simps] bts_first_ge_def [eval_simps]
  bts_remove_def [eval_simps] succ_u64_def [eval_simps] succ_position_def [eval_simps]

section \<open>Invariant and abstract view\<close>

text \<open>
  Stored ranges are ordered, non-empty, disjoint and not adjacent. \<open>ok\<close> is the set of keys
  in use: a cursor stores positions with partition -1 only, and only among those is the
  successor of a position the next larger one.
\<close>

definition rs_wf ::
    "('k::linorder \<Rightarrow> 'k option) \<Rightarrow> ('k \<Rightarrow> bool) \<Rightarrow> 'k RangeSet \<Rightarrow> bool" where
  "rs_wf sc ok rs \<longleftrightarrow>
     bts_ok (ranges rs) \<and>
     (\<forall>(s, e) \<in> set (ranges rs). s \<le> e \<and> ok s \<and> ok e) \<and>
     (\<forall>(s, e) \<in> set (ranges rs). \<forall>(s', e') \<in> set (ranges rs).
        (s, e) \<noteq> (s', e') \<longrightarrow> s \<le> s' \<longrightarrow> e < s' \<and> sc e \<noteq> Some s')"

definition covers :: "('k::linorder \<Rightarrow> bool) \<Rightarrow> 'k RangeSet \<Rightarrow> 'k set" where
  "covers ok rs = {k. ok k \<and> (\<exists>(s, e) \<in> set (ranges rs). s \<le> k \<and> k \<le> e)}"

lemma rs_wf_iff:
  "rs_wf sc ok rs \<longleftrightarrow> bts_ok (ranges rs) \<and>
     (\<forall>s e. (s, e) \<in> set (ranges rs) \<longrightarrow> s \<le> e \<and> ok s \<and> ok e) \<and>
     (\<forall>s e s' e'. (s, e) \<in> set (ranges rs) \<longrightarrow> (s', e') \<in> set (ranges rs) \<longrightarrow> s \<le> s' \<longrightarrow>
        (s, e) = (s', e') \<or> e < s' \<and> sc e \<noteq> Some s')"
  by (simp add: rs_wf_def Ball_def split_paired_All) meson

lemma rs_wf_ok: "rs_wf sc ok rs \<Longrightarrow> bts_ok (ranges rs)"
  by (simp add: rs_wf_def)

lemma rs_wf_range: "rs_wf sc ok rs \<Longrightarrow> (s, e) \<in> set (ranges rs) \<Longrightarrow> s \<le> e \<and> ok s \<and> ok e"
  by (auto simp: rs_wf_def)

lemma rs_wf_apart:
  "rs_wf sc ok rs \<Longrightarrow> (s, e) \<in> set (ranges rs) \<Longrightarrow> (s', e') \<in> set (ranges rs) \<Longrightarrow>
   s \<le> s' \<Longrightarrow> (s, e) = (s', e') \<or> e < s' \<and> sc e \<noteq> Some s'"
  unfolding rs_wf_iff by meson

lemma rs_wf_new [wf_intros, simp]: "rs_wf sc ok rs_new"
  by (simp add: rs_wf_def rs_new_def)

lemma rs_wf_clear [wf_intros, simp]: "rs_wf sc ok (rs_clear rs)"
  by (simp add: rs_wf_def rs_clear_def)

lemma rs_wf_subset:
  "rs_wf sc ok rs \<Longrightarrow> bts_ok (ranges rs') \<Longrightarrow> set (ranges rs') \<subseteq> set (ranges rs) \<Longrightarrow> rs_wf sc ok rs'"
  unfolding rs_wf_iff by (meson subsetD)

lemma covers_new [simp]: "covers ok rs_new = {}"
  by (simp add: covers_def rs_new_def)

lemma covers_clear [simp]: "covers ok (rs_clear rs) = {}"
  by (simp add: covers_def rs_clear_def)

section \<open>Lookup\<close>

lemma bts_last_le_covering:
  assumes wf: "rs_wf sc ok rs" and mem: "(s, e) \<in> set (ranges rs)" and "s < p" "p \<le> e"
  shows "bts_last_le (p, p) (ranges rs) = Some (s, e)"
proof -
  have le: "(s, e) \<le> (p, p)" using \<open>s < p\<close> by simp
  then obtain y where y: "bts_last_le (p, p) (ranges rs) = Some y"
    using bts_last_le_ex [OF mem] by blast
  obtain s' e' where [simp]: "y = (s', e')" by (cases y)
  from bts_last_le_mem [OF y] have y_mem: "(s', e') \<in> set (ranges rs)" "s' \<le> p" by auto
  from bts_last_le_greatest [OF rs_wf_ok [OF wf] y mem le] have "s \<le> s'" by auto
  with rs_wf_apart [OF wf mem y_mem(1)] y_mem(2) \<open>p \<le> e\<close> y show ?thesis by auto
qed

lemma bts_first_ge_starting:
  assumes wf: "rs_wf sc ok rs" and mem: "(p, e) \<in> set (ranges rs)"
  shows "bts_first_ge (p, p) (ranges rs) = Some (p, e)"
proof -
  have ge: "(p, p) \<le> (p, e)" using rs_wf_range [OF wf mem] by simp
  then obtain y where y: "bts_first_ge (p, p) (ranges rs) = Some y"
    using bts_first_ge_ex [OF mem] by blast
  obtain s' e' where [simp]: "y = (s', e')" by (cases y)
  from bts_first_ge_mem [OF y] have y_mem: "(s', e') \<in> set (ranges rs)" "p \<le> s'" by auto
  from bts_first_ge_least [OF rs_wf_ok [OF wf] y mem ge] y_mem(2) have "s' = p" by auto
  with rs_wf_apart [OF wf mem y_mem(1)] rs_wf_range [OF wf mem] y show ?thesis by auto
qed

lemma rs_contains_iff:
  assumes wf: "rs_wf sc ok rs"
  shows "rs_contains rs p \<longleftrightarrow> (\<exists>(s, e) \<in> set (ranges rs). s \<le> p \<and> p \<le> e)"
proof
  assume "rs_contains rs p"
  then show "\<exists>(s, e) \<in> set (ranges rs). s \<le> p \<and> p \<le> e"
    using rs_wf_range [OF wf]
    by (auto simp: rs_contains_def split: option.splits dest!: bts_last_le_mem bts_first_ge_mem)
next
  assume "\<exists>(s, e) \<in> set (ranges rs). s \<le> p \<and> p \<le> e"
  then obtain s e where mem: "(s, e) \<in> set (ranges rs)" and "s \<le> p" "p \<le> e" by auto
  show "rs_contains rs p"
  proof (cases "s < p")
    case True
    then show ?thesis
      using bts_last_le_covering [OF wf mem True \<open>p \<le> e\<close>] \<open>s \<le> p\<close> \<open>p \<le> e\<close>
      by (simp add: rs_contains_def)
  next
    case False
    with \<open>s \<le> p\<close> have "s = p" by simp
    then show ?thesis
      using bts_first_ge_starting [OF wf] mem by (simp add: rs_contains_def)
  qed
qed

lemma rs_contains_covers [abs_simps]:
  "rs_wf sc ok rs \<Longrightarrow> ok p \<Longrightarrow> rs_contains rs p \<longleftrightarrow> p \<in> covers ok rs"
  by (simp add: rs_contains_iff covers_def)

section \<open>Taking the range that covers a position\<close>

text \<open>
  \<open>take_covering\<close> looks at the nearest range starting at or before \<open>pos\<close> first and takes it
  without comparing its end with \<open>pos\<close>. It is therefore exact only when no stored range
  lies entirely below \<open>pos\<close>, which is what the mark-delete loops establish.
\<close>

lemma rs_take_covering_some:
  assumes wf: "rs_wf sc ok rs" and above: "\<forall>(s, e) \<in> set (ranges rs). p \<le> e"
    and mem: "(s, e) \<in> set (ranges rs)" and "s \<le> p"
  shows "rs_take_covering rs p = (Some e, rs\<lparr>ranges := bts_remove (s, e) (ranges rs)\<rparr>)"
proof (cases "s < p")
  case True
  have "p \<le> e" using above mem by auto
  from bts_last_le_covering [OF wf mem True this] \<open>s \<le> p\<close> show ?thesis
    by (simp add: rs_take_covering_def)
next
  case False
  with \<open>s \<le> p\<close> have [simp]: "s = p" by simp
  note first = bts_first_ge_starting [OF wf mem [simplified]]
  show ?thesis
  proof (cases "bts_last_le (p, p) (ranges rs)")
    case None
    with first show ?thesis by (simp add: rs_take_covering_def)
  next
    case (Some y)
    obtain s' e' where [simp]: "y = (s', e')" by (cases y)
    from bts_last_le_mem [OF Some] have y_mem: "(s', e') \<in> set (ranges rs)" "s' \<le> p" by auto
    then have "p \<le> e'" using above by auto
    with rs_wf_apart [OF wf y_mem(1) mem] y_mem(2) have "(s', e') = (p, e)" by auto
    with Some show ?thesis by (simp add: rs_take_covering_def)
  qed
qed

lemma rs_take_covering_none:
  assumes "rs_wf sc ok rs" and "\<forall>(s, e) \<in> set (ranges rs). p < s"
  shows "rs_take_covering rs p = (None, rs)"
proof -
  have last: "bts_last_le (p, p) (ranges rs) = None"
    using assms(2) by (auto simp: bts_last_le_None)
  show ?thesis
  proof (cases "bts_first_ge (p, p) (ranges rs)")
    case None
    then show ?thesis by (simp add: rs_take_covering_def last)
  next
    case (Some y)
    with bts_first_ge_mem [OF Some] assms(2) have "fst y \<noteq> p" by auto
    with Some show ?thesis
      by (cases y) (simp add: rs_take_covering_def last)
  qed
qed

lemma rs_take_covering_cases:
  assumes wf: "rs_wf sc ok rs" and above: "\<forall>(s, e) \<in> set (ranges rs). p \<le> e"
  obtains (covered) s e where "(s, e) \<in> set (ranges rs)" "s \<le> p" "p \<le> e"
      "rs_take_covering rs p = (Some e, rs\<lparr>ranges := bts_remove (s, e) (ranges rs)\<rparr>)"
  | (uncovered) "\<forall>(s, e) \<in> set (ranges rs). p < s" "rs_take_covering rs p = (None, rs)"
proof (cases "\<exists>(s, e) \<in> set (ranges rs). s \<le> p")
  case True
  then obtain s e where mem: "(s, e) \<in> set (ranges rs)" "s \<le> p" by auto
  with covered [OF mem] rs_take_covering_some [OF wf above mem] above show ?thesis by auto
next
  case False
  then have "\<forall>(s, e) \<in> set (ranges rs). p < s" by auto
  with uncovered rs_take_covering_none [OF wf] show ?thesis by blast
qed

lemma rs_wf_remove [wf_intros]:
  "rs_wf sc ok rs \<Longrightarrow> rs_wf sc ok (rs\<lparr>ranges := bts_remove r (ranges rs)\<rparr>)"
  by (rule rs_wf_subset) (auto intro: bts_ok_remove dest: rs_wf_ok)

lemma rs_take_covering_Some:
  assumes "rs_take_covering rs p = (Some e, rs')"
  shows "\<exists>s. (s, e) \<in> set (ranges rs) \<and> s \<le> p \<and> rs' = rs\<lparr>ranges := bts_remove (s, e) (ranges rs)\<rparr>"
proof (cases "\<exists>s e. bts_last_le (p, p) (ranges rs) = Some (s, e) \<and> s \<le> p")
  case True
  then obtain s' e' where eq: "bts_last_le (p, p) (ranges rs) = Some (s', e')" and "s' \<le> p"
    by blast
  with assms bts_last_le_mem [OF eq] show ?thesis
    by (intro exI [of _ s']) (auto simp: rs_take_covering_def)
next
  case False
  then have "(case bts_first_ge (p, p) (ranges rs) of
      Some (s, e) \<Rightarrow> if s = p then (Some e, rs\<lparr>ranges := bts_remove (s, e) (ranges rs)\<rparr>) else (None, rs)
    | None \<Rightarrow> (None, rs)) = (Some e, rs')"
    using assms by (auto simp: rs_take_covering_def Let_def split: option.splits)
  then show ?thesis
    by (auto split: option.splits if_splits dest!: bts_first_ge_mem)
qed

lemma length_rs_take_covering:
  assumes "rs_take_covering rs p = (Some e, rs')"
  shows "length (ranges rs') < length (ranges rs)"
  using rs_take_covering_Some [OF assms] length_bts_remove_less by auto

section \<open>The interface of keys with a successor\<close>

locale succ_key =
  fixes sc :: "'k::linorder \<Rightarrow> 'k option" and ok :: "'k \<Rightarrow> bool"
  assumes succ_ok: "ok a \<Longrightarrow> sc a = Some b \<Longrightarrow> ok b"
    and succ_greater: "ok a \<Longrightarrow> sc a = Some b \<Longrightarrow> a < b"
    and succ_least: "ok a \<Longrightarrow> ok c \<Longrightarrow> sc a = Some b \<Longrightarrow> a < c \<Longrightarrow> b \<le> c"
begin

lemma merge_loop_spec:
  assumes "rs_wf sc ok \<lparr>ranges = R\<rparr>" "ok start" "ok end" "start \<le> end"
    and "merge_loop sc start end R = (st, en, R')"
  shows "st = start \<and> end \<le> en \<and> ok en \<and> set R' \<subseteq> set R \<and> bts_ok R' \<and>
    (\<forall>(s, e) \<in> set R'. start \<le> s \<longrightarrow> en < s \<and> sc en \<noteq> Some s) \<and>
    (\<forall>k. ok k \<longrightarrow>
       ((start \<le> k \<and> k \<le> en) \<or> (\<exists>(s, e) \<in> set R'. s \<le> k \<and> k \<le> e)) =
       ((start \<le> k \<and> k \<le> end) \<or> (\<exists>(s, e) \<in> set R. s \<le> k \<and> k \<le> e)))"
  using assms
proof (induction "length R" arbitrary: R "end" rule: less_induct)
  case less
  note wf = \<open>rs_wf sc ok \<lparr>ranges = R\<rparr>\<close>
  define limit where "limit = (case sc end of Some l \<Rightarrow> l | None \<Rightarrow> end)"
  have limit: "end \<le> limit" "\<And>k. ok k \<Longrightarrow> k \<le> end \<or> limit \<le> k"
    using succ_greater [OF \<open>ok end\<close>] succ_least [OF \<open>ok end\<close>] not_le
    by (auto simp: limit_def less_imp_le split: option.splits) blast
  show ?case
  proof (cases "\<exists>s e. bts_first_ge (start, start) R = Some (s, e) \<and> s \<le> limit")
    case True
    then obtain s e where se: "bts_first_ge (start, start) R = Some (s, e)" and "s \<le> limit" by blast
    from bts_first_ge_mem [OF se] have mem: "(s, e) \<in> set R" and "start \<le> s" by auto
    have "s \<le> e" "ok e" using rs_wf_range [OF wf, of s e] mem by auto
    define end' where "end' = (if end < e then e else end)"
    have step: "merge_loop sc start end R = merge_loop sc start end' (bts_remove (s, e) R)"
      using se \<open>s \<le> limit\<close> \<open>start \<le> s\<close>
      by (subst merge_loop.simps) (simp add: limit_def end'_def not_less [symmetric] del: not_less)
    have cov: "(start \<le> k \<and> k \<le> end') = ((start \<le> k \<and> k \<le> end) \<or> (s \<le> k \<and> k \<le> e))" if "ok k" for k
      using limit(2) [OF that] \<open>s \<le> limit\<close> \<open>start \<le> s\<close> \<open>s \<le> e\<close> \<open>start \<le> end\<close>
      by (auto simp: end'_def)
    have "rs_wf sc ok \<lparr>ranges = bts_remove (s, e) R\<rparr>"
      using rs_wf_remove [OF wf] by simp
    from less(1) [OF _ this \<open>ok start\<close>, of end'] length_bts_remove_less [OF mem] less.prems
      \<open>ok e\<close> step
    have IH: "st = start \<and> end' \<le> en \<and> ok en \<and> set R' \<subseteq> set R - {(s, e)} \<and> bts_ok R' \<and>
      (\<forall>(s, e) \<in> set R'. start \<le> s \<longrightarrow> en < s \<and> sc en \<noteq> Some s) \<and>
      (\<forall>k. ok k \<longrightarrow>
         ((start \<le> k \<and> k \<le> en) \<or> (\<exists>(s, e) \<in> set R'. s \<le> k \<and> k \<le> e)) =
         ((start \<le> k \<and> k \<le> end') \<or> (\<exists>(s', e') \<in> set R - {(s, e)}. s' \<le> k \<and> k \<le> e')))"
      by (auto simp: end'_def)
    have cover_R: "(\<exists>(s', e') \<in> set R. s' \<le> k \<and> k \<le> e') \<longleftrightarrow>
        (s \<le> k \<and> k \<le> e) \<or> (\<exists>(s', e') \<in> set R - {(s, e)}. s' \<le> k \<and> k \<le> e')" for k
      using mem by blast
    have "end \<le> end'" by (simp add: end'_def less_imp_le)
    with IH cov cover_R \<open>start \<le> s\<close> show ?thesis by (auto simp: not_less)
  next
    case False
    then have stop: "st = start" "en = end" "R' = R"
      using less.prems(5) by (subst (asm) merge_loop.simps, auto simp: limit_def split: option.splits)+
    have "limit < s" if mem: "(s, e) \<in> set R" and "start \<le> s" for s e
    proof -
      have ge: "(start, start) \<le> (s, e)" using rs_wf_range [OF wf, of s e] that by auto
      from bts_first_ge_ex [OF mem ge] obtain s' e'
        where eq: "bts_first_ge (start, start) R = Some (s', e')" by auto
      have "(s', e') \<le> (s, e)" using bts_first_ge_least [OF _ eq mem ge] rs_wf_ok [OF wf] by simp
      then have "s' \<le> s" by auto
      with False eq show ?thesis by auto
    qed
    then have "\<forall>(s, e) \<in> set R. start \<le> s \<longrightarrow> end < s \<and> sc end \<noteq> Some s"
      using limit(1) by (fastforce simp: limit_def split: option.splits)
    with stop less.prems rs_wf_ok [OF wf] show ?thesis by simp
  qed
qed

lemma rs_wf_insertI:
  assumes "rs_wf sc ok \<lparr>ranges = R\<rparr>" "ok s" "ok e" "s \<le> e"
    and "\<And>s' e'. (s', e') \<in> set R \<Longrightarrow> s' \<le> s \<Longrightarrow> e' < s \<and> sc e' \<noteq> Some s"
    and "\<And>s' e'. (s', e') \<in> set R \<Longrightarrow> s \<le> s' \<Longrightarrow> e < s' \<and> sc e \<noteq> Some s'"
  shows "rs_wf sc ok (rs\<lparr>ranges := bts_insert (s, e) R\<rparr>)"
  using assms unfolding rs_wf_iff by (auto intro: bts_ok_insert)

text \<open>
  Inserting a range adds exactly its keys, provided no stored range starts below the new one
  and reaches into it.
\<close>

lemma rs_insert_range_spec:
  assumes wf: "rs_wf sc ok rs" and ok: "ok s0" "ok e0" and "s0 \<le> e0"
    and noleft: "\<forall>(s, e) \<in> set (ranges rs). s < s0 \<longrightarrow> e < s0"
  shows "rs_wf sc ok (rs_insert_range sc rs s0 e0) \<and>
    covers ok (rs_insert_range sc rs s0 e0) = covers ok rs \<union> {k. ok k \<and> s0 \<le> k \<and> k \<le> e0}"
proof -
  obtain st en R' where eq: "merge_loop sc s0 e0 (ranges rs) = (st, en, R')" by (cases "merge_loop sc s0 e0 (ranges rs)")
  have wfR: "rs_wf sc ok \<lparr>ranges = ranges rs\<rparr>" using wf by (rule rs_wf_subset) (auto intro: rs_wf_ok [OF wf])
  note spec = merge_loop_spec [OF wfR ok \<open>s0 \<le> e0\<close> eq]
  then have [simp]: "st = s0" and en: "e0 \<le> en" "ok en" and sub: "set R' \<subseteq> set (ranges rs)" and "bts_ok R'"
    and right: "\<And>s e. (s, e) \<in> set R' \<Longrightarrow> s0 \<le> s \<Longrightarrow> en < s \<and> sc en \<noteq> Some s"
    and cov: "\<And>k. ok k \<Longrightarrow> ((s0 \<le> k \<and> k \<le> en) \<or> (\<exists>(s, e) \<in> set R'. s \<le> k \<and> k \<le> e)) =
       ((s0 \<le> k \<and> k \<le> e0) \<or> (\<exists>(s, e) \<in> set (ranges rs). s \<le> k \<and> k \<le> e))"
    by auto
  have wf': "rs_wf sc ok \<lparr>ranges = R'\<rparr>" using wf by (rule rs_wf_subset) (use sub \<open>bts_ok R'\<close> in auto)
  have left: "e < s0" if "(s, e) \<in> set R'" "s < s0" for s e
    using noleft sub that by auto
  have covers_eq: "covers ok rs \<union> {k. ok k \<and> s0 \<le> k \<and> k \<le> e0} =
      {k. ok k \<and> ((s0 \<le> k \<and> k \<le> en) \<or> (\<exists>(s, e) \<in> set R'. s \<le> k \<and> k \<le> e))}"
    using cov by (auto simp: covers_def)
  show ?thesis
  proof (cases "\<exists>s e. bts_last_le (s0, s0) R' = Some (s, e) \<and> sc e = Some s0")
    case True
    then obtain s e where last: "bts_last_le (s0, s0) R' = Some (s, e)" and adj: "sc e = Some s0" by blast
    from bts_last_le_mem [OF last] have mem: "(s, e) \<in> set R'" and "s \<le> s0" by auto
    with right [OF mem] en \<open>s0 \<le> e0\<close> have "s < s0" by (cases "s = s0") auto
    have se: "s \<le> e" "ok s" "ok e" using rs_wf_range [OF wf', of s e] mem by auto
    have res: "rs_insert_range sc rs s0 e0 = rs\<lparr>ranges := bts_insert (s, en) (bts_remove (s, e) R')\<rparr>"
      using eq last adj \<open>s0 \<le> e0\<close> by (simp add: rs_insert_range_def)
    have nxt: "s0 \<le> k" if "ok k" "e < k" for k
      using succ_least [OF \<open>ok e\<close> that(1) adj that(2)] .
    have "rs_wf sc ok (rs_insert_range sc rs s0 e0)"
      unfolding res
    proof (rule rs_wf_insertI)
      show "rs_wf sc ok \<lparr>ranges = bts_remove (s, e) R'\<rparr>" using rs_wf_remove [OF wf'] by simp
      show "ok s" "ok en" "s \<le> en" using se en \<open>s < s0\<close> \<open>s0 \<le> e0\<close> by auto
      fix s' e' assume mem': "(s', e') \<in> set (bts_remove (s, e) R')"
      then have ne: "(s', e') \<noteq> (s, e)" and mem': "(s', e') \<in> set R'" by auto
      show "s' \<le> s \<Longrightarrow> e' < s \<and> sc e' \<noteq> Some s"
        using rs_wf_apart [OF wf', of s' e' s e] mem mem' ne by auto
      assume "s \<le> s'"
      then have "e < s'" using rs_wf_apart [OF wf', of s e s' e'] mem mem' ne by auto
      then show "en < s' \<and> sc en \<noteq> Some s'"
        using right [OF mem'] nxt [of s'] rs_wf_range [OF wf', of s' e'] mem' by auto
    qed
    moreover have "covers ok (rs_insert_range sc rs s0 e0) =
      {k. ok k \<and> ((s0 \<le> k \<and> k \<le> en) \<or> (\<exists>(s, e) \<in> set R'. s \<le> k \<and> k \<le> e))}"
    proof -
      have "(s \<le> k \<and> k \<le> en) = ((s0 \<le> k \<and> k \<le> en) \<or> (s \<le> k \<and> k \<le> e))" if "ok k" for k
        using nxt [OF that] left [OF mem \<open>s < s0\<close>] \<open>s < s0\<close> \<open>s0 \<le> e0\<close> en by (auto simp: not_le)
      with mem show ?thesis unfolding res covers_def by auto
    qed
    ultimately show ?thesis using covers_eq by simp
  next
    case False
    have res: "rs_insert_range sc rs s0 e0 = rs\<lparr>ranges := bts_insert (s0, en) R'\<rparr>"
      using eq False \<open>s0 \<le> e0\<close> by (auto simp: rs_insert_range_def split: option.splits)
    have "rs_wf sc ok (rs_insert_range sc rs s0 e0)"
      unfolding res
    proof (rule rs_wf_insertI [OF wf'])
      show "ok s0" "ok en" "s0 \<le> en" using ok en \<open>s0 \<le> e0\<close> by auto
      fix s' e' assume mem': "(s', e') \<in> set R'"
      show "s0 \<le> s' \<Longrightarrow> en < s' \<and> sc en \<noteq> Some s'" by (rule right [OF mem'])
      assume "s' \<le> s0"
      with right [OF mem'] en \<open>s0 \<le> e0\<close> have "s' < s0" by (cases "s' = s0") auto
      then have le: "(s', e') \<le> (s0, s0)" by simp
      from bts_last_le_ex [OF mem' this] obtain s e where last: "bts_last_le (s0, s0) R' = Some (s, e)" by auto
      from bts_last_le_mem [OF last] have mem: "(s, e) \<in> set R'" and "s \<le> s0" by auto
      have "s' \<le> s" using bts_last_le_greatest [OF \<open>bts_ok R'\<close> last mem' le] by auto
      have "sc e' \<noteq> Some s0"
      proof
        assume adj: "sc e' = Some s0"
        with False last have "(s', e') \<noteq> (s, e)" by auto
        with rs_wf_apart [OF wf', of s' e' s e] mem mem' \<open>s' \<le> s\<close> have "e' < s" by auto
        with succ_least [OF _ _ adj] rs_wf_range [OF wf'] mem mem' have "s0 \<le> s" by auto
        with \<open>s \<le> s0\<close> right [OF mem] en \<open>s0 \<le> e0\<close> show False by auto
      qed
      with left [OF mem' \<open>s' < s0\<close>] show "e' < s0 \<and> sc e' \<noteq> Some s0" by simp
    qed
    moreover have "covers ok (rs_insert_range sc rs s0 e0) =
      {k. ok k \<and> ((s0 \<le> k \<and> k \<le> en) \<or> (\<exists>(s, e) \<in> set R'. s \<le> k \<and> k \<le> e))}"
      unfolding res covers_def by auto
    ultimately show ?thesis using covers_eq by simp
  qed
qed

lemma rs_insert_spec:
  assumes wf: "rs_wf sc ok rs" and "ok p"
  shows "rs_wf sc ok (rs_insert sc rs p) \<and> covers ok (rs_insert sc rs p) = insert p (covers ok rs)"
proof (cases "rs_contains rs p")
  case True
  with rs_contains_covers [OF assms] wf show ?thesis by (simp add: rs_insert_def insert_absorb)
next
  case False
  then have noleft: "\<forall>(s, e) \<in> set (ranges rs). s < p \<longrightarrow> e < p"
    using rs_contains_iff [OF wf] by (force simp: not_le)
  have "{k. ok k \<and> p \<le> k \<and> k \<le> p} = {p}" using \<open>ok p\<close> by auto
  with rs_insert_range_spec [OF wf \<open>ok p\<close> \<open>ok p\<close> order_refl noleft] False show ?thesis
    by (simp add: rs_insert_def)
qed

end

interpretation u64_key: succ_key succ_u64 "\<lambda>_. True"
  by unfold_locales (auto simp: succ_u64_def word_less_Suc_iff word_Suc_le split: if_splits)

interpretation position_key: succ_key succ_position "\<lambda>p. pos_partition p = -1"
  by unfold_locales (auto simp: succ_position_def succ_u64_def position_less_iff position_le_iff
      word_less_Suc_iff split: if_splits dest: word_Suc_le)

lemmas u64_insert_wf [wf_intros] = u64_key.rs_insert_spec [THEN conjunct1, OF _ TrueI]
lemmas position_insert_wf [wf_intros] = position_key.rs_insert_spec [THEN conjunct1]

section \<open>The stored ranges are determined by the covered keys\<close>

text \<open>
  For \<open>u64\<close> keys the stored ranges are exactly the maximal intervals of the covered set, so
  two well-formed range sets that cover the same keys are equal.
\<close>

abbreviation rs_wf64 :: "u64 RangeSet \<Rightarrow> bool" where
  "rs_wf64 \<equiv> rs_wf succ_u64 (\<lambda>_. True)"

abbreviation covers64 :: "u64 RangeSet \<Rightarrow> u64 set" where
  "covers64 \<equiv> covers (\<lambda>_. True)"

lemma covers_memI: "(s, e) \<in> set (ranges rs) \<Longrightarrow> ok k \<Longrightarrow> s \<le> k \<Longrightarrow> k \<le> e \<Longrightarrow> k \<in> covers ok rs"
  unfolding covers_def by blast

lemma bex_remove: "x \<in> A \<Longrightarrow> (\<exists>r \<in> A. P r) \<longleftrightarrow> P x \<or> (\<exists>r \<in> A - {x}. P r)"
  by (metis DiffD1 DiffI singletonD)

lemma covers_remove:
  assumes "(s, e) \<in> set (ranges rs)"
  shows "covers ok rs =
     {k. ok k \<and> s \<le> k \<and> k \<le> e} \<union> covers ok (rs\<lparr>ranges := bts_remove (s, e) (ranges rs)\<rparr>)"
  unfolding covers_def bex_remove [OF assms] by auto

lemma covers64_after_end:
  assumes wf: "rs_wf64 rs" and mem: "(s, e) \<in> set (ranges rs)" and "e \<noteq> - 1"
  shows "e + 1 \<notin> covers64 rs"
proof
  assume "e + 1 \<in> covers64 rs"
  then obtain s' e' where mem': "(s', e') \<in> set (ranges rs)" and b: "s' \<le> e + 1" "e + 1 \<le> e'"
    by (auto simp: covers_def)
  have "e < e + 1" using \<open>e \<noteq> - 1\<close> by (rule word_less_Suc_iff)
  have "s \<le> e" using rs_wf_range [OF wf mem] by simp
  show False
  proof (cases "s \<le> s'")
    case True
    with rs_wf_apart [OF wf mem mem'] b \<open>e < e + 1\<close> have "e < s'" "succ_u64 e \<noteq> Some s'" by auto
    with b(1) word_Suc_le [of e s'] \<open>e \<noteq> - 1\<close> show False by (simp add: succ_u64_def)
  next
    case False
    then have "s' \<le> s" by simp
    from rs_wf_apart [OF wf mem' mem this] False have "e' < s" by auto
    with b(2) \<open>s \<le> e\<close> \<open>e < e + 1\<close> show False by auto
  qed
qed

lemma covers64_before_start:
  assumes wf: "rs_wf64 rs" and mem: "(s, e) \<in> set (ranges rs)" and "k < s" and nx: "k + 1 = s"
  shows "k \<notin> covers64 rs"
proof
  assume "k \<in> covers64 rs"
  then obtain s' e' where mem': "(s', e') \<in> set (ranges rs)" and b: "s' \<le> k" "k \<le> e'"
    by (auto simp: covers_def)
  from b(1) \<open>k < s\<close> have "s' < s" by (rule le_less_trans)
  from rs_wf_apart [OF wf mem' mem less_imp_le [OF this]] this
  have "e' < s" "succ_u64 e' \<noteq> Some s" by auto
  moreover have "e' \<noteq> - 1" using \<open>e' < s\<close> by (metis word_not_simps(3))
  ultimately have "e' + 1 < s" using word_Suc_le [of e' s] by (simp add: succ_u64_def less_le)
  moreover have "k + 1 \<le> e' + 1"
    using b(2) word_le_less_Suc [OF \<open>e' \<noteq> - 1\<close>, of k] by (auto intro: word_Suc_le)
  ultimately show False using nx by simp
qed

lemma ranges_iff_maximal:
  assumes wf: "rs_wf64 rs"
  shows "(s, e) \<in> set (ranges rs) \<longleftrightarrow> s \<le> e \<and> {s..e} \<subseteq> covers64 rs \<and>
    (e = - 1 \<or> e + 1 \<notin> covers64 rs) \<and> (\<forall>k. k < s \<longrightarrow> k + 1 = s \<longrightarrow> k \<notin> covers64 rs)"
    (is "?L \<longleftrightarrow> ?R")
proof
  assume mem: ?L
  with rs_wf_range [OF wf mem] have "{s..e} \<subseteq> covers64 rs" by (auto intro: covers_memI)
  with rs_wf_range [OF wf mem] covers64_after_end [OF wf mem] covers64_before_start [OF wf mem]
  show ?R by auto
next
  assume R: ?R
  then have "s \<in> covers64 rs" by auto
  then obtain s' e' where mem: "(s', e') \<in> set (ranges rs)" and b: "s' \<le> s" "s \<le> e'"
    by (auto simp: covers_def)
  have "s' = s"
  proof (rule ccontr)
    assume "s' \<noteq> s"
    with b(1) have "s' < s" by simp
    note pred = word_pred_bounds [OF this]
    with R have "s - 1 \<notin> covers64 rs" by blast
    moreover have "s - 1 \<le> e'" using pred b(2) by auto
    ultimately show False using pred covers_memI [OF mem, of "\<lambda>_. True" "s - 1"] by simp
  qed
  moreover have "e' = e"
  proof (rule ccontr)
    assume "e' \<noteq> e"
    then consider "e < e'" | "e' < e" by force
    then show False
    proof cases
      case 1
      then have "e + 1 \<le> e'" "e \<noteq> - 1" by (auto intro: word_Suc_le)
      moreover have "s' \<le> e + 1" using R \<open>s' = s\<close> \<open>e \<noteq> - 1\<close> word_less_Suc_iff [of e] by auto
      ultimately show False using R covers_memI [OF mem, of "\<lambda>_. True" "e + 1"] by simp
    next
      case 2
      then have "e' + 1 \<le> e" "e' \<noteq> - 1" by (auto intro: word_Suc_le)
      moreover have "s \<le> e' + 1" using b(2) \<open>e' \<noteq> - 1\<close> word_less_Suc_iff [of e'] by auto
      ultimately have "e' + 1 \<in> covers64 rs" using R by auto
      with covers64_after_end [OF wf mem \<open>e' \<noteq> - 1\<close>] show False by simp
    qed
  qed
  ultimately show ?L using mem by simp
qed

lemma rs_canonical:
  assumes "rs_wf64 rs" "rs_wf64 rs'" "covers64 rs = covers64 rs'"
  shows "rs = rs'"
proof -
  have "(s, e) \<in> set (ranges rs) \<longleftrightarrow> (s, e) \<in> set (ranges rs')" for s e
    by (simp only: ranges_iff_maximal [OF assms(1)] ranges_iff_maximal [OF assms(2)] assms(3))
  then have "set (ranges rs) = set (ranges rs')" by auto
  with rs_wf_ok [OF assms(1)] rs_wf_ok [OF assms(2)] have "ranges rs = ranges rs'"
    unfolding bts_ok_def by (auto intro: strict_sorted_equal)
  then show ?thesis by (cases rs; cases rs') simp
qed

section \<open>Properties\<close>

text \<open>C23: Inserting an acknowledged position keeps the stored ranges ordered, disjoint and
  coalesced, and afterwards exactly the old positions and the new one are contained.\<close>

theorem rs_insert_contains:
  assumes "rs_wf succ_position (\<lambda>p. pos_partition p = -1) rs" "pos_partition p = -1"
  shows "rs_wf succ_position (\<lambda>p. pos_partition p = -1) (rs_insert succ_position rs p) \<and>
    (\<forall>q. pos_partition q = -1 \<longrightarrow>
       rs_contains (rs_insert succ_position rs p) q = (q = p \<or> rs_contains rs q))"
  using position_key.rs_insert_spec [OF assms] assms
  by (auto simp: rs_contains_covers [of succ_position "\<lambda>p. pos_partition p = -1"])

theorem rs_insert_contains_witness:
  "rs_contains (rs_insert succ_position (rs_insert succ_position rs_new (ManagedLedgerPosition 1 4 (-1)))
     (ManagedLedgerPosition 1 5 (-1))) (ManagedLedgerPosition 1 4 (-1))"
proof -
  let ?rs = "rs_insert succ_position rs_new (ManagedLedgerPosition 1 4 (-1))"
  have "rs_wf succ_position (\<lambda>p. pos_partition p = -1) ?rs"
    by (intro position_insert_wf rs_wf_new) simp
  moreover have "rs_contains ?rs (ManagedLedgerPosition 1 4 (-1))" by (simp add: eval_simps)
  ultimately show ?thesis
    using rs_insert_contains [of ?rs "ManagedLedgerPosition 1 5 (-1)"] by simp
qed

text \<open>\<open>insert_range\<close> adds exactly the positions of the inserted range and keeps the set
  well-formed, when no stored range begins before the new one and reaches into it (the case
  of the cursor decoder, which inserts disjoint ranges).\<close>

lemma rs_insert_range_contains:
  assumes "rs_wf succ_position (\<lambda>p. pos_partition p = -1) rs"
    and "pos_partition a = -1" "pos_partition b = -1" "a \<le> b"
    and "\<forall>(s, e) \<in> set (ranges rs). s < a \<longrightarrow> e < a"
  shows "rs_wf succ_position (\<lambda>p. pos_partition p = -1) (rs_insert_range succ_position rs a b) \<and>
    (\<forall>q. pos_partition q = -1 \<longrightarrow>
       rs_contains (rs_insert_range succ_position rs a b) q =
         ((a \<le> q \<and> q \<le> b) \<or> rs_contains rs q))"
  using position_key.rs_insert_range_spec [OF assms] assms(1)
  by (auto simp: rs_contains_covers [of succ_position "\<lambda>p. pos_partition p = -1"])

lemma rs_insert_range_contains_witness:
  "rs_contains (rs_insert_range succ_position
       (rs_insert succ_position rs_new (ManagedLedgerPosition 1 4 (-1)))
       (ManagedLedgerPosition 1 6 (-1)) (ManagedLedgerPosition 1 8 (-1)))
     (ManagedLedgerPosition 1 7 (-1))"
proof -
  let ?rs = "rs_insert succ_position rs_new (ManagedLedgerPosition 1 4 (-1))"
  have "rs_wf succ_position (\<lambda>p. pos_partition p = -1) ?rs"
    by (intro position_insert_wf rs_wf_new) simp
  moreover have "\<forall>(s, e) \<in> set (ranges ?rs). s < ManagedLedgerPosition 1 6 (-1) \<longrightarrow> e < ManagedLedgerPosition 1 6 (-1)"
    by (simp add: eval_simps)
  moreover have "ManagedLedgerPosition 1 6 (-1) \<le> ManagedLedgerPosition 1 7 (-1)"
    "ManagedLedgerPosition 1 7 (-1) \<le> ManagedLedgerPosition 1 8 (-1)"
    "ManagedLedgerPosition 1 6 (-1) \<le> ManagedLedgerPosition 1 8 (-1)"
    by (simp_all add: position_order_defs)
  ultimately show ?thesis
    using rs_insert_range_contains [of ?rs "ManagedLedgerPosition 1 6 (-1)" "ManagedLedgerPosition 1 8 (-1)"]
    by simp
qed

text \<open>The range covering a position is taken whole by \<open>take_covering\<close>, which
  returns its end and leaves every position outside that range as it was, when no stored
  range lies entirely below the position.\<close>

lemma rs_take_covering_exact:
  assumes "rs_wf64 rs" "\<forall>(s, e) \<in> set (ranges rs). p \<le> e" "rs_contains rs p"
  shows "\<exists>s e rs'. rs_take_covering rs p = (Some e, rs') \<and> s \<le> p \<and> p \<le> e \<and> rs_wf64 rs' \<and>
    (\<forall>q. rs_contains rs q = ((s \<le> q \<and> q \<le> e) \<or> rs_contains rs' q))"
  using assms(1,2)
proof (cases rule: rs_take_covering_cases)
  case (covered s e)
  let ?rs' = "rs\<lparr>ranges := bts_remove (s, e) (ranges rs)\<rparr>"
  have "rs_wf64 ?rs'" by (rule rs_wf_remove [OF assms(1)])
  moreover have "rs_contains rs q = ((s \<le> q \<and> q \<le> e) \<or> rs_contains ?rs' q)" for q
    using covered(1) rs_contains_iff [OF assms(1)] rs_contains_iff [OF \<open>rs_wf64 ?rs'\<close>] by auto
  ultimately show ?thesis using covered by blast
next
  case uncovered
  with assms(3) rs_contains_iff [OF assms(1), of p] show ?thesis by fastforce
qed

lemma rs_take_covering_exact_witness:
  "\<exists>e rs'. rs_take_covering (rs_insert_range succ_u64 rs_new 3 9) 4 = (Some e, rs') \<and> 4 \<le> e"
proof -
  have "rs_wf64 (rs_insert_range succ_u64 rs_new 3 9)"
    by (rule u64_key.rs_insert_range_spec [THEN conjunct1]) (simp_all add: rs_new_def rs_wf_def)
  moreover have "\<forall>(s, e) \<in> set (ranges (rs_insert_range succ_u64 rs_new 3 9)). 4 \<le> e"
    "rs_contains (rs_insert_range succ_u64 rs_new 3 9) 4"
    by (simp_all add: eval_simps)
  ultimately show ?thesis
    using rs_take_covering_exact [of "rs_insert_range succ_u64 rs_new 3 9" 4] by blast
qed

text \<open>\<open>take_covering\<close> does not compare the position with the end of the range
  it takes: with the range 1 to 2 stored it answers 2 for position 5, which no range contains,
  and drops the acknowledged positions 1 and 2.\<close>

lemma rs_take_covering_not_contained:
  "let rs = rs_insert_range succ_u64 rs_new 1 2 in
   \<not> rs_contains rs 5 \<and> rs_take_covering rs 5 = (Some 2, rs_new)"
  by (simp add: eval_simps)

text \<open>\<open>insert_range\<close> does not merge a stored range that begins below the new
  one: inserting 5 to 7 into 1 to 20 leaves two overlapping ranges, and position 15, which was
  contained before, is no longer found.\<close>

lemma rs_insert_range_left_overlap:
  "let rs = rs_insert_range succ_u64 rs_new 1 20; rs' = rs_insert_range succ_u64 rs 5 7 in
   rs_contains rs 15 \<and> \<not> rs_contains rs' 15 \<and> ranges rs' = [(1, 20), (5, 7)]"
  by (simp add: eval_simps word_le_def)

end
