(* ===== verification/PL_SubscriptionCursor.thy ===== *)
theory PL_SubscriptionCursor
  imports PL_RangeSet
begin

text \<open>
  The acknowledgement cursor of Shared subscriptions (\<open>managed-ledger/src/cursor.rs\<close>): a
  mark-delete frontier over entry ids and the range set of entries acknowledged out of order.
  The abstract view of a cursor is the set of acknowledged entry ids (\<open>acked\<close>).
\<close>

section \<open>Model\<close>

record SubscriptionCursor =
  mark_delete :: "u64 option"
  acked_holes :: "u64 RangeSet"

definition SubscriptionCursor_default :: SubscriptionCursor where
  "SubscriptionCursor_default = \<lparr>mark_delete = None, acked_holes = rs_new\<rparr>"

record ManagedCursorState =
  mcs_mark_delete :: "ManagedLedgerPosition option"
  individually_deleted_entries :: "ManagedLedgerPosition RangeSet"

definition ManagedCursorState_default :: ManagedCursorState where
  "ManagedCursorState_default = \<lparr>mcs_mark_delete = None, individually_deleted_entries = rs_new\<rparr>"

definition is_message_acknowledged :: "SubscriptionCursor option \<Rightarrow> u64 \<Rightarrow> bool" where
  "is_message_acknowledged cursor e =
     (case cursor of
        None \<Rightarrow> False
      | Some c \<Rightarrow> (case mark_delete c of Some md \<Rightarrow> e \<le> md | None \<Rightarrow> False) \<or>
          rs_contains (acked_holes c) e)"

text \<open>Every round of the loop removes a stored range, so it ends.\<close>

function advance_mark_delete :: "SubscriptionCursor \<Rightarrow> SubscriptionCursor" where
  "advance_mark_delete c =
     (let next_expected = (case mark_delete c of None \<Rightarrow> 0 | Some md \<Rightarrow> md + 1) in
      case rs_take_covering (acked_holes c) next_expected of
        (Some end, holes) \<Rightarrow> advance_mark_delete (c\<lparr>mark_delete := Some end, acked_holes := holes\<rparr>)
      | (None, holes) \<Rightarrow> c\<lparr>acked_holes := holes\<rparr>)"
  by pat_completeness auto
termination
  by (relation "measure (\<lambda>c. length (ranges (acked_holes c)))")
     (auto intro: length_rs_take_covering [OF sym])

declare advance_mark_delete.simps [simp del]

definition ack_shared :: "SubscriptionCursor \<Rightarrow> u64 \<Rightarrow> (u64 option \<times> usize) \<times> SubscriptionCursor" where
  "ack_shared c e =
     (if is_message_acknowledged (Some c) e
      then ((mark_delete c, rs_len (acked_holes c)), c)
      else
        let c' =
          (case mark_delete c of
             None \<Rightarrow>
               if e = 0 then advance_mark_delete (c\<lparr>mark_delete := Some 0\<rparr>)
               else c\<lparr>acked_holes := rs_insert succ_u64 (acked_holes c) e\<rparr>
           | Some md \<Rightarrow>
               if e = md + 1 then advance_mark_delete (c\<lparr>mark_delete := Some e\<rparr>)
               else if md + 1 < e then c\<lparr>acked_holes := rs_insert succ_u64 (acked_holes c) e\<rparr>
               else c)
        in ((mark_delete c', rs_len (acked_holes c')), c'))"

declare SubscriptionCursor_default_def [eval_simps] is_message_acknowledged_def [eval_simps]
  advance_mark_delete.simps [eval_simps] ack_shared_def [eval_simps] rs_len_def [eval_simps]

section \<open>Invariant and abstract view\<close>

definition acked :: "SubscriptionCursor \<Rightarrow> u64 set" where
  "acked c = {e. is_message_acknowledged (Some c) e}"

text \<open>The holes are well-formed and start strictly after the entry that would extend the frontier.\<close>

definition cursor_wf :: "SubscriptionCursor \<Rightarrow> bool" where
  "cursor_wf c \<longleftrightarrow> rs_wf64 (acked_holes c) \<and>
     (\<forall>(s, e) \<in> set (ranges (acked_holes c)).
        case mark_delete c of None \<Rightarrow> s \<noteq> 0 | Some md \<Rightarrow> md < s \<and> s \<noteq> md + 1)"

lemma cursor_wf_default [simp, wf_intros]: "cursor_wf SubscriptionCursor_default"
  by (simp add: cursor_wf_def SubscriptionCursor_default_def rs_new_def rs_wf_def)

lemma acked_default [simp]: "acked SubscriptionCursor_default = {}"
  by (simp add: acked_def is_message_acknowledged_def SubscriptionCursor_default_def rs_new_def
      rs_contains_def bts_last_le_def bts_first_ge_def)

lemma acked_eq:
  "rs_wf64 (acked_holes c) \<Longrightarrow>
   acked c = (case mark_delete c of None \<Rightarrow> {} | Some md \<Rightarrow> {..md}) \<union> covers64 (acked_holes c)"
  by (auto simp: acked_def is_message_acknowledged_def rs_contains_covers [of succ_u64 "\<lambda>_. True"]
      split: option.splits)

lemma advance_mark_delete_spec:
  assumes "rs_wf64 (acked_holes c)" "mark_delete c = Some md"
    and "\<forall>(s, e) \<in> set (ranges (acked_holes c)). md < s"
  shows "cursor_wf (advance_mark_delete c) \<and> acked (advance_mark_delete c) = acked c \<and>
    (\<exists>md' \<ge> md. mark_delete (advance_mark_delete c) = Some md')"
  using assms
proof (induction "length (ranges (acked_holes c))" arbitrary: c md rule: less_induct)
  case less
  note wf = less.prems(1) and md = less.prems(2) and above = less.prems(3)
  have "md + 1 \<le> e" if "(s, e) \<in> set (ranges (acked_holes c))" for s e
    using rs_wf_range [OF wf that] above that by (fastforce intro: word_Suc_le)
  then have above': "\<forall>(s, e) \<in> set (ranges (acked_holes c)). md + 1 \<le> e" by auto
  from wf above' show ?case
  proof (cases rule: rs_take_covering_cases)
    case (covered s e)
    define c' where "c' = c\<lparr>mark_delete := Some e,
      acked_holes := (acked_holes c)\<lparr>ranges := bts_remove (s, e) (ranges (acked_holes c))\<rparr>\<rparr>"
    have step: "advance_mark_delete c = advance_mark_delete c'"
      using covered(4) md by (subst advance_mark_delete.simps) (simp add: c'_def)
    have "md < s" using above covered(1) by auto
    then have s: "s = md + 1" using covered(2) word_Suc_le [of md s] by auto
    have wf': "rs_wf64 (acked_holes c')" using rs_wf_remove [OF wf] by (simp add: c'_def)
    have "\<forall>(s', e') \<in> set (ranges (acked_holes c')). e < s'"
      using above rs_wf_apart [OF wf covered(1)] s by (fastforce simp: c'_def intro: word_Suc_le)
    from less.hyps [OF _ wf' _ this] length_bts_remove_less [OF covered(1)]
    have IH: "cursor_wf (advance_mark_delete c') \<and> acked (advance_mark_delete c') = acked c' \<and>
        (\<exists>md' \<ge> e. mark_delete (advance_mark_delete c') = Some md')"
      by (simp add: c'_def)
    have "{..e} = {..md} \<union> {s..e}"
      using covered(3) s \<open>md < s\<close> by (auto intro: word_not_Suc_le)
    moreover have "covers64 (acked_holes c) = {s..e} \<union> covers64 (acked_holes c')"
      using covers_remove [OF covered(1), of "\<lambda>_. True"]
      by (simp add: c'_def atLeastAtMost_def atLeast_def atMost_def Int_def)
    moreover have "mark_delete c' = Some e" by (simp add: c'_def)
    ultimately have "acked c' = acked c"
      using md by (simp add: acked_eq [OF wf] acked_eq [OF wf'] Un_assoc)
    moreover have "md \<le> e" using covered(3) \<open>md < s\<close> s by simp
    ultimately show ?thesis using IH step order_trans [of md e] by metis
  next
    case uncovered
    then have "advance_mark_delete c = c"
      using md by (subst advance_mark_delete.simps) simp
    with uncovered above wf md show ?thesis by (auto simp: cursor_wf_def)
  qed
qed

lemma cursor_wf_iff:
  "cursor_wf c \<longleftrightarrow> rs_wf64 (acked_holes c) \<and>
     (case mark_delete c of None \<Rightarrow> 0 \<notin> covers64 (acked_holes c)
      | Some md \<Rightarrow> \<forall>k \<in> covers64 (acked_holes c). md < k \<and> k \<noteq> md + 1)"
proof (cases "rs_wf64 (acked_holes c)")
  case True
  have start: "s \<in> covers64 (acked_holes c)" if "(s, e) \<in> set (ranges (acked_holes c))" for s e
    using rs_wf_range [OF True that] covers_memI [OF that] by simp
  have cover: "\<exists>s e. (s, e) \<in> set (ranges (acked_holes c)) \<and> s \<le> k"
    if "k \<in> covers64 (acked_holes c)" for k
    using that by (auto simp: covers_def)
  show ?thesis
  proof (cases "mark_delete c")
    case None
    have "0 \<notin> covers64 (acked_holes c) \<longleftrightarrow> (\<forall>(s, e) \<in> set (ranges (acked_holes c)). s \<noteq> 0)"
      using start cover [of 0] by auto
    with None True show ?thesis by (simp add: cursor_wf_def)
  next
    case (Some md)
    have "(\<forall>k \<in> covers64 (acked_holes c). md < k \<and> k \<noteq> md + 1) \<longleftrightarrow>
        (\<forall>(s, e) \<in> set (ranges (acked_holes c)). md < s \<and> s \<noteq> md + 1)" (is "?L \<longleftrightarrow> ?R")
    proof
      assume ?R
      show ?L
      proof
        fix k assume "k \<in> covers64 (acked_holes c)"
        from cover [OF this] \<open>?R\<close> obtain s where "md < s" "s \<noteq> md + 1" "s \<le> k" by auto
        moreover from \<open>md < s\<close> have "md + 1 \<le> s" by (rule word_Suc_le)
        ultimately show "md < k \<and> k \<noteq> md + 1" by auto
      qed
    qed (use start in auto)
    with Some True show ?thesis by (simp add: cursor_wf_def)
  qed
qed (simp add: cursor_wf_def)

lemma cursor_insert_hole:
  assumes wf: "cursor_wf c" and "e \<notin> acked c"
    and "case mark_delete c of None \<Rightarrow> e \<noteq> 0 | Some md \<Rightarrow> e \<noteq> md + 1"
  shows "cursor_wf (c\<lparr>acked_holes := rs_insert succ_u64 (acked_holes c) e\<rparr>) \<and>
    acked (c\<lparr>acked_holes := rs_insert succ_u64 (acked_holes c) e\<rparr>) = insert e (acked c)"
proof -
  have wf': "rs_wf64 (acked_holes c)" using wf by (simp add: cursor_wf_def)
  note ins = u64_key.rs_insert_spec [OF wf' TrueI, of e]
  have "e \<notin> {..md}" if "mark_delete c = Some md" for md
    using assms(2) that by (simp add: acked_eq [OF wf'])
  with ins assms(1,3) show ?thesis
    by (cases "mark_delete c") (auto simp: cursor_wf_iff acked_eq not_le)
qed

lemma cursor_extend:
  assumes wf: "cursor_wf c" and "e \<notin> acked c"
    and "case mark_delete c of None \<Rightarrow> e = 0 | Some md \<Rightarrow> e = md + 1"
  shows "cursor_wf (advance_mark_delete (c\<lparr>mark_delete := Some e\<rparr>)) \<and>
    acked (advance_mark_delete (c\<lparr>mark_delete := Some e\<rparr>)) = insert e (acked c) \<and>
    (\<exists>md' \<ge> e. mark_delete (advance_mark_delete (c\<lparr>mark_delete := Some e\<rparr>)) = Some md')"
proof -
  let ?c = "c\<lparr>mark_delete := Some e\<rparr>"
  have wf': "rs_wf64 (acked_holes c)" using wf by (simp add: cursor_wf_def)
  have lt: "md < e" if "mark_delete c = Some md" for md
    using assms(2) that by (simp add: acked_eq [OF wf'] not_le)
  have "e < s" if mem: "(s, e') \<in> set (ranges (acked_holes c))" for s e'
  proof (cases "mark_delete c")
    case None
    with wf mem assms(3) show ?thesis by (auto simp: cursor_wf_def word_neq_0_conv)
  next
    case (Some md)
    with wf mem have "md < s" "s \<noteq> md + 1" by (auto simp: cursor_wf_def)
    with Some assms(3) word_Suc_le [of md s] show ?thesis by auto
  qed
  then have "\<forall>(s, e') \<in> set (ranges (acked_holes ?c)). e < s" by auto
  moreover have "acked ?c = insert e (acked c)"
    using assms(3) wf' word_atMost_Suc lt by (cases "mark_delete c") (auto simp: acked_eq)
  ultimately show ?thesis using advance_mark_delete_spec [of ?c e] wf' by simp
qed

text \<open>One acknowledgement: the invariant, the acknowledged set, the frontier and the reply.\<close>

lemma ack_shared_spec:
  assumes wf: "cursor_wf c" and ack: "ack_shared c e = (r, c')"
  shows "cursor_wf c'" and "acked c' = insert e (acked c)"
    and "r = (mark_delete c', rs_len (acked_holes c'))"
proof -
  have *: "cursor_wf c' \<and> acked c' = insert e (acked c) \<and> r = (mark_delete c', rs_len (acked_holes c'))"
  proof (cases "e \<in> acked c")
    case True
    with wf ack show ?thesis by (auto simp: acked_def ack_shared_def)
  next
    case False
    then have not: "\<not> is_message_acknowledged (Some c) e" by (simp add: acked_def)
    have wf': "rs_wf64 (acked_holes c)" using wf by (simp add: cursor_wf_def)
    have lt: "md < e" if "mark_delete c = Some md" for md
      using False that by (simp add: acked_eq [OF wf'] not_le)
    show ?thesis
    proof (cases "case mark_delete c of None \<Rightarrow> e = 0 | Some md \<Rightarrow> e = md + 1")
      case True
      with cursor_extend [OF wf False True] ack not show ?thesis
        by (auto simp: ack_shared_def Let_def split: option.splits)
    next
      case hole: False
      then have "case mark_delete c of None \<Rightarrow> e \<noteq> 0 | Some md \<Rightarrow> e \<noteq> md + 1"
        by (simp split: option.splits)
      with cursor_insert_hole [OF wf False this] ack not lt show ?thesis
        by (auto simp: ack_shared_def Let_def not_less word_Suc_le split: option.splits if_splits
            dest!: word_Suc_le)
    qed
  qed
  from * show "cursor_wf c'" "acked c' = insert e (acked c)"
    "r = (mark_delete c', rs_len (acked_holes c'))" by auto
qed

section \<open>Frontier and canonical form\<close>

lemma acked_prefix_iff:
  assumes wf: "cursor_wf c"
  shows "{..e} \<subseteq> acked c \<longleftrightarrow> (\<exists>md. mark_delete c = Some md \<and> e \<le> md)"
proof
  have wf': "rs_wf64 (acked_holes c)" using wf by (simp add: cursor_wf_def)
  assume sub: "{..e} \<subseteq> acked c"
  show "\<exists>md. mark_delete c = Some md \<and> e \<le> md"
  proof (cases "mark_delete c")
    case None
    from sub have "0 \<in> acked c" by auto
    with None wf show ?thesis by (simp add: acked_eq [OF wf'] cursor_wf_iff)
  next
    case (Some md)
    have "\<not> md < e"
    proof
      assume "md < e"
      then have "md + 1 \<le> e" "md < md + 1"
        by (auto intro: word_Suc_le word_less_Suc_iff dest: word_less_not_max)
      with sub have "md + 1 \<in> acked c" by auto
      with Some wf \<open>md < md + 1\<close> show False by (auto simp: acked_eq [OF wf'] cursor_wf_iff)
    qed
    with Some show ?thesis by auto
  qed
next
  assume "\<exists>md. mark_delete c = Some md \<and> e \<le> md"
  then show "{..e} \<subseteq> acked c" by (auto simp: acked_def is_message_acknowledged_def)
qed

lemma acked_determines_mark_delete:
  assumes "cursor_wf c" "cursor_wf d" "acked c = acked d"
  shows "mark_delete c = mark_delete d"
proof -
  have iff: "(\<exists>md. mark_delete c = Some md \<and> e \<le> md) \<longleftrightarrow> (\<exists>md. mark_delete d = Some md \<and> e \<le> md)" for e
    using acked_prefix_iff [OF assms(1), of e] acked_prefix_iff [OF assms(2), of e] assms(3) by simp
  show ?thesis
  proof (cases "mark_delete c")
    case None
    with iff [of 0] show ?thesis by (cases "mark_delete d") auto
  next
    case (Some a)
    with iff [of a] obtain b where b: "mark_delete d = Some b" "a \<le> b" by auto
    with iff [of b] Some show ?thesis by auto
  qed
qed

text \<open>Two well-formed cursors that acknowledge the same entries are the same cursor.\<close>

lemma cursor_canonical:
  assumes "cursor_wf c" "cursor_wf d" "acked c = acked d"
  shows "c = d"
proof -
  have md: "mark_delete c = mark_delete d" by (rule acked_determines_mark_delete [OF assms])
  have holes: "covers64 (acked_holes x) = acked x - (case mark_delete x of None \<Rightarrow> {} | Some md \<Rightarrow> {..md})"
    if "cursor_wf x" for x
  proof -
    have wf': "rs_wf64 (acked_holes x)" using that by (simp add: cursor_wf_def)
    show ?thesis using that unfolding acked_eq [OF wf']
      by (cases "mark_delete x") (auto simp: cursor_wf_iff)
  qed
  have "acked_holes c = acked_holes d"
    by (rule rs_canonical) (use assms holes md in \<open>simp_all add: cursor_wf_def\<close>)
  with md show ?thesis by (cases c; cases d) simp
qed

text \<open>A sequence of acknowledgements, as the storage applies them.\<close>

definition ack_all :: "SubscriptionCursor \<Rightarrow> u64 list \<Rightarrow> SubscriptionCursor" where
  "ack_all c es = fold (\<lambda>e c. snd (ack_shared c e)) es c"

lemma ack_all_spec:
  "cursor_wf c \<Longrightarrow> cursor_wf (ack_all c es) \<and> acked (ack_all c es) = set es \<union> acked c"
proof (induction es arbitrary: c)
  case (Cons e es)
  obtain r c' where ack: "ack_shared c e = (r, c')" by fastforce
  from ack_shared_spec [OF Cons.prems ack] Cons.IH [of c'] ack show ?case
    by (auto simp: ack_all_def)
qed (simp add: ack_all_def)

section \<open>Properties\<close>

text \<open>C5: One acknowledgement on a Shared cursor keeps the cursor well-formed,
  acknowledges exactly that entry in addition, never moves the mark-delete frontier back, and
  replies with the new frontier and the number of stored ranges.\<close>

theorem ack_shared_correct:
  assumes "cursor_wf c" "ack_shared c e = (r, c')"
  shows "cursor_wf c' \<and>
    (\<forall>k. is_message_acknowledged (Some c') k = (k = e \<or> is_message_acknowledged (Some c) k)) \<and>
    (\<forall>md. mark_delete c = Some md \<longrightarrow> (\<exists>md' \<ge> md. mark_delete c' = Some md')) \<and>
    r = (mark_delete c', rs_len (acked_holes c'))"
proof -
  note spec = ack_shared_spec [OF assms]
  have "\<forall>k. is_message_acknowledged (Some c') k = (k = e \<or> is_message_acknowledged (Some c) k)"
    using spec(2) unfolding acked_def by blast
  moreover have "\<exists>md' \<ge> md. mark_delete c' = Some md'" if "mark_delete c = Some md" for md
  proof -
    have "{..md} \<subseteq> acked c" using acked_prefix_iff [OF assms(1), of md] that by simp
    then have "{..md} \<subseteq> acked c'" using spec(2) by auto
    with acked_prefix_iff [OF spec(1), of md] show ?thesis by auto
  qed
  ultimately show ?thesis using spec by simp
qed

theorem ack_shared_correct_witness:
  "is_message_acknowledged (Some (snd (ack_shared (snd (ack_shared SubscriptionCursor_default 3)) 0))) 3"
proof -
  obtain r c where 1: "ack_shared SubscriptionCursor_default 3 = (r, c)" by fastforce
  from ack_shared_correct [OF cursor_wf_default 1] have c: "cursor_wf c" "is_message_acknowledged (Some c) 3"
    by auto
  obtain r' c' where 2: "ack_shared c 0 = (r', c')" by fastforce
  from ack_shared_correct [OF c(1) 2] c(2) 1 2 show ?thesis by simp
qed

text \<open>C7: After any sequence of acknowledgements on a fresh Shared cursor, an entry is
  reported acknowledged exactly if it occurs in the sequence, and the frontier is exact: an entry
  is at or below it if and only if all entries up to it were acknowledged.\<close>

theorem ack_all_frontier:
  "let c = ack_all SubscriptionCursor_default es in
   (\<forall>e. is_message_acknowledged (Some c) e = (e \<in> set es)) \<and>
   (\<forall>e. (\<exists>md. mark_delete c = Some md \<and> e \<le> md) = ({..e} \<subseteq> set es))"
proof -
  let ?c = "ack_all SubscriptionCursor_default es"
  have wf: "cursor_wf ?c" and eq: "acked ?c = set es"
    using ack_all_spec [OF cursor_wf_default, of es] by auto
  have "\<forall>e. is_message_acknowledged (Some ?c) e = (e \<in> set es)"
    using eq unfolding acked_def by blast
  with acked_prefix_iff [OF wf] eq show ?thesis by (simp add: Let_def)
qed

text \<open>C8: The state of a Shared cursor depends only on which entries were
  acknowledged: sequences with the same elements, in any order and with any repetition, leave
  the same frontier and the same stored ranges.\<close>

theorem ack_all_order_independent:
  assumes "set es = set es'"
  shows "ack_all SubscriptionCursor_default es = ack_all SubscriptionCursor_default es'"
  using assms ack_all_spec [OF cursor_wf_default, of es] ack_all_spec [OF cursor_wf_default, of es']
  by (intro cursor_canonical) auto

theorem ack_all_order_independent_witness:
  "ack_all SubscriptionCursor_default [2, 0, 5, 1] = ack_all SubscriptionCursor_default [5, 2, 1, 0, 1]"
  by (rule ack_all_order_independent) auto

end
