(* ===== verification/PL_Storage.thy ===== *)
theory PL_Storage
  imports PL_SubscriptionCursor
begin

text \<open>
  The storage trait the broker is written against (\<open>managed-ledger/src/legacy_storage.rs\<close>).
  A \<open>dyn ManagedLedgerStorage\<close> is a record of operations over a state of type \<open>'s\<close>; an
  operation that takes \<open>&mut self\<close> returns the new state next to its result. What the readers
  of a topic rely on is the locale \<open>storage_reads\<close> at the end of this theory.
\<close>

section \<open>The trait\<close>

record 's ManagedLedgerStorage =
  create_topic :: "'s \<Rightarrow> string \<Rightarrow> unit result \<times> 's"
  append_message :: "'s \<Rightarrow> string \<Rightarrow> i32 \<Rightarrow> bytes \<Rightarrow> MessageId result \<times> 's"
  append_message_with_metadata :: "'s \<Rightarrow> string \<Rightarrow> i32 \<Rightarrow> bytes \<Rightarrow> bytes \<Rightarrow> MessageId result \<times> 's"
  initialize_or_open_cursor ::
    "'s \<Rightarrow> string \<Rightarrow> string \<Rightarrow> CursorInitOptions \<Rightarrow> CursorOpenResult result \<times> 's"
  delete_cursor :: "'s \<Rightarrow> string \<Rightarrow> string \<Rightarrow> unit result \<times> 's"
  seek_cursor :: "'s \<Rightarrow> string \<Rightarrow> string \<Rightarrow> MessageId \<Rightarrow> bool \<Rightarrow> unit result \<times> 's"
  first_unacked_position :: "'s \<Rightarrow> string \<Rightarrow> string \<Rightarrow> ManagedLedgerPosition option result"
  read_from :: "'s \<Rightarrow> string \<Rightarrow> ManagedLedgerPosition \<Rightarrow> usize \<Rightarrow> (MessageId \<times> bytes) list result"
  read_entries_from :: "'s \<Rightarrow> string \<Rightarrow> ManagedLedgerPosition \<Rightarrow> usize \<Rightarrow> StoredMessage list result"
  get_last_position :: "'s \<Rightarrow> string \<Rightarrow> ManagedLedgerPosition option result"
  get_next_position :: "'s \<Rightarrow> string \<Rightarrow> ManagedLedgerPosition \<Rightarrow> ManagedLedgerPosition option result"
  is_acknowledged :: "'s \<Rightarrow> string \<Rightarrow> string \<Rightarrow> MessageId \<Rightarrow> bool result"
  ack_message :: "'s \<Rightarrow> string \<Rightarrow> string \<Rightarrow> MessageId \<Rightarrow> unit result \<times> 's"
  ack_message_shared :: "'s \<Rightarrow> string \<Rightarrow> string \<Rightarrow> MessageId \<Rightarrow> unit result \<times> 's"
  get_message_by_id :: "'s \<Rightarrow> string \<Rightarrow> MessageId \<Rightarrow> (MessageId \<times> bytes) option"
  get_message_entry_by_id :: "'s \<Rightarrow> string \<Rightarrow> MessageId \<Rightarrow> StoredMessage option"
  get_messages :: "'s \<Rightarrow> string \<Rightarrow> (MessageId \<times> bytes) list"
  get_message_entries :: "'s \<Rightarrow> string \<Rightarrow> StoredMessage list"
  is_acknowledged_shared :: "'s \<Rightarrow> string \<Rightarrow> string \<Rightarrow> MessageId \<Rightarrow> bool"
  get_mark_delete_position :: "'s \<Rightarrow> string \<Rightarrow> string \<Rightarrow> u64 option"
  backlog_entries :: "'s \<Rightarrow> string \<Rightarrow> string \<Rightarrow> u64 option"
  stored_bytes :: "'s \<Rightarrow> string \<Rightarrow> u64"

text \<open>The provided methods of the trait, over the required ones.\<close>

definition default_append_message_with_metadata ::
    "'s ManagedLedgerStorage \<Rightarrow> 's \<Rightarrow> string \<Rightarrow> i32 \<Rightarrow> bytes \<Rightarrow> bytes \<Rightarrow> MessageId result \<times> 's" where
  "default_append_message_with_metadata st s topic part md pl = append_message st s topic part pl"

definition default_read_entries_from ::
    "'s ManagedLedgerStorage \<Rightarrow> 's \<Rightarrow> string \<Rightarrow> ManagedLedgerPosition \<Rightarrow> usize
     \<Rightarrow> StoredMessage list result" where
  "default_read_entries_from st s topic start limit =
     and_then (read_from st s topic start limit)
       (\<lambda>ms. Inr (map (\<lambda>(mid, pl). StoredMessage_from_payload mid pl) ms))"

definition default_get_message_entry_by_id ::
    "'s ManagedLedgerStorage \<Rightarrow> 's \<Rightarrow> string \<Rightarrow> MessageId \<Rightarrow> StoredMessage option" where
  "default_get_message_entry_by_id st s topic mid =
     map_option (\<lambda>(mid, pl). StoredMessage_from_payload mid pl) (get_message_by_id st s topic mid)"

definition default_get_message_entries ::
    "'s ManagedLedgerStorage \<Rightarrow> 's \<Rightarrow> string \<Rightarrow> StoredMessage list" where
  "default_get_message_entries st s topic =
     map (\<lambda>(mid, pl). StoredMessage_from_payload mid pl) (get_messages st s topic)"

section \<open>Arithmetic of the counters\<close>

definition u64_saturating_sub :: "u64 \<Rightarrow> u64 \<Rightarrow> u64" where
  "u64_saturating_sub a b = (if b \<le> a then a - b else 0)"

lemma uint_u64_saturating_sub: "uint (u64_saturating_sub a b) = max 0 (uint a - uint b)"
  by (cases "uint b \<le> uint a")
     (auto simp: u64_saturating_sub_def word_le_def uint_sub_lem [THEN iffD1])

section \<open>What the readers of a topic rely on\<close>

text \<open>
  \<open>inv\<close> is the provider's invariant, \<open>log\<close> the retained entries of a topic in order and
  \<open>ackd\<close> the acknowledgement state of a subscription.
\<close>

definition id_key :: "MessageId \<Rightarrow> u64 \<times> u64" where
  "id_key m = (ledger m, entry m)"

definition pos_key :: "ManagedLedgerPosition \<Rightarrow> u64 \<times> u64" where
  "pos_key p = (ledger_id p, entry_id p)"

lemma position_at_or_after_key:
  "position_at_or_after c p \<longleftrightarrow> pos_key p \<le> pos_key c"
  by (simp add: position_at_or_after_def pos_key_def)

lemma pos_key_position_of [simp]: "pos_key (position_of m) = id_key m"
  by (simp add: pos_key_def id_key_def)

text \<open>The position reported after \<open>m\<close>, with the fallback of the readers.\<close>

definition logical_next :: "MessageId \<Rightarrow> ManagedLedgerPosition" where
  "logical_next m = ManagedLedgerPosition (ledger m) (entry m + 1) (partition m)"

locale storage_reads =
  fixes st :: "'s ManagedLedgerStorage"
    and inv :: "'s \<Rightarrow> bool"
    and log :: "'s \<Rightarrow> string \<Rightarrow> StoredMessage list"
    and ackd :: "'s \<Rightarrow> string \<Rightarrow> string \<Rightarrow> MessageId \<Rightarrow> bool"
  assumes log_sorted: "inv s \<Longrightarrow> sorted_wrt (<) (map (\<lambda>m. id_key (sm_message_id m)) (log s topic))"
    and first_unacked_law: "inv s \<Longrightarrow> first_unacked_position st s topic sub =
        Inr (map_option (\<lambda>m. position_of (sm_message_id m))
               (find (\<lambda>m. \<not> ackd s topic sub (sm_message_id m)) (log s topic)))"
    and read_law: "inv s \<Longrightarrow> read_entries_from st s topic p 1 =
        Inr (take 1 (filter (\<lambda>m. position_at_or_after (position_of (sm_message_id m)) p) (log s topic)))"
    and next_law: "inv s \<Longrightarrow> m \<in> set (log s topic) \<Longrightarrow>
        \<exists>r. get_next_position st s topic (position_of (sm_message_id m)) = Inr r \<and>
          (\<forall>m' \<in> set (log s topic).
             pos_key (case r of Some p \<Rightarrow> p | None \<Rightarrow> logical_next (sm_message_id m)) \<le> id_key (sm_message_id m')
             \<longleftrightarrow> id_key (sm_message_id m) < id_key (sm_message_id m'))"
    and acked_law: "inv s \<Longrightarrow> is_acknowledged st s topic sub mid = Inr (ackd s topic sub mid)"

text \<open>A lookup by id finds the entry of the log.\<close>

locale storage_entries = storage_reads +
  assumes entry_law: "inv s \<Longrightarrow> get_message_entry_by_id st s topic mid = find (\<lambda>m. sm_message_id m = mid) (log s topic)"
begin

lemma entry_id: "inv s \<Longrightarrow> get_message_entry_by_id st s topic mid = Some m \<Longrightarrow> sm_message_id m = mid \<and> m \<in> set (log s topic)"
  by (auto simp: entry_law find_Some_iff)

end

end
