(* ===== verification/PL_MemoryStorage.thy ===== *)
theory PL_MemoryStorage
  imports PL_Storage
begin

text \<open>
  The in-memory storage (\<open>managed-ledger/src/memory.rs\<close>): one ledger per topic, a plain
  frontier per Exclusive/Failover cursor and a \<open>SubscriptionCursor\<close> per Shared cursor.
  Method names carry the prefix \<open>mem_\<close>; \<open>mem_storage\<close> is the trait implementation.
\<close>

section \<open>Ledgers and the factory\<close>

record InMemoryManagedLedger =
  ml_name :: string
  ml_ledger_id :: u64
  ml_entries :: "(MessageId \<times> bytes) list"

record InMemoryManagedLedgerFactory =
  ledgers :: "string \<rightharpoonup> InMemoryManagedLedger"
  next_ledger_id :: u64

definition InMemoryManagedLedger_new :: "string \<Rightarrow> u64 \<Rightarrow> InMemoryManagedLedger" where
  "InMemoryManagedLedger_new name lid = \<lparr>ml_name = name, ml_ledger_id = lid, ml_entries = []\<rparr>"

definition InMemoryManagedLedgerFactory_new :: InMemoryManagedLedgerFactory where
  "InMemoryManagedLedgerFactory_new = \<lparr>ledgers = Map.empty, next_ledger_id = 0\<rparr>"

definition add_entry_in_place ::
    "InMemoryManagedLedger \<Rightarrow> i32 \<Rightarrow> bytes \<Rightarrow> MessageId \<times> InMemoryManagedLedger" where
  "add_entry_in_place l part pl =
     (let mid = MessageId (ml_ledger_id l) (of_nat (length (ml_entries l))) part
      in (mid, l\<lparr>ml_entries := ml_entries l @ [(mid, pl)]\<rparr>))"

definition mem_add_entry ::
    "InMemoryManagedLedger \<Rightarrow> bytes \<Rightarrow> ManagedLedgerPosition result \<times> InMemoryManagedLedger" where
  "mem_add_entry l pl =
     (case add_entry_in_place l (-1) pl of (mid, l') \<Rightarrow> (Inr (position_of mid), l'))"

definition mem_read_entry :: "InMemoryManagedLedger \<Rightarrow> ManagedLedgerPosition \<Rightarrow> bytes option" where
  "mem_read_entry l p =
     map_option snd (find (\<lambda>(mid, _). ledger mid = ledger_id p \<and> entry mid = entry_id p) (ml_entries l))"

definition ensure_ledger ::
    "InMemoryManagedLedgerFactory \<Rightarrow> string \<Rightarrow> InMemoryManagedLedger \<times> InMemoryManagedLedgerFactory" where
  "ensure_ledger f name =
     (case ledgers f name of
        Some l \<Rightarrow> (l, f)
      | None \<Rightarrow>
          let l = InMemoryManagedLedger_new name (next_ledger_id f)
          in (l, f\<lparr>ledgers := (ledgers f)(name \<mapsto> l), next_ledger_id := next_ledger_id f + 1\<rparr>))"

definition append_entry ::
    "InMemoryManagedLedgerFactory \<Rightarrow> string \<Rightarrow> i32 \<Rightarrow> bytes \<Rightarrow> MessageId \<times> InMemoryManagedLedgerFactory" where
  "append_entry f topic part pl =
     (case ensure_ledger f topic of (l, f') \<Rightarrow>
        case add_entry_in_place l part pl of (mid, l') \<Rightarrow>
          (mid, f'\<lparr>ledgers := (ledgers f')(topic \<mapsto> l')\<rparr>))"

definition factory_messages :: "InMemoryManagedLedgerFactory \<Rightarrow> string \<Rightarrow> (MessageId \<times> bytes) list option" where
  "factory_messages f topic = map_option ml_entries (ledgers f topic)"

definition factory_get_message_by_id ::
    "InMemoryManagedLedgerFactory \<Rightarrow> string \<Rightarrow> MessageId \<Rightarrow> (MessageId \<times> bytes) option" where
  "factory_get_message_by_id f topic mid =
     (case factory_messages f topic of
        None \<Rightarrow> None
      | Some msgs \<Rightarrow>
          if unat (entry mid) < length msgs \<and> fst (msgs ! unat (entry mid)) = mid
          then Some (msgs ! unat (entry mid))
          else find (\<lambda>(stored_id, _). stored_id = mid) msgs)"

definition factory_open ::
    "InMemoryManagedLedgerFactory \<Rightarrow> string \<Rightarrow> InMemoryManagedLedger result \<times> InMemoryManagedLedgerFactory" where
  "factory_open f name = (case ensure_ledger f name of (l, f') \<Rightarrow> (Inr l, f'))"

section \<open>Cursors of the in-memory ledger\<close>

record InMemoryManagedCursor =
  mc_name :: string
  mc_state :: ManagedCursorState

definition InMemoryManagedCursor_new :: "string \<Rightarrow> InMemoryManagedCursor" where
  "InMemoryManagedCursor_new name = \<lparr>mc_name = name, mc_state = ManagedCursorState_default\<rparr>"

definition mem_cursor_mark_delete ::
    "InMemoryManagedCursor \<Rightarrow> ManagedLedgerPosition \<Rightarrow> unit result \<times> InMemoryManagedCursor" where
  "mem_cursor_mark_delete c p =
     (Inr (), c\<lparr>mc_state := (mc_state c)\<lparr>mcs_mark_delete := Some p\<rparr>\<rparr>)"

definition mem_cursor_delete_individual ::
    "InMemoryManagedCursor \<Rightarrow> ManagedLedgerPosition \<Rightarrow> unit result \<times> InMemoryManagedCursor" where
  "mem_cursor_delete_individual c p =
     (Inr (), c\<lparr>mc_state := (mc_state c)\<lparr>individually_deleted_entries :=
        rs_insert succ_position (individually_deleted_entries (mc_state c)) p\<rparr>\<rparr>)"

definition mem_cursor_reset_cursor ::
    "InMemoryManagedCursor \<Rightarrow> ManagedLedgerPosition option \<Rightarrow> unit result \<times> InMemoryManagedCursor" where
  "mem_cursor_reset_cursor c p =
     (Inr (), c\<lparr>mc_state := (mc_state c)\<lparr>mcs_mark_delete := p, individually_deleted_entries :=
        rs_clear (individually_deleted_entries (mc_state c))\<rparr>\<rparr>)"

section \<open>The storage\<close>

record InMemoryManagedLedgerStorage =
  mem_factory :: InMemoryManagedLedgerFactory
  cursors :: "string \<rightharpoonup> u64"
  subscription_cursors :: "string \<rightharpoonup> SubscriptionCursor"
  entry_metadata :: "MessageId \<rightharpoonup> bytes"

type_synonym mem = InMemoryManagedLedgerStorage

definition mem_new :: mem where
  "mem_new = \<lparr>mem_factory = InMemoryManagedLedgerFactory_new, cursors = Map.empty,
     subscription_cursors = Map.empty, entry_metadata = Map.empty\<rparr>"

definition mem_cursor_exists :: "mem \<Rightarrow> string \<Rightarrow> bool" where
  "mem_cursor_exists s key \<longleftrightarrow> cursors s key \<noteq> None \<or> subscription_cursors s key \<noteq> None"

definition mem_messages :: "mem \<Rightarrow> string \<Rightarrow> (MessageId \<times> bytes) list" where
  "mem_messages s topic = (case factory_messages (mem_factory s) topic of Some m \<Rightarrow> m | None \<Rightarrow> [])"

definition mem_stored_message :: "mem \<Rightarrow> MessageId \<Rightarrow> bytes \<Rightarrow> StoredMessage" where
  "mem_stored_message s mid pl =
     StoredMessage_new mid (case entry_metadata s mid of Some md \<Rightarrow> md | None \<Rightarrow> []) pl"

definition is_acknowledged_inner :: "mem \<Rightarrow> string \<Rightarrow> string \<Rightarrow> MessageId \<Rightarrow> bool" where
  "is_acknowledged_inner s topic sub mid =
     (let key = cursor_subscription_key topic sub in
      case subscription_cursors s key of
        Some shared \<Rightarrow> is_message_acknowledged (Some shared) (entry mid)
      | None \<Rightarrow>
          let md = (case cursors s key of Some m \<Rightarrow> m | None \<Rightarrow> u64_MAX)
          in md \<noteq> u64_MAX \<and> entry mid \<le> md)"

definition ensure_exclusive_cursor :: "mem \<Rightarrow> string \<Rightarrow> mem" where
  "ensure_exclusive_cursor s key =
     (case cursors s key of
        Some _ \<Rightarrow> s
      | None \<Rightarrow> s\<lparr>cursors := (cursors s)(key \<mapsto> u64_MAX)\<rparr>)"

definition apply_latest_exclusive :: "mem \<Rightarrow> string \<Rightarrow> string \<Rightarrow> mem" where
  "apply_latest_exclusive s key topic =
     (case last_position_from_messages (mem_messages s topic) of
        Some lst \<Rightarrow> s\<lparr>cursors := (cursors s)(key \<mapsto> entry_id lst)\<rparr>
      | None \<Rightarrow> ensure_exclusive_cursor s key)"

definition apply_start_message_id_exclusive :: "mem \<Rightarrow> string \<Rightarrow> MessageId \<Rightarrow> mem" where
  "apply_start_message_id_exclusive s key start =
     (if 0 < entry start then s\<lparr>cursors := (cursors s)(key \<mapsto> entry start - 1)\<rparr>
      else ensure_exclusive_cursor s key)"

section \<open>The trait methods\<close>

definition mem_create_topic :: "mem \<Rightarrow> string \<Rightarrow> unit result \<times> mem" where
  "mem_create_topic s name =
     (case ensure_ledger (mem_factory s) name of (_, f) \<Rightarrow> (Inr (), s\<lparr>mem_factory := f\<rparr>))"

definition mem_append_message :: "mem \<Rightarrow> string \<Rightarrow> i32 \<Rightarrow> bytes \<Rightarrow> MessageId result \<times> mem" where
  "mem_append_message s topic part pl =
     (case append_entry (mem_factory s) topic part pl of (mid, f) \<Rightarrow> (Inr mid, s\<lparr>mem_factory := f\<rparr>))"

definition mem_append_message_with_metadata ::
    "mem \<Rightarrow> string \<Rightarrow> i32 \<Rightarrow> bytes \<Rightarrow> bytes \<Rightarrow> MessageId result \<times> mem" where
  "mem_append_message_with_metadata s topic part md pl =
     (case append_entry (mem_factory s) topic part pl of (mid, f) \<Rightarrow>
        let s' = s\<lparr>mem_factory := f\<rparr> in
        (Inr mid, if md \<noteq> [] then s'\<lparr>entry_metadata := (entry_metadata s')(mid \<mapsto> md)\<rparr> else s'))"

definition mem_first_unacked_position ::
    "mem \<Rightarrow> string \<Rightarrow> string \<Rightarrow> ManagedLedgerPosition option result" where
  "mem_first_unacked_position s topic sub =
     Inr (first_unacked_from_messages (mem_messages s topic) (is_acknowledged_inner s topic sub))"

definition mem_initialize_or_open_cursor ::
    "mem \<Rightarrow> string \<Rightarrow> string \<Rightarrow> CursorInitOptions \<Rightarrow> CursorOpenResult result \<times> mem" where
  "mem_initialize_or_open_cursor s topic sub options =
     (let key = cursor_subscription_key topic sub in
      if mem_cursor_exists s key
      then (and_then (mem_first_unacked_position s topic sub)
              (\<lambda>fu. Inr \<lparr>created = False, first_unacked = fu\<rparr>), s)
      else
        let s' =
          (case start_message_id options of
             Some start_id \<Rightarrow> apply_start_message_id_exclusive s key start_id
           | None \<Rightarrow>
               if initial_position options = Latest then apply_latest_exclusive s key topic
               else ensure_exclusive_cursor s key)
        in (and_then (mem_first_unacked_position s' topic sub)
              (\<lambda>fu. Inr \<lparr>created = True, first_unacked = fu\<rparr>), s'))"

definition mem_delete_cursor :: "mem \<Rightarrow> string \<Rightarrow> string \<Rightarrow> unit result \<times> mem" where
  "mem_delete_cursor s topic sub =
     (let key = cursor_subscription_key topic sub in
      (Inr (), s\<lparr>cursors := (cursors s)(key := None),
        subscription_cursors := (subscription_cursors s)(key := None)\<rparr>))"

definition mem_seek_cursor ::
    "mem \<Rightarrow> string \<Rightarrow> string \<Rightarrow> MessageId \<Rightarrow> bool \<Rightarrow> unit result \<times> mem" where
  "mem_seek_cursor s topic sub mid shared =
     (let key = cursor_subscription_key topic sub;
          target = position_of mid;
          before = takeWhile (\<lambda>p. p < target)
            (map (\<lambda>(stored_id, _). position_of stored_id) (mem_messages s topic));
          previous = (if before = [] then None else Some (last before))
      in
      if shared
      then (Inr (), s\<lparr>cursors := (cursors s)(key := None),
              subscription_cursors := (subscription_cursors s)
                (key \<mapsto> \<lparr>mark_delete = map_option entry_id previous, acked_holes = rs_new\<rparr>)\<rparr>)
      else (Inr (), s\<lparr>subscription_cursors := (subscription_cursors s)(key := None),
              cursors := (cursors s)
                (key \<mapsto> (case previous of None \<Rightarrow> u64_MAX | Some p \<Rightarrow> entry_id p))\<rparr>))"

definition mem_read_from ::
    "mem \<Rightarrow> string \<Rightarrow> ManagedLedgerPosition \<Rightarrow> usize \<Rightarrow> (MessageId \<times> bytes) list result" where
  "mem_read_from s topic start limit = Inr (read_from_messages (mem_messages s topic) start limit)"

definition mem_read_entries_from ::
    "mem \<Rightarrow> string \<Rightarrow> ManagedLedgerPosition \<Rightarrow> usize \<Rightarrow> StoredMessage list result" where
  "mem_read_entries_from s topic start limit =
     and_then (mem_read_from s topic start limit)
       (\<lambda>ms. Inr (map (\<lambda>(mid, pl). mem_stored_message s mid pl) ms))"

definition mem_get_last_position :: "mem \<Rightarrow> string \<Rightarrow> ManagedLedgerPosition option result" where
  "mem_get_last_position s topic = Inr (last_position_from_messages (mem_messages s topic))"

definition mem_get_next_position ::
    "mem \<Rightarrow> string \<Rightarrow> ManagedLedgerPosition \<Rightarrow> ManagedLedgerPosition option result" where
  "mem_get_next_position s topic current = Inr (next_position_single_ledger current)"

definition mem_is_acknowledged :: "mem \<Rightarrow> string \<Rightarrow> string \<Rightarrow> MessageId \<Rightarrow> bool result" where
  "mem_is_acknowledged s topic sub mid = Inr (is_acknowledged_inner s topic sub mid)"

definition mem_ack_message :: "mem \<Rightarrow> string \<Rightarrow> string \<Rightarrow> MessageId \<Rightarrow> unit result \<times> mem" where
  "mem_ack_message s topic sub mid =
     (let key = cursor_subscription_key topic sub in
      (Inr (), s\<lparr>cursors := (cursors s)(key \<mapsto> entry mid)\<rparr>))"

definition mem_ack_message_shared :: "mem \<Rightarrow> string \<Rightarrow> string \<Rightarrow> MessageId \<Rightarrow> unit result \<times> mem" where
  "mem_ack_message_shared s topic sub mid =
     (let key = cursor_subscription_key topic sub;
          c = (case subscription_cursors s key of
                 Some c \<Rightarrow> c | None \<Rightarrow> SubscriptionCursor_default);
          (_, c') = ack_shared c (entry mid)
      in (Inr (), s\<lparr>subscription_cursors := (subscription_cursors s)(key \<mapsto> c')\<rparr>))"

definition mem_get_message_by_id :: "mem \<Rightarrow> string \<Rightarrow> MessageId \<Rightarrow> (MessageId \<times> bytes) option" where
  "mem_get_message_by_id s topic mid = factory_get_message_by_id (mem_factory s) topic mid"

definition mem_get_message_entry_by_id :: "mem \<Rightarrow> string \<Rightarrow> MessageId \<Rightarrow> StoredMessage option" where
  "mem_get_message_entry_by_id s topic mid =
     map_option (\<lambda>(mid, pl). mem_stored_message s mid pl) (mem_get_message_by_id s topic mid)"

definition mem_get_messages :: "mem \<Rightarrow> string \<Rightarrow> (MessageId \<times> bytes) list" where
  "mem_get_messages s topic =
     (case factory_messages (mem_factory s) topic of Some m \<Rightarrow> m | None \<Rightarrow> [])"

definition mem_get_message_entries :: "mem \<Rightarrow> string \<Rightarrow> StoredMessage list" where
  "mem_get_message_entries s topic =
     map (\<lambda>(mid, pl). mem_stored_message s mid pl) (mem_get_messages s topic)"

definition mem_is_acknowledged_shared :: "mem \<Rightarrow> string \<Rightarrow> string \<Rightarrow> MessageId \<Rightarrow> bool" where
  "mem_is_acknowledged_shared s topic sub mid =
     is_message_acknowledged (subscription_cursors s (cursor_subscription_key topic sub)) (entry mid)"

definition mem_get_mark_delete_position :: "mem \<Rightarrow> string \<Rightarrow> string \<Rightarrow> u64 option" where
  "mem_get_mark_delete_position s topic sub =
     (case subscription_cursors s (cursor_subscription_key topic sub) of
        None \<Rightarrow> None | Some c \<Rightarrow> mark_delete c)"

definition mem_backlog_entries :: "mem \<Rightarrow> string \<Rightarrow> string \<Rightarrow> u64 option" where
  "mem_backlog_entries s topic sub =
     (let key = cursor_subscription_key topic sub;
          total = of_nat (length (mem_messages s topic))
      in case subscription_cursors s key of
           Some c \<Rightarrow>
             (let ackd = (case mark_delete c of None \<Rightarrow> 0 | Some mark \<Rightarrow> mark + 1)
              in Some (u64_saturating_sub total ackd))
         | None \<Rightarrow>
             (case cursors s key of
                Some mark \<Rightarrow>
                  if mark \<noteq> u64_MAX then Some (u64_saturating_sub total (mark + 1)) else Some total
              | None \<Rightarrow> Some total))"

definition mem_stored_bytes :: "mem \<Rightarrow> string \<Rightarrow> u64" where
  "mem_stored_bytes s topic =
     of_nat (sum_list (map (\<lambda>(mid, pl).
       (case entry_metadata s mid of Some md \<Rightarrow> length md | None \<Rightarrow> 0) + length pl) (mem_messages s topic)))"

definition mem_storage :: "mem ManagedLedgerStorage" where
  "mem_storage = \<lparr>create_topic = mem_create_topic, append_message = mem_append_message,
     append_message_with_metadata = mem_append_message_with_metadata,
     initialize_or_open_cursor = mem_initialize_or_open_cursor, delete_cursor = mem_delete_cursor,
     seek_cursor = mem_seek_cursor, first_unacked_position = mem_first_unacked_position,
     read_from = mem_read_from, read_entries_from = mem_read_entries_from,
     get_last_position = mem_get_last_position, get_next_position = mem_get_next_position,
     is_acknowledged = mem_is_acknowledged, ack_message = mem_ack_message,
     ack_message_shared = mem_ack_message_shared, get_message_by_id = mem_get_message_by_id,
     get_message_entry_by_id = mem_get_message_entry_by_id, get_messages = mem_get_messages,
     get_message_entries = mem_get_message_entries,
     is_acknowledged_shared = mem_is_acknowledged_shared,
     get_mark_delete_position = mem_get_mark_delete_position,
     backlog_entries = mem_backlog_entries, stored_bytes = mem_stored_bytes\<rparr>"

declare mem_new_def [eval_simps] InMemoryManagedLedgerFactory_new_def [eval_simps]
  InMemoryManagedLedger_new_def [eval_simps] add_entry_in_place_def [eval_simps]
  ensure_ledger_def [eval_simps] append_entry_def [eval_simps] factory_messages_def [eval_simps]
  mem_messages_def [eval_simps] mem_append_message_def [eval_simps]
  mem_append_message_with_metadata_def [eval_simps] mem_create_topic_def [eval_simps]
  is_acknowledged_inner_def [eval_simps] cursor_subscription_key_def [eval_simps]
  mem_ack_message_def [eval_simps] mem_ack_message_shared_def [eval_simps]
  mem_is_acknowledged_def [eval_simps] mem_first_unacked_position_def [eval_simps]
  mem_initialize_or_open_cursor_def [eval_simps] mem_cursor_exists_def [eval_simps]
  apply_latest_exclusive_def [eval_simps] apply_start_message_id_exclusive_def [eval_simps]
  ensure_exclusive_cursor_def [eval_simps] last_position_from_messages_def [eval_simps]
  mem_seek_cursor_def [eval_simps] position_of_def [eval_simps] mem_backlog_entries_def [eval_simps]
  u64_saturating_sub_def [eval_simps]

section \<open>Invariant\<close>

text \<open>The i-th entry of a ledger has that ledger's id and entry id \<open>i\<close>.\<close>

definition ids_ok :: "u64 \<Rightarrow> (MessageId \<times> bytes) list \<Rightarrow> bool" where
  "ids_ok lid msgs \<longleftrightarrow> length msgs < u64_cap \<and>
     (\<forall>i < length msgs. ledger (fst (msgs ! i)) = lid \<and> entry (fst (msgs ! i)) = of_nat i)"

definition factory_wf :: "InMemoryManagedLedgerFactory \<Rightarrow> bool" where
  "factory_wf f \<longleftrightarrow>
     (\<forall>topic l. ledgers f topic = Some l \<longrightarrow>
        ids_ok (ml_ledger_id l) (ml_entries l) \<and> ml_ledger_id l < next_ledger_id f) \<and>
     (\<forall>t t' l l'. ledgers f t = Some l \<longrightarrow> ledgers f t' = Some l' \<longrightarrow>
        ml_ledger_id l = ml_ledger_id l' \<longrightarrow> t = t')"

definition mem_wf :: "mem \<Rightarrow> bool" where
  "mem_wf s \<longleftrightarrow> factory_wf (mem_factory s) \<and>
     (\<forall>key c. subscription_cursors s key = Some c \<longrightarrow> cursor_wf c) \<and>
     (\<forall>mid \<in> dom (entry_metadata s). \<exists>topic. mid \<in> fst ` set (mem_messages s topic))"

text \<open>Neither the ledger ids nor the entry ids of the topic are exhausted.\<close>

definition mem_room :: "mem \<Rightarrow> string \<Rightarrow> bool" where
  "mem_room s topic \<longleftrightarrow> Suc (length (mem_messages s topic)) < u64_cap \<and>
     next_ledger_id (mem_factory s) \<noteq> u64_MAX"

lemma ids_ok_Nil [simp]: "ids_ok lid []"
  by (simp add: ids_ok_def u64_cap_def)

lemma ids_ok_snoc:
  "ids_ok lid msgs \<Longrightarrow> Suc (length msgs) < u64_cap \<Longrightarrow>
   ids_ok lid (msgs @ [(MessageId lid (of_nat (length msgs)) part, pl)])"
  by (auto simp: ids_ok_def nth_append less_Suc_eq)

lemma ids_ok_nth:
  "ids_ok lid msgs \<Longrightarrow> i < length msgs \<Longrightarrow> ledger (fst (msgs ! i)) = lid \<and> entry (fst (msgs ! i)) = of_nat i"
  by (simp add: ids_ok_def)

lemma ids_ok_length: "ids_ok lid msgs \<Longrightarrow> length msgs < u64_cap"
  by (simp add: ids_ok_def)

lemma factory_wf_new [simp]: "factory_wf InMemoryManagedLedgerFactory_new"
  by (simp add: factory_wf_def InMemoryManagedLedgerFactory_new_def)

lemma factory_wf_ids: "factory_wf f \<Longrightarrow> ledgers f t = Some l \<Longrightarrow> ids_ok (ml_ledger_id l) (ml_entries l)"
  by (simp add: factory_wf_def)

lemma factory_wf_ensure:
  assumes "factory_wf f" "next_ledger_id f \<noteq> u64_MAX" "ensure_ledger f t = (l, f')"
  shows "factory_wf f' \<and> ledgers f' t = Some l \<and> factory_messages f' t = Some (ml_entries l) \<and>
    ml_entries l = (case factory_messages f t of Some m \<Rightarrow> m | None \<Rightarrow> []) \<and>
    (\<forall>t'. t' \<noteq> t \<longrightarrow> ledgers f' t' = ledgers f t')"
proof (cases "ledgers f t")
  case None
  have lt: "next_ledger_id f < next_ledger_id f + 1" using assms(2) by (rule word_less_Suc_iff)
  have old: "ml_ledger_id l' < next_ledger_id f" if "ledgers f t' = Some l'" for t' l'
    using assms(1) that by (auto simp: factory_wf_def)
  have "factory_wf (f\<lparr>ledgers := (ledgers f)(t \<mapsto> l), next_ledger_id := next_ledger_id f + 1\<rparr>)"
    if "l = InMemoryManagedLedger_new t (next_ledger_id f)"
    using assms(1) that lt by (auto simp: factory_wf_def InMemoryManagedLedger_new_def dest: old)
  with None assms(3) show ?thesis
    by (auto simp: ensure_ledger_def factory_messages_def Let_def InMemoryManagedLedger_new_def)
qed (use assms in \<open>auto simp: ensure_ledger_def factory_messages_def\<close>)

text \<open>Appending: the message gets the next entry id of its topic; other topics keep theirs.\<close>

lemma append_entry_spec:
  assumes wf: "factory_wf f" and room: "next_ledger_id f \<noteq> u64_MAX"
    and len: "Suc (length (case factory_messages f t of Some m \<Rightarrow> m | None \<Rightarrow> [])) < u64_cap"
    and app: "append_entry f t part pl = (mid, f')"
  shows "factory_wf f' \<and> entry mid = of_nat (length (case factory_messages f t of Some m \<Rightarrow> m | None \<Rightarrow> [])) \<and>
    partition mid = part \<and>
    factory_messages f' t = Some ((case factory_messages f t of Some m \<Rightarrow> m | None \<Rightarrow> []) @ [(mid, pl)]) \<and>
    (\<forall>t'. t' \<noteq> t \<longrightarrow> ledgers f' t' = ledgers f t') \<and>
    (\<exists>l. ledgers f' t = Some l \<and> ledger mid = ml_ledger_id l)"
proof -
  obtain l f1 where ens: "ensure_ledger f t = (l, f1)" by fastforce
  note e = factory_wf_ensure [OF wf room ens]
  define l' where "l' = l\<lparr>ml_entries := ml_entries l @ [(mid, pl)]\<rparr>"
  have mid: "mid = MessageId (ml_ledger_id l) (of_nat (length (ml_entries l))) part"
    and f': "f' = f1\<lparr>ledgers := (ledgers f1)(t \<mapsto> l')\<rparr>"
    using app ens by (auto simp: append_entry_def add_entry_in_place_def Let_def l'_def)
  have ids: "ids_ok (ml_ledger_id l) (ml_entries l @ [(mid, pl)])"
    unfolding mid using e len by (intro ids_ok_snoc) (auto dest: factory_wf_ids)
  have "factory_wf f'"
    using e ids unfolding f' by (auto simp: factory_wf_def l'_def)
  with e mid f' show ?thesis
    by (auto simp: factory_messages_def l'_def)
qed

lemma mem_wf_new [simp, wf_intros]: "mem_wf mem_new"
  by (simp add: mem_wf_def mem_new_def)

lemma mem_messages_ids:
  assumes "mem_wf s"
  shows "\<exists>lid. ids_ok lid (mem_messages s topic) \<and>
    (mem_messages s topic \<noteq> [] \<longrightarrow> (\<exists>l. ledgers (mem_factory s) topic = Some l \<and> ml_ledger_id l = lid))"
  using assms
  by (auto simp: mem_messages_def factory_messages_def mem_wf_def factory_wf_def split: option.splits)

lemma mem_wf_meta: "mem_wf s \<Longrightarrow> entry_metadata s mid \<noteq> None \<Longrightarrow> \<exists>topic. mid \<in> fst ` set (mem_messages s topic)"
  unfolding mem_wf_def by blast

text \<open>The effect of an append on the storage, with or without metadata.\<close>

lemma mem_append_with_metadata_spec:
  assumes wf: "mem_wf s" and room: "mem_room s t"
    and app: "mem_append_message_with_metadata s t part md pl = (r, s')"
  shows "\<exists>mid. r = Inr mid \<and> entry mid = of_nat (length (mem_messages s t)) \<and>
    mem_messages s' t = mem_messages s t @ [(mid, pl)] \<and>
    (\<forall>t'. t' \<noteq> t \<longrightarrow> mem_messages s' t' = mem_messages s t') \<and>
    mid \<notin> dom (entry_metadata s) \<and> (\<forall>t'. mid \<notin> fst ` set (mem_messages s t')) \<and>
    entry_metadata s' = (if md \<noteq> [] then (entry_metadata s)(mid \<mapsto> md) else entry_metadata s) \<and>
    cursors s' = cursors s \<and> subscription_cursors s' = subscription_cursors s \<and> mem_wf s'"
proof -
  obtain mid f where ap: "append_entry (mem_factory s) t part pl = (mid, f)" by fastforce
  have fwf: "factory_wf (mem_factory s)" using wf by (simp add: mem_wf_def)
  have len: "Suc (length (case factory_messages (mem_factory s) t of Some m \<Rightarrow> m | None \<Rightarrow> [])) < u64_cap"
    and nm: "next_ledger_id (mem_factory s) \<noteq> u64_MAX"
    using room by (auto simp: mem_room_def mem_messages_def)
  note spec = append_entry_spec [OF fwf nm len ap]
  have msgs: "mem_messages s' t = mem_messages s t @ [(mid, pl)]"
    "\<forall>t'. t' \<noteq> t \<longrightarrow> mem_messages s' t' = mem_messages s t'"
    and s': "mem_factory s' = f" "cursors s' = cursors s" "subscription_cursors s' = subscription_cursors s"
    "entry_metadata s' = (if md \<noteq> [] then (entry_metadata s)(mid \<mapsto> md) else entry_metadata s)"
    and r: "r = Inr mid"
    using app ap spec
    by (auto simp: mem_append_message_with_metadata_def mem_messages_def factory_messages_def Let_def)
  have fresh: "mid \<notin> fst ` set (mem_messages s t')" for t'
  proof
    assume "mid \<in> fst ` set (mem_messages s t')"
    then obtain i where i: "i < length (mem_messages s t')" "fst (mem_messages s t' ! i) = mid"
      by (auto simp: in_set_conv_nth)
    obtain lid where lid: "ids_ok lid (mem_messages s t')"
      "\<exists>l. ledgers (mem_factory s) t' = Some l \<and> ml_ledger_id l = lid"
      using mem_messages_ids [OF wf, of t'] i by fastforce
    from ids_ok_nth [OF lid(1) i(1)] i(2) have "ledger mid = lid" "entry mid = of_nat i" by auto
    show False
    proof (cases "t' = t")
      case True
      with i \<open>entry mid = of_nat i\<close> spec len ids_ok_length [OF lid(1)] show False
        using of_nat_u64_eq_iff [of i "length (mem_messages s t)"] by (auto simp: mem_messages_def)
    next
      case False
      with spec lid(2) \<open>ledger mid = lid\<close> show False unfolding factory_wf_def by metis
    qed
  qed
  moreover have "mem_wf s'"
    unfolding mem_wf_def
  proof (intro conjI ballI)
    show "factory_wf (mem_factory s')" using spec s' by simp
    show "\<forall>key c. subscription_cursors s' key = Some c \<longrightarrow> cursor_wf c" using wf s' by (simp add: mem_wf_def)
    fix m assume "m \<in> dom (entry_metadata s')"
    then have "m = mid \<or> m \<in> dom (entry_metadata s)" using s'(4) by (auto split: if_splits)
    then show "\<exists>topic. m \<in> fst ` set (mem_messages s' topic)"
    proof
      assume "m = mid"
      with msgs(1) show ?thesis by (intro exI [of _ t]) simp
    next
      assume "m \<in> dom (entry_metadata s)"
      then have "entry_metadata s m \<noteq> None" by auto
      from mem_wf_meta [OF wf this] obtain t' where "m \<in> fst ` set (mem_messages s t')" ..
      with msgs show ?thesis by (intro exI [of _ t']) (cases "t' = t", auto)
    qed
  qed
  ultimately show ?thesis
    using r msgs s' spec mem_wf_meta [OF wf, of mid] by (auto simp: mem_messages_def)
qed


lemma mem_append_message_eq:
  "mem_append_message s t part pl = mem_append_message_with_metadata s t part [] pl"
  by (simp add: mem_append_message_def mem_append_message_with_metadata_def Let_def split: prod.splits)

text \<open>The operations that only change cursors.\<close>

lemma mem_messages_cursor_update [simp]:
  "mem_messages (s\<lparr>cursors := a\<rparr>) t = mem_messages s t"
  "mem_messages (s\<lparr>subscription_cursors := b\<rparr>) t = mem_messages s t"
  by (simp_all add: mem_messages_def)

lemma mem_messages_cursor_ops [simp]:
  "mem_messages (ensure_exclusive_cursor s key) t = mem_messages s t"
  "mem_messages (apply_latest_exclusive s key topic) t = mem_messages s t"
  "mem_messages (apply_start_message_id_exclusive s key mid) t = mem_messages s t"
  "mem_messages (snd (mem_initialize_or_open_cursor s topic sub opts)) t = mem_messages s t"
  "mem_messages (snd (mem_delete_cursor s topic sub)) t = mem_messages s t"
  "mem_messages (snd (mem_seek_cursor s topic sub mid shared)) t = mem_messages s t"
  "mem_messages (snd (mem_ack_message s topic sub mid)) t = mem_messages s t"
  "mem_messages (snd (mem_ack_message_shared s topic sub mid)) t = mem_messages s t"
  by (auto simp: ensure_exclusive_cursor_def apply_latest_exclusive_def
      apply_start_message_id_exclusive_def mem_initialize_or_open_cursor_def mem_delete_cursor_def
      mem_seek_cursor_def mem_ack_message_def mem_ack_message_shared_def Let_def
      split: option.splits prod.splits)

lemma mem_wf_cursors: "mem_wf s \<Longrightarrow> mem_wf (s\<lparr>cursors := a\<rparr>)"
  unfolding mem_wf_def by simp

lemma mem_wf_subscription_cursors:
  "mem_wf s \<Longrightarrow> (\<And>k c. b k = Some c \<Longrightarrow> cursor_wf c) \<Longrightarrow> mem_wf (s\<lparr>subscription_cursors := b\<rparr>)"
  unfolding mem_wf_def by simp

lemma mem_wf_cursor: "mem_wf s \<Longrightarrow> subscription_cursors s k = Some c \<Longrightarrow> cursor_wf c"
  unfolding mem_wf_def by blast

lemma cursor_wf_frontier [simp]: "cursor_wf \<lparr>mark_delete = m, acked_holes = rs_new\<rparr>"
  by (simp add: cursor_wf_def) (simp add: rs_new_def)

lemma mem_wf_ensure_exclusive [wf_intros]: "mem_wf s \<Longrightarrow> mem_wf (ensure_exclusive_cursor s key)"
  by (auto simp: ensure_exclusive_cursor_def intro: mem_wf_cursors split: option.splits)

lemma mem_wf_initialize [wf_intros]:
  "mem_wf s \<Longrightarrow> mem_wf (snd (mem_initialize_or_open_cursor s topic sub opts))"
  by (auto simp: mem_initialize_or_open_cursor_def apply_latest_exclusive_def Let_def
      apply_start_message_id_exclusive_def
      intro: mem_wf_cursors mem_wf_ensure_exclusive split: option.splits)

lemma mem_wf_delete [wf_intros]: "mem_wf s \<Longrightarrow> mem_wf (snd (mem_delete_cursor s topic sub))"
  by (auto simp: mem_delete_cursor_def Let_def split: if_splits
      intro!: mem_wf_subscription_cursors mem_wf_cursors dest: mem_wf_cursor)

lemma mem_wf_seek [wf_intros]: "mem_wf s \<Longrightarrow> mem_wf (snd (mem_seek_cursor s topic sub mid shared))"
  by (auto simp: mem_seek_cursor_def Let_def split: if_splits
      intro!: mem_wf_subscription_cursors mem_wf_cursors dest: mem_wf_cursor)

lemma mem_wf_ack [wf_intros]: "mem_wf s \<Longrightarrow> mem_wf (snd (mem_ack_message s topic sub mid))"
  by (simp add: mem_ack_message_def Let_def mem_wf_cursors)

lemma mem_wf_ack_shared [wf_intros]:
  assumes "mem_wf s"
  shows "mem_wf (snd (mem_ack_message_shared s topic sub mid))"
proof -
  let ?c = "case subscription_cursors s (cursor_subscription_key topic sub) of
    Some c \<Rightarrow> c | None \<Rightarrow> SubscriptionCursor_default"
  have wf: "cursor_wf ?c" using assms by (auto split: option.splits dest: mem_wf_cursor)
  obtain r c' where ack: "ack_shared ?c (entry mid) = (r, c')" by fastforce
  have "cursor_wf c'" by (rule ack_shared_spec(1) [OF wf ack])
  with assms ack show ?thesis
    by (auto simp: mem_ack_message_shared_def Let_def split: if_splits
        intro!: mem_wf_subscription_cursors dest: mem_wf_cursor)
qed

lemma mem_wf_append [wf_intros]:
  "mem_wf s \<Longrightarrow> mem_room s t \<Longrightarrow> mem_wf (snd (mem_append_message_with_metadata s t part md pl))"
  using mem_append_with_metadata_spec [of s t part md pl] by (cases "mem_append_message_with_metadata s t part md pl") auto

section \<open>The reader laws\<close>

lemma mem_entries_sorted:
  assumes "mem_wf s"
  shows "sorted_wrt (<) (map (\<lambda>m. id_key (fst m)) (mem_messages s topic))"
proof -
  obtain lid where ids: "ids_ok lid (mem_messages s topic)" using mem_messages_ids [OF assms] by blast
  note len = ids_ok_length [OF ids]
  show ?thesis
    unfolding sorted_wrt_iff_nth_less
    using ids_ok_nth [OF ids] len by (auto simp: id_key_def of_nat_u64_less_iff)
qed

lemma mem_stored_message_id [simp]: "sm_message_id (mem_stored_message s mid pl) = mid"
  by (simp add: mem_stored_message_def StoredMessage_new_def)

lemma mem_get_message_entries_eq:
  "mem_get_message_entries s topic = map (\<lambda>m. mem_stored_message s (fst m) (snd m)) (mem_messages s topic)"
  by (auto simp: mem_get_message_entries_def mem_get_messages_def mem_messages_def)

lemma mem_next_law:
  assumes wf: "mem_wf s" and "m \<in> set (mem_messages s topic)" "m' \<in> set (mem_messages s topic)"
  shows "(ledger (fst m), entry (fst m) + 1) \<le> id_key (fst m') \<longleftrightarrow> id_key (fst m) < id_key (fst m')"
proof -
  obtain lid where ids: "ids_ok lid (mem_messages s topic)" using mem_messages_ids [OF assms(1)] by blast
  from assms(2,3) obtain i j where i: "i < length (mem_messages s topic)" "mem_messages s topic ! i = m"
    and j: "j < length (mem_messages s topic)" "mem_messages s topic ! j = m'"
    by (auto simp: in_set_conv_nth)
  have "of_nat i + (1 :: u64) = of_nat (Suc i)" by simp
  with i j ids_ok_nth [OF ids i(1)] ids_ok_nth [OF ids j(1)] ids_ok_length [OF ids] show ?thesis
    by (simp add: id_key_def of_nat_u64_less_iff of_nat_u64_le_iff Suc_le_eq del: of_nat_Suc)
qed

interpretation mem: storage_reads mem_storage mem_wf mem_get_message_entries is_acknowledged_inner
proof
  fix s topic sub p m mid
  assume wf: "mem_wf s"
  show "sorted_wrt (<) (map (\<lambda>m. id_key (sm_message_id m)) (mem_get_message_entries s topic))"
    using mem_entries_sorted [OF wf, of topic] by (simp add: mem_get_message_entries_eq comp_def)
  show "first_unacked_position mem_storage s topic sub =
      Inr (map_option (\<lambda>m. position_of (sm_message_id m))
        (find (\<lambda>m. \<not> is_acknowledged_inner s topic sub (sm_message_id m)) (mem_get_message_entries s topic)))"
    by (simp add: mem_storage_def mem_first_unacked_position_def first_unacked_from_messages_find
        mem_get_message_entries_eq find_map option.map_comp comp_def)
  show "read_entries_from mem_storage s topic p 1 =
      Inr (take 1 (filter (\<lambda>m. position_at_or_after (position_of (sm_message_id m)) p) (mem_get_message_entries s topic)))"
    by (simp add: mem_storage_def mem_read_entries_from_def mem_read_from_def read_from_messages_eq
        mem_get_message_entries_eq take_map [symmetric] filter_map comp_def case_prod_beta')
  show "is_acknowledged mem_storage s topic sub mid = Inr (is_acknowledged_inner s topic sub mid)"
    by (simp add: mem_storage_def mem_is_acknowledged_def)
  assume "m \<in> set (mem_get_message_entries s topic)"
  then show "\<exists>r. get_next_position mem_storage s topic (position_of (sm_message_id m)) = Inr r \<and>
      (\<forall>m' \<in> set (mem_get_message_entries s topic).
        pos_key (case r of Some p \<Rightarrow> p | None \<Rightarrow> logical_next (sm_message_id m)) \<le> id_key (sm_message_id m')
        \<longleftrightarrow> id_key (sm_message_id m) < id_key (sm_message_id m'))"
    using mem_next_law [OF wf]
    by (auto simp: mem_storage_def mem_get_next_position_def next_position_single_ledger_def
        pos_key_def mem_get_message_entries_eq)
qed

section \<open>Lookup, seek and cursor creation\<close>

lemma find_fst_map_of: "find (\<lambda>(k, _). k = x) ps = map_option (Pair x) (map_of ps x)"
  by (induction ps) auto

lemma ids_ok_distinct:
  assumes "ids_ok lid msgs"
  shows "distinct (map fst msgs)"
proof -
  have "map fst msgs ! i \<noteq> map fst msgs ! j" if "i < length msgs" "j < length msgs" "i \<noteq> j" for i j
  proof -
    have "entry (fst (msgs ! i)) \<noteq> entry (fst (msgs ! j))"
      using ids_ok_nth [OF assms] ids_ok_length [OF assms] that by (simp add: of_nat_u64_eq_iff)
    with that show ?thesis by auto
  qed
  then show ?thesis by (simp add: distinct_conv_nth)
qed

lemma mem_get_message_by_id_eq:
  assumes "mem_wf s"
  shows "mem_get_message_by_id s t mid = map_option (Pair mid) (map_of (mem_messages s t) mid)"
proof -
  obtain lid where ids: "ids_ok lid (mem_messages s t)" using mem_messages_ids [OF assms] by blast
  have nth: "map_of (mem_messages s t) mid = Some (snd (mem_messages s t ! i))"
    if "i < length (mem_messages s t)" "fst (mem_messages s t ! i) = mid" for i
    using ids_ok_distinct [OF ids] that by (metis map_of_is_SomeI nth_mem prod.collapse)
  show ?thesis
    using nth [of "unat (entry mid)"]
    by (auto simp: mem_get_message_by_id_def factory_get_message_by_id_def find_fst_map_of
        mem_messages_def prod_eq_iff split: option.splits)
qed

interpretation mem_entries: storage_entries mem_storage mem_wf mem_get_message_entries is_acknowledged_inner
proof
  fix s topic mid
  assume "mem_wf s"
  then show "get_message_entry_by_id mem_storage s topic mid =
      find (\<lambda>m. sm_message_id m = mid) (mem_get_message_entries s topic)"
    by (simp add: mem_storage_def mem_get_message_entry_by_id_def mem_get_message_by_id_eq mem_get_message_entries_eq
        find_map comp_def find_fst_map_of [unfolded case_prod_beta'] option.map_comp)
qed

text \<open>An acknowledged prefix of \<open>k\<close> entries makes entry \<open>k\<close> the first unacknowledged one.\<close>

lemma mem_first_unacked_prefix:
  assumes "\<And>i. i < length (mem_messages s t) \<Longrightarrow>
    is_acknowledged_inner s t sub (fst (mem_messages s t ! i)) \<longleftrightarrow> i < k"
  shows "mem_first_unacked_position s t sub =
    Inr (if k < length (mem_messages s t) then Some (position_of (fst (mem_messages s t ! k))) else None)"
  using find_prefix [of "mem_messages s t" "\<lambda>m. is_acknowledged_inner s t sub (fst m)" k] assms
  by (simp add: mem_first_unacked_position_def first_unacked_from_messages_find)

lemma is_acknowledged_frontier:
  assumes ids: "ids_ok lid msgs" and "i < length msgs" "j < length msgs"
  shows "entry (fst (msgs ! i)) \<le> of_nat j \<longleftrightarrow> i \<le> j" and "of_nat j \<noteq> u64_MAX"
  using ids_ok_nth [OF ids assms(2)] ids_ok_length [OF ids] assms(2,3) of_nat_u64_not_max [of j]
  by (auto simp: of_nat_u64_le_iff)

lemma rs_contains_new [simp]: "\<not> rs_contains rs_new k"
  by (simp add: rs_new_def rs_contains_def bts_last_le_def bts_first_ge_def)

lemma mem_seek_acked:
  "is_acknowledged_inner (snd (mem_seek_cursor s t sub mid shared)) t sub m =
     (let before = takeWhile (\<lambda>p. p < position_of mid) (map (\<lambda>m. position_of (fst m)) (mem_messages s t)) in
      before \<noteq> [] \<and> entry m \<le> entry_id (last before) \<and> (shared \<or> entry_id (last before) \<noteq> u64_MAX))"
  by (auto simp: mem_seek_cursor_def is_acknowledged_inner_def Let_def is_message_acknowledged_def
      case_prod_beta')

lemma mem_seek_first_unacked:
  assumes wf: "mem_wf s"
  shows "mem_first_unacked_position (snd (mem_seek_cursor s t sub mid shared)) t sub =
    Inr (find (\<lambda>p. \<not> p < position_of mid) (map (\<lambda>m. position_of (fst m)) (mem_messages s t)))"
proof -
  let ?msgs = "mem_messages s t" and ?s' = "snd (mem_seek_cursor s t sub mid shared)"
  define ps where "ps = map (\<lambda>m. position_of (fst m)) ?msgs"
  define before where "before = takeWhile (\<lambda>p. p < position_of mid) ps"
  have k: "length before \<le> length ?msgs" using length_takeWhile_le [of _ ps] by (simp add: before_def ps_def)
  obtain lid where ids: "ids_ok lid ?msgs" using mem_messages_ids [OF wf] by blast
  have "is_acknowledged_inner ?s' t sub (fst (mem_messages ?s' t ! i)) \<longleftrightarrow> i < length before"
    if "i < length (mem_messages ?s' t)" for i
  proof (cases "length before")
    case 0
    then show ?thesis by (simp add: mem_seek_acked before_def ps_def)
  next
    case (Suc j)
    then have "before \<noteq> []" by auto
    then have "last before = before ! j" using Suc by (simp add: last_conv_nth)
    moreover have "before ! j = ps ! j"
      unfolding before_def by (rule takeWhile_nth) (use Suc in \<open>simp add: before_def\<close>)
    moreover have "j < length ?msgs" using Suc k by simp
    ultimately have "entry_id (last before) = of_nat j"
      using ids_ok_nth [OF ids] by (simp add: ps_def)
    with is_acknowledged_frontier [OF ids _ \<open>j < length ?msgs\<close>, of i] that Suc \<open>before \<noteq> []\<close>
    show ?thesis by (auto simp: mem_seek_acked before_def [symmetric] ps_def [symmetric])
  qed
  from mem_first_unacked_prefix [OF this] show ?thesis
    unfolding find_takeWhile ps_def [symmetric] before_def [symmetric]
    by (simp add: Let_def ps_def)
qed

lemma mem_open_new_cursor:
  assumes wf: "mem_wf s" and new: "\<not> mem_cursor_exists s (cursor_subscription_key t sub)"
    and init: "mem_initialize_or_open_cursor s t sub opts = (r, s')"
  shows "r = Inr \<lparr>created = True, first_unacked =
    (case start_message_id opts of
       Some start \<Rightarrow> map_option (\<lambda>m. position_of (fst m)) (find (\<lambda>m. entry start \<le> entry (fst m)) (mem_messages s t))
     | None \<Rightarrow> if initial_position opts = Latest then None
         else map_option (\<lambda>m. position_of (fst m)) (find (\<lambda>_. True) (mem_messages s t)))\<rparr>"
proof -
  let ?key = "cursor_subscription_key t sub"
  have none: "cursors s ?key = None" "subscription_cursors s ?key = None"
    using new by (auto simp: mem_cursor_exists_def)
  define s1 where "s1 = (case start_message_id opts of
      Some start_id \<Rightarrow> apply_start_message_id_exclusive s ?key start_id
    | None \<Rightarrow> if initial_position opts = Latest then apply_latest_exclusive s ?key t
        else ensure_exclusive_cursor s ?key)"
  have r: "r = and_then (mem_first_unacked_position s1 t sub) (\<lambda>fu. Inr \<lparr>created = True, first_unacked = fu\<rparr>)"
    using init new unfolding s1_def by (auto simp: mem_initialize_or_open_cursor_def Let_def)
  have msgs: "mem_messages s1 t = mem_messages s t"
    by (simp add: s1_def split: option.splits)
  obtain lid where ids: "ids_ok lid (mem_messages s t)" using mem_messages_ids [OF wf] by blast
  have fu: "mem_first_unacked_position s1 t sub =
      Inr (map_option (\<lambda>m. position_of (fst m)) (find (\<lambda>m. \<not> is_acknowledged_inner s1 t sub (fst m)) (mem_messages s t)))"
    by (simp add: mem_first_unacked_position_def first_unacked_from_messages_find msgs)
  show ?thesis
  proof (cases "start_message_id opts")
    case (Some start)
    have "is_acknowledged_inner s1 t sub m \<longleftrightarrow> \<not> entry start \<le> entry m" for m
    proof (cases "entry start = 0")
      case True
      with Some none show ?thesis
        by (simp add: s1_def apply_start_message_id_exclusive_def ensure_exclusive_cursor_def
            is_acknowledged_inner_def)
    next
      case False
      then have "0 < entry start" by (simp add: word_neq_0_conv)
      note pred = word_pred_bounds [OF this]
      have "entry start - 1 \<noteq> - 1" using pred by auto
      then have "entry m \<le> entry start - 1 \<longleftrightarrow> entry m < entry start" for m :: MessageId
        using word_le_less_Suc [of "entry start - 1" "entry m"] pred by simp
      with Some none \<open>0 < entry start\<close> \<open>entry start - 1 \<noteq> - 1\<close> show ?thesis
        by (simp add: s1_def apply_start_message_id_exclusive_def is_acknowledged_inner_def not_le)
    qed
    with Some r fu show ?thesis by simp
  next
    case None
    show ?thesis
    proof (cases "initial_position opts = Latest \<and> mem_messages s t \<noteq> []")
      case True
      let ?j = "length (mem_messages s t) - 1"
      have j: "?j < length (mem_messages s t)" using True by simp
      have last: "entry (fst (last (mem_messages s t))) = of_nat ?j"
        using True ids_ok_nth [OF ids j] by (simp add: last_conv_nth del: of_nat_diff)
      have "is_acknowledged_inner s1 t sub (fst m)" if "m \<in> set (mem_messages s t)" for m
      proof -
        from that obtain i where i: "i < length (mem_messages s t)" "mem_messages s t ! i = m"
          by (auto simp: in_set_conv_nth)
        with is_acknowledged_frontier [OF ids i(1) j] last True None none show ?thesis
          by (simp add: s1_def apply_latest_exclusive_def last_position_from_messages_def
              is_acknowledged_inner_def del: of_nat_diff)
      qed
      then have "find (\<lambda>m. \<not> is_acknowledged_inner s1 t sub (fst m)) (mem_messages s t) = None"
        by (auto simp: find_None_iff)
      with None r fu True show ?thesis by simp
    next
      case False
      have "\<not> is_acknowledged_inner s1 t sub m" for m
        using None none False
        by (auto simp: s1_def apply_latest_exclusive_def last_position_from_messages_def
            ensure_exclusive_cursor_def is_acknowledged_inner_def)
      with None r fu False show ?thesis by (auto simp: find_None_iff)
    qed
  qed
qed

section \<open>Properties\<close>

text \<open>C14: A message appended with metadata gets a fresh id and is read back by that id
  with exactly the metadata and payload written; every message stored before, in any topic, is
  still read back unchanged.\<close>

theorem mem_append_roundtrip:
  assumes "mem_wf s" "mem_room s t"
    and "mem_append_message_with_metadata s t part md pl = (r, s')"
  shows "\<exists>mid. r = Inr mid \<and>
    mem_get_message_entry_by_id s t mid = None \<and>
    mem_get_message_entry_by_id s' t mid = Some (StoredMessage_new mid md pl) \<and>
    (\<forall>t' m x. mem_get_message_entry_by_id s t' m = Some x \<longrightarrow> mem_get_message_entry_by_id s' t' m = Some x) \<and>
    mem_wf s'"
proof -
  from mem_append_with_metadata_spec [OF assms] obtain mid where
    r: "r = Inr mid" and msgs: "mem_messages s' t = mem_messages s t @ [(mid, pl)]"
      "\<And>t'. t' \<noteq> t \<Longrightarrow> mem_messages s' t' = mem_messages s t'"
    and fresh: "entry_metadata s mid = None" "\<And>t'. mid \<notin> fst ` set (mem_messages s t')"
    and md: "entry_metadata s' = (if md \<noteq> [] then (entry_metadata s)(mid \<mapsto> md) else entry_metadata s)"
    and wf: "mem_wf s'" by blast
  have lookup: "mem_get_message_entry_by_id x t' m =
      map_option (mem_stored_message x m) (map_of (mem_messages x t') m)" if "mem_wf x" for x t' m
    by (simp add: mem_get_message_entry_by_id_def mem_get_message_by_id_eq [OF that] option.map_comp comp_def)
  have none: "map_of (mem_messages s t') mid = None" for t'
    using fresh(2) [of t'] by (simp add: map_of_eq_None_iff)
  have "mem_get_message_entry_by_id s' t' m = Some x"
    if "mem_get_message_entry_by_id s t' m = Some x" for t' m x
  proof -
    from that obtain p where p: "map_of (mem_messages s t') m = Some p" "x = mem_stored_message s m p"
      by (auto simp: lookup [OF assms(1)])
    then have "m \<noteq> mid" using none by auto
    with p md have "mem_stored_message s' m p = x" by (simp add: mem_stored_message_def)
    moreover have "map_of (mem_messages s' t') m = Some p"
      using p(1) msgs by (cases "t' = t") (auto simp: map_add_def)
    ultimately show ?thesis by (simp add: lookup [OF wf])
  qed
  moreover have "mem_get_message_entry_by_id s' t mid = Some (StoredMessage_new mid md pl)"
    using none [of t] md fresh(1) by (simp add: lookup [OF wf] msgs(1) map_add_def mem_stored_message_def)
  ultimately show ?thesis using r wf none by (simp add: lookup [OF assms(1)])
qed

theorem mem_append_roundtrip_witness:
  "\<exists>mid s'. mem_append_message_with_metadata mem_new ''t'' (-1) [1] [2, 3] = (Inr mid, s') \<and>
     mem_get_message_entry_by_id s' ''t'' mid = Some (StoredMessage_new mid [1] [2, 3])"
proof -
  have room: "mem_room mem_new ''t''"
    by (simp add: mem_room_def mem_new_def InMemoryManagedLedgerFactory_new_def mem_messages_def
        factory_messages_def u64_cap_def)
  obtain r s' where app: "mem_append_message_with_metadata mem_new ''t'' (-1) [1] [2, 3] = (r, s')"
    by fastforce
  from mem_append_roundtrip [OF mem_wf_new room app] app show ?thesis by auto
qed

text \<open>C24: After a seek, on a Shared as well as on an Exclusive or Failover cursor, the
  first unacknowledged position is the first stored message that does not precede the target.\<close>

theorem mem_seek_repositions:
  assumes "mem_wf s" "mem_seek_cursor s t sub target shared = (r, s')"
  shows "r = Inr () \<and> mem_wf s' \<and> mem_messages s' t = mem_messages s t \<and>
    mem_first_unacked_position s' t sub =
      Inr (find (\<lambda>p. position_of target \<le> p) (map (\<lambda>m. position_of (fst m)) (mem_messages s t)))"
proof -
  have "fst (mem_seek_cursor s t sub target shared) = Inr ()"
    by (simp add: mem_seek_cursor_def Let_def)
  moreover have "r = fst (mem_seek_cursor s t sub target shared)"
    "s' = snd (mem_seek_cursor s t sub target shared)" using assms(2) by simp_all
  ultimately show ?thesis
    using mem_seek_first_unacked [OF assms(1), of t sub target shared]
    by (simp add: not_less mem_wf_seek [OF assms(1)])
qed

theorem mem_seek_repositions_witness:
  "let s = snd (mem_append_message mem_new ''t'' (-1) [7]) in
   mem_first_unacked_position (snd (mem_seek_cursor s ''t'' ''sub'' (MessageId 0 0 (-1)) True)) ''t'' ''sub'' =
     Inr (Some (ManagedLedgerPosition 0 0 (-1)))"
proof -
  let ?s = "snd (mem_append_message mem_new ''t'' (-1) [7])"
  have room: "mem_room mem_new ''t''"
    by (simp add: mem_room_def mem_new_def InMemoryManagedLedgerFactory_new_def mem_messages_def
        factory_messages_def u64_cap_def)
  have wf: "mem_wf ?s"
    using mem_wf_append [OF mem_wf_new room] by (simp add: mem_append_message_eq)
  obtain r s' where seek: "mem_seek_cursor ?s ''t'' ''sub'' (MessageId 0 0 (-1)) True = (r, s')" by fastforce
  have msgs: "mem_messages ?s ''t'' = [(MessageId 0 0 (-1), [7])]"
    by (simp add: eval_simps Let_def)
  from mem_seek_repositions [OF wf seek] seek show ?thesis
    by (simp add: msgs position_of_def)
qed

text \<open>C25: Opening an unknown cursor reports it as created and positions it at the first
  stored message at or after the requested start id, after the backlog for Latest, and at the
  first stored message for Earliest; opening a known cursor reports it as existing, changes
  nothing and returns its first unacknowledged position.\<close>

theorem mem_open_cursor:
  assumes "mem_wf s" "mem_initialize_or_open_cursor s t sub opts = (r, s')"
  shows "if mem_cursor_exists s (cursor_subscription_key t sub)
    then s' = s \<and> (\<exists>fu. mem_first_unacked_position s t sub = Inr fu \<and>
      r = Inr \<lparr>created = False, first_unacked = fu\<rparr>)
    else mem_cursor_exists s' (cursor_subscription_key t sub) \<and>
      r = Inr \<lparr>created = True, first_unacked =
        (case start_message_id opts of
           Some start \<Rightarrow> map_option (\<lambda>m. position_of (fst m)) (find (\<lambda>m. entry start \<le> entry (fst m)) (mem_messages s t))
         | None \<Rightarrow> if initial_position opts = Latest then None
             else map_option (\<lambda>m. position_of (fst m)) (find (\<lambda>_. True) (mem_messages s t)))\<rparr>"
proof (cases "mem_cursor_exists s (cursor_subscription_key t sub)")
  case True
  with assms(2) show ?thesis
    by (auto simp: mem_initialize_or_open_cursor_def mem_first_unacked_position_def Let_def)
next
  case False
  have "mem_cursor_exists s' (cursor_subscription_key t sub)"
    using assms(2) False
    by (auto simp: mem_initialize_or_open_cursor_def mem_cursor_exists_def apply_latest_exclusive_def
        apply_start_message_id_exclusive_def ensure_exclusive_cursor_def Let_def split: option.splits)
  with False mem_open_new_cursor [OF assms(1) False assms(2)] show ?thesis by simp
qed

theorem mem_open_cursor_witness:
  "fst (mem_initialize_or_open_cursor mem_new ''t'' ''sub''
     \<lparr>initial_position = Latest, start_message_id = None\<rparr>) =
   Inr \<lparr>created = True, first_unacked = None\<rparr>"
proof -
  obtain r s' where op: "mem_initialize_or_open_cursor mem_new ''t'' ''sub''
     \<lparr>initial_position = Latest, start_message_id = None\<rparr> = (r, s')" by fastforce
  have "\<not> mem_cursor_exists mem_new (cursor_subscription_key ''t'' ''sub'')"
    by (simp add: mem_cursor_exists_def mem_new_def)
  with mem_open_cursor [OF mem_wf_new op] op show ?thesis by simp
qed

text \<open>C26: On a cursor that already is a Shared cursor, an individual acknowledgement
  acknowledges exactly that entry in addition, and no cursor under another key is affected.\<close>

theorem mem_ack_shared_acks:
  assumes "mem_wf s" "subscription_cursors s (cursor_subscription_key t sub) = Some c"
    and "mem_ack_message_shared s t sub mid = (r, s')"
  shows "is_acknowledged_inner s' t sub m = (entry m = entry mid \<or> is_acknowledged_inner s t sub m) \<and>
    (cursor_subscription_key t' sub' \<noteq> cursor_subscription_key t sub \<longrightarrow>
       is_acknowledged_inner s' t' sub' m = is_acknowledged_inner s t' sub' m)"
proof -
  obtain q c' where ack: "ack_shared c (entry mid) = (q, c')" by fastforce
  note spec = ack_shared_spec(2) [OF mem_wf_cursor [OF assms(1,2)] ack]
  have "s' = s\<lparr>subscription_cursors := (subscription_cursors s)(cursor_subscription_key t sub \<mapsto> c')\<rparr>"
    using assms(2,3) ack by (auto simp: mem_ack_message_shared_def Let_def)
  then show ?thesis
    using spec assms(2) unfolding acked_def
    by (auto simp: is_acknowledged_inner_def Let_def split: option.splits)
qed

theorem mem_ack_shared_acks_witness:
  "let s = snd (mem_seek_cursor mem_new ''t'' ''sub'' (MessageId 0 0 (-1)) True) in
   is_acknowledged_inner (snd (mem_ack_message_shared s ''t'' ''sub'' (MessageId 0 4 (-1)))) ''t'' ''sub''
     (MessageId 0 4 (-1))"
proof -
  let ?s = "snd (mem_seek_cursor mem_new ''t'' ''sub'' (MessageId 0 0 (-1)) True)"
  have wf: "mem_wf ?s" by (intro mem_wf_seek mem_wf_new)
  have c: "subscription_cursors ?s (cursor_subscription_key ''t'' ''sub'') =
      Some \<lparr>mark_delete = None, acked_holes = rs_new\<rparr>"
    by (simp add: mem_seek_cursor_def mem_new_def mem_messages_def factory_messages_def
        InMemoryManagedLedgerFactory_new_def Let_def)
  obtain r s' where "mem_ack_message_shared ?s ''t'' ''sub'' (MessageId 0 4 (-1)) = (r, s')" by fastforce
  with mem_ack_shared_acks [OF wf c this] show ?thesis by simp
qed

text \<open>C27: Once a subscription has a Shared cursor, a cumulative acknowledgement has no
  effect on what is reported as acknowledged: it only writes the plain frontier, which is
  consulted only when there is no Shared cursor.\<close>

theorem mem_cumulative_ack_ignored:
  assumes "subscription_cursors s (cursor_subscription_key t sub) = Some c"
  shows "mem_is_acknowledged (snd (mem_ack_message s t sub mid)) t sub m = mem_is_acknowledged s t sub m"
  using assms by (simp add: mem_is_acknowledged_def is_acknowledged_inner_def mem_ack_message_def Let_def)

theorem mem_cumulative_ack_ignored_witness:
  "let s = snd (mem_ack_message_shared mem_new ''t'' ''sub'' (MessageId 0 3 (-1))) in
   mem_is_acknowledged (snd (mem_ack_message s ''t'' ''sub'' (MessageId 0 5 (-1)))) ''t'' ''sub''
     (MessageId 0 5 (-1)) = Inr False"
proof -
  let ?s = "snd (mem_ack_message_shared mem_new ''t'' ''sub'' (MessageId 0 3 (-1)))"
  have c: "subscription_cursors ?s (cursor_subscription_key ''t'' ''sub'') =
      Some (snd (ack_shared SubscriptionCursor_default 3))"
    by (simp add: mem_ack_message_shared_def mem_new_def Let_def case_prod_beta')
  have "mem_is_acknowledged ?s ''t'' ''sub'' (MessageId 0 5 (-1)) = Inr False"
    by (simp add: eval_simps)
  then show ?thesis
    using mem_cumulative_ack_ignored [OF c, of "MessageId 0 5 (-1)" "MessageId 0 5 (-1)"] by simp
qed

text \<open>A cursor opened at Latest holds its frontier in the plain map, and the first
  individual acknowledgement replaces it by a fresh Shared cursor: the backlog that was skipped
  at opening becomes unacknowledged again.\<close>

lemma mem_latest_frontier_lost:
  "let opts = \<lparr>initial_position = Latest, start_message_id = None\<rparr>;
       s1 = snd (mem_append_message mem_new ''t'' (-1) [1]);
       (r, s2) = mem_initialize_or_open_cursor s1 ''t'' ''sub'' opts;
       s3 = snd (mem_append_message s2 ''t'' (-1) [2]);
       s4 = snd (mem_ack_message_shared s3 ''t'' ''sub'' (MessageId 0 1 (-1)))
   in r = Inr \<lparr>created = True, first_unacked = None\<rparr> \<and>
      mem_first_unacked_position s3 ''t'' ''sub'' = Inr (Some (ManagedLedgerPosition 0 1 (-1))) \<and>
      mem_first_unacked_position s4 ''t'' ''sub'' = Inr (Some (ManagedLedgerPosition 0 0 (-1)))"
  by (simp add: eval_simps Let_def)

end
