(* ===== verification/PL_ReadPosition.thy ===== *)
theory PL_ReadPosition
  imports PL_MemoryStorage
begin

text \<open>
  The read loop shared by all persistent dispatchers
  (\<open>broker/dispatcher/read_position.rs\<close>). The read position is the state; a storage error
  ends the loop. The loop is a partial function: that it returns is proved from the laws of
  the storage in the locale \<open>storage_reads\<close>.
\<close>

section \<open>Model\<close>

record ReadCandidate =
  rc_message_id :: MessageId
  rc_metadata :: bytes
  rc_payload :: bytes
  rc_next_position :: ManagedLedgerPosition

type_synonym read_position = "ManagedLedgerPosition option"

text \<open>The block of the loop that holds the storage lock.\<close>

definition read_candidate_entry ::
    "'s ManagedLedgerStorage \<Rightarrow> 's \<Rightarrow> string \<Rightarrow> string \<Rightarrow> ManagedLedgerPosition
     \<Rightarrow> (StoredMessage \<times> ManagedLedgerPosition \<times> bool) option result" where
  "read_candidate_entry st s topic sub pos =
     and_then (read_entries_from st s topic pos 1) (\<lambda>batch.
       case batch of
         [] \<Rightarrow> Inr None
       | e # _ \<Rightarrow>
           and_then (get_next_position st s topic (position_of (sm_message_id e))) (\<lambda>np.
           let next_position = (case np of Some p \<Rightarrow> p | None \<Rightarrow> logical_next (sm_message_id e)) in
           and_then (is_acknowledged st s topic sub (sm_message_id e)) (\<lambda>already_acked.
           Inr (Some (e, next_position, already_acked)))))"

definition candidate_of :: "StoredMessage \<Rightarrow> ManagedLedgerPosition \<Rightarrow> ReadCandidate" where
  "candidate_of e next_position =
     \<lparr>rc_message_id = sm_message_id e, rc_metadata = sm_metadata e, rc_payload = sm_payload e,
      rc_next_position = next_position\<rparr>"

partial_function (option) next_unacked_candidate ::
    "'s ManagedLedgerStorage \<Rightarrow> 's \<Rightarrow> string \<Rightarrow> string \<Rightarrow> read_position
     \<Rightarrow> (ReadCandidate option result \<times> read_position) option" where
  "next_unacked_candidate st s topic sub rp =
     (case (case rp of Some pos \<Rightarrow> Inr (Some pos) | None \<Rightarrow> first_unacked_position st s topic sub) of
        Inl e \<Rightarrow> Some (Inl e, rp)
      | Inr None \<Rightarrow> Some (Inr None, None)
      | Inr (Some pos) \<Rightarrow>
          (case read_candidate_entry st s topic sub pos of
             Inl e \<Rightarrow> Some (Inl e, Some pos)
           | Inr None \<Rightarrow> Some (Inr None, Some pos)
           | Inr (Some (e, next_position, already_acked)) \<Rightarrow>
               if already_acked then next_unacked_candidate st s topic sub (Some next_position)
               else Some (Inr (Some (candidate_of e next_position)), Some pos)))"

definition commit_read_position :: "read_position \<Rightarrow> ManagedLedgerPosition \<Rightarrow> read_position" where
  "commit_read_position rp next_position = Some next_position"

section \<open>The loop finds the first unacknowledged entry\<close>

text \<open>The part of a log that a reader at position \<open>p\<close> still has to read.\<close>

definition log_from :: "StoredMessage list \<Rightarrow> ManagedLedgerPosition \<Rightarrow> StoredMessage list" where
  "log_from l p = filter (\<lambda>m. pos_key p \<le> id_key (sm_message_id m)) l"

text \<open>What is left to read: the whole log as long as no read position is set.\<close>

fun to_read :: "StoredMessage list \<Rightarrow> read_position \<Rightarrow> StoredMessage list" where
  "to_read l None = l"
| "to_read l (Some p) = log_from l p"

lemma set_to_read: "m \<in> set (to_read l rp) \<Longrightarrow> m \<in> set l"
  by (cases rp) (auto simp: log_from_def)

lemma sorted_filter_ge_drop:
  fixes key :: "'a \<Rightarrow> 'b::linorder"
  assumes "sorted_wrt (<) (map key (xs @ y # ys))"
  shows "filter (\<lambda>m. key y \<le> key m) (xs @ y # ys) = y # ys"
proof -
  have "filter (\<lambda>m. key y \<le> key m) xs = []"
    using assms by (auto simp: filter_empty_conv sorted_wrt_append)
  moreover have "filter (\<lambda>m. key y \<le> key m) ys = ys"
    using assms by (auto simp: sorted_wrt_append intro!: filter_True)
  ultimately show ?thesis by simp
qed

lemma sorted_filter_gt_tail:
  fixes key :: "'a \<Rightarrow> 'b::linorder"
  assumes "sorted_wrt (<) (map key l)" "filter (\<lambda>m. k \<le> key m) l = y # ys"
  shows "filter (\<lambda>m. key y < key m) l = ys"
proof -
  have "k \<le> key y" using assms(2) by (auto dest!: filter_eq_ConsD)
  have "filter (\<lambda>m. key y < key m) l = filter (\<lambda>m. key y < key m) (filter (\<lambda>m. k \<le> key m) l)"
    unfolding filter_filter using \<open>k \<le> key y\<close> by (intro filter_cong) auto
  moreover have "sorted_wrt (\<lambda>x y. key x < key y) (filter (\<lambda>m. k \<le> key m) l)"
    using assms(1) by (simp add: sorted_wrt_map sorted_wrt_filter)
  ultimately show ?thesis using assms(2) by (auto intro!: filter_True)
qed

context storage_reads
begin

lemma read_law_from: "inv s \<Longrightarrow> read_entries_from st s topic p (Suc 0) = Inr (take 1 (log_from (log s topic) p))"
  using read_law [of s topic p] by (simp add: log_from_def position_at_or_after_key)

lemma read_candidate_entry_Nil:
  "inv s \<Longrightarrow> log_from (log s topic) p = [] \<Longrightarrow> read_candidate_entry st s topic sub p = Inr None"
  by (simp add: read_candidate_entry_def read_law_from)

lemma read_candidate_entry_Cons:
  assumes "inv s" "log_from (log s topic) p = e # es"
  shows "\<exists>np. read_candidate_entry st s topic sub p = Inr (Some (e, np, ackd s topic sub (sm_message_id e))) \<and>
    log_from (log s topic) np = es"
proof -
  let ?key = "\<lambda>m. id_key (sm_message_id m)"
  have mem: "e \<in> set (log s topic)" using assms(2) by (auto simp: log_from_def dest!: filter_eq_ConsD)
  from next_law [OF assms(1) mem] obtain r where r:
    "get_next_position st s topic (position_of (sm_message_id e)) = Inr r"
    "\<forall>m' \<in> set (log s topic). pos_key (case r of Some p \<Rightarrow> p | None \<Rightarrow> logical_next (sm_message_id e)) \<le> ?key m'
       \<longleftrightarrow> ?key e < ?key m'" by blast
  define np where "np = (case r of Some p \<Rightarrow> p | None \<Rightarrow> logical_next (sm_message_id e))"
  have "log_from (log s topic) np = filter (\<lambda>m. ?key e < ?key m) (log s topic)"
    unfolding log_from_def using r(2) by (intro filter_cong) (simp_all add: np_def)
  also have "\<dots> = es"
    using sorted_filter_gt_tail [OF log_sorted [OF assms(1)]] assms(2) by (simp add: log_from_def)
  finally have "log_from (log s topic) np = es" .
  with r(1) assms show ?thesis
    by (intro exI [of _ np])
       (simp add: read_candidate_entry_def read_law_from acked_law np_def Let_def)
qed

text \<open>From a given position the loop returns: it skips the acknowledged entries, leaves the
  read position at the first other entry and offers that entry, if there is one.\<close>

lemma next_unacked_from:
  assumes "inv s"
  shows "\<exists>q c. next_unacked_candidate st s topic sub (Some p) = Some (Inr c, Some q) \<and>
    log_from (log s topic) q = dropWhile (\<lambda>m. ackd s topic sub (sm_message_id m)) (log_from (log s topic) p) \<and>
    (case log_from (log s topic) q of [] \<Rightarrow> c = None
     | m # ms \<Rightarrow> \<exists>np. c = Some (candidate_of m np) \<and> log_from (log s topic) np = ms)"
proof (induction "length (log_from (log s topic) p)" arbitrary: p rule: less_induct)
  case less
  show ?case
  proof (cases "log_from (log s topic) p")
    case Nil
    with read_candidate_entry_Nil [OF assms Nil, of sub] show ?thesis
      by (subst next_unacked_candidate.simps) simp
  next
    case (Cons e es)
    from read_candidate_entry_Cons [OF assms Cons] obtain np where np:
      "read_candidate_entry st s topic sub p = Inr (Some (e, np, ackd s topic sub (sm_message_id e)))"
      "log_from (log s topic) np = es" by blast
    show ?thesis
    proof (cases "ackd s topic sub (sm_message_id e)")
      case True
      with np Cons less [of np] show ?thesis
        by (subst next_unacked_candidate.simps) simp
    next
      case False
      with np Cons show ?thesis
        by (subst next_unacked_candidate.simps) (simp, blast)
    qed
  qed
qed

lemma next_unacked_initial:
  assumes "inv s"
  shows "\<exists>q c. next_unacked_candidate st s topic sub None = Some (Inr c, q) \<and>
    (case dropWhile (\<lambda>m. ackd s topic sub (sm_message_id m)) (log s topic) of
       [] \<Rightarrow> c = None \<and> q = None
     | m # ms \<Rightarrow> \<exists>np. c = Some (candidate_of m np) \<and> q = Some (position_of (sm_message_id m)) \<and>
         log_from (log s topic) np = ms)"
proof (cases "dropWhile (\<lambda>m. ackd s topic sub (sm_message_id m)) (log s topic)")
  case Nil
  then have "find (\<lambda>m. \<not> ackd s topic sub (sm_message_id m)) (log s topic) = None"
    by (simp add: find_None_iff)
  with Nil show ?thesis
    by (subst next_unacked_candidate.simps) (simp add: first_unacked_law [OF assms] del: dropWhile_eq_Nil_conv)
next
  case (Cons m ms)
  let ?p = "position_of (sm_message_id m)"
  have find: "find (\<lambda>m. \<not> ackd s topic sub (sm_message_id m)) (log s topic) = Some m"
    using Cons by (simp add: find_dropWhile comp_def)
  have "\<not> ackd s topic sub (sm_message_id m)" using Cons by (auto dest: dropWhile_eq_Cons_conv [THEN iffD1])
  obtain xs where xs: "log s topic = xs @ m # ms"
    using Cons takeWhile_dropWhile_id by metis
  have "log_from (log s topic) ?p = m # ms"
    using sorted_filter_ge_drop [of "\<lambda>m. id_key (sm_message_id m)" xs m ms] log_sorted [OF assms, of topic]
    by (simp only: log_from_def pos_key_position_of xs)
  from read_candidate_entry_Cons [OF assms this] obtain np where
    "read_candidate_entry st s topic sub ?p = Inr (Some (m, np, ackd s topic sub (sm_message_id m)))"
    "log_from (log s topic) np = ms" by blast
  with find Cons \<open>\<not> ackd s topic sub (sm_message_id m)\<close> show ?thesis
    by (subst next_unacked_candidate.simps) (simp add: first_unacked_law [OF assms], blast)
qed

text \<open>Both cases at once: what is left to read splits into acknowledged entries that are skipped and
  the entry that is offered.\<close>

lemma next_candidate:
  assumes "inv s"
  shows "\<exists>q c pre. next_unacked_candidate st s topic sub rp = Some (Inr c, q) \<and>
    to_read (log s topic) rp = pre @ to_read (log s topic) q \<and> (\<forall>m \<in> set pre. ackd s topic sub (sm_message_id m)) \<and>
    (case c of
       None \<Rightarrow> \<forall>m \<in> set (to_read (log s topic) q). ackd s topic sub (sm_message_id m)
     | Some c \<Rightarrow> \<exists>m np ms. to_read (log s topic) q = m # ms \<and> c = candidate_of m np \<and>
         \<not> ackd s topic sub (sm_message_id m) \<and> log_from (log s topic) np = ms)"
proof (cases rp)
  case (Some p)
  let ?A = "\<lambda>m. ackd s topic sub (sm_message_id m)"
  from next_unacked_from [OF assms, of topic sub p] obtain q c where
    run: "next_unacked_candidate st s topic sub rp = Some (Inr c, Some q)" and
    q: "log_from (log s topic) q = dropWhile ?A (log_from (log s topic) p)" and
    c: "case log_from (log s topic) q of [] \<Rightarrow> c = None
     | m # ms \<Rightarrow> \<exists>np. c = Some (candidate_of m np) \<and> log_from (log s topic) np = ms" unfolding Some by blast
  have pre: "to_read (log s topic) rp = takeWhile ?A (log_from (log s topic) p) @ to_read (log s topic) (Some q)"
    by (simp add: Some q)
  have "case c of
       None \<Rightarrow> \<forall>m \<in> set (to_read (log s topic) (Some q)). ?A m
     | Some c \<Rightarrow> \<exists>m np ms. to_read (log s topic) (Some q) = m # ms \<and> c = candidate_of m np \<and> \<not> ?A m \<and>
         log_from (log s topic) np = ms"
  proof (cases "log_from (log s topic) q")
    case (Cons m ms)
    with q have "\<not> ?A m" using dropWhile_eq_Cons_conv [of ?A "log_from (log s topic) p" m ms] by simp
    with c Cons show ?thesis by auto
  qed (use c in simp)
  with run pre show ?thesis by (blast dest: set_takeWhileD)
next
  case None
  let ?A = "\<lambda>m. ackd s topic sub (sm_message_id m)"
  from next_unacked_initial [OF assms, of topic sub] obtain q c where
    run: "next_unacked_candidate st s topic sub rp = Some (Inr c, q)" and
    c: "case dropWhile ?A (log s topic) of
       [] \<Rightarrow> c = None \<and> q = None
     | m # ms \<Rightarrow> \<exists>np. c = Some (candidate_of m np) \<and> q = Some (position_of (sm_message_id m)) \<and>
         log_from (log s topic) np = ms" unfolding None by blast
  show ?thesis
  proof (cases "dropWhile ?A (log s topic)")
    case Nil
    with c run show ?thesis by (auto simp: None)
  next
    case (Cons m ms)
    have split: "log s topic = takeWhile ?A (log s topic) @ m # ms" using Cons takeWhile_dropWhile_id by metis
    have "log_from (log s topic) (position_of (sm_message_id m)) = m # ms"
      using sorted_filter_ge_drop [of "\<lambda>m. id_key (sm_message_id m)" "takeWhile ?A (log s topic)" m ms]
        log_sorted [OF assms, of topic]
      by (simp only: log_from_def pos_key_position_of split [symmetric])
    with c run split Cons dropWhile_eq_Cons_conv [of ?A "log s topic" m ms] show ?thesis unfolding None
      by (intro exI [of _ q] exI [of _ c] exI [of _ "takeWhile ?A (log s topic)"]) (auto dest: set_takeWhileD)
  qed
qed

end

section \<open>Properties\<close>

text \<open>C18: On the in-memory storage the read loop always returns. From a read position it
  skips the acknowledged entries, leaves the read position at the first entry that is not
  acknowledged, offers exactly that entry, and pairs it with a next position from which the
  entries after it, and no others, remain to be read.\<close>

theorem mem_next_unacked_candidate:
  assumes "mem_wf s"
  shows "\<exists>q c. next_unacked_candidate mem_storage s topic sub (Some p) = Some (Inr c, Some q) \<and>
    log_from (mem_get_message_entries s topic) q =
      dropWhile (\<lambda>m. is_acknowledged_inner s topic sub (sm_message_id m))
        (log_from (mem_get_message_entries s topic) p) \<and>
    (case log_from (mem_get_message_entries s topic) q of [] \<Rightarrow> c = None
     | m # ms \<Rightarrow> \<exists>np. c = Some (candidate_of m np) \<and>
         log_from (mem_get_message_entries s topic) np = ms)"
  by (rule mem.next_unacked_from [OF assms])

theorem mem_next_unacked_candidate_witness:
  "\<exists>q c. next_unacked_candidate mem_storage mem_new ''t'' ''sub'' (Some (ManagedLedgerPosition 0 0 (-1))) =
     Some (Inr c, Some q) \<and> c = None"
  using mem_next_unacked_candidate [OF mem_wf_new, of "''t''" "''sub''" "ManagedLedgerPosition 0 0 (-1)"]
  by (auto simp: mem_get_message_entries_def mem_get_messages_def mem_new_def factory_messages_def
      InMemoryManagedLedgerFactory_new_def log_from_def)

text \<open>C22: Without a read position the loop starts at the first unacknowledged entry of
  the subscription, offers it and stores its position; if every entry is acknowledged it offers
  nothing and the read position stays unset.\<close>

theorem mem_next_unacked_initial:
  assumes "mem_wf s"
  shows "\<exists>q c. next_unacked_candidate mem_storage s topic sub None = Some (Inr c, q) \<and>
    (case dropWhile (\<lambda>m. is_acknowledged_inner s topic sub (sm_message_id m))
            (mem_get_message_entries s topic) of
       [] \<Rightarrow> c = None \<and> q = None
     | m # ms \<Rightarrow> \<exists>np. c = Some (candidate_of m np) \<and> q = Some (position_of (sm_message_id m)) \<and>
         log_from (mem_get_message_entries s topic) np = ms)"
  by (rule mem.next_unacked_initial [OF assms])

theorem mem_next_unacked_initial_witness:
  "\<exists>np. next_unacked_candidate mem_storage (snd (mem_append_message mem_new ''t'' (-1) [7])) ''t'' ''sub'' None =
     Some (Inr (Some (candidate_of (StoredMessage_new (MessageId 0 0 (-1)) [] [7]) np)),
       Some (ManagedLedgerPosition 0 0 (-1)))"
proof -
  let ?s = "snd (mem_append_message mem_new ''t'' (-1) [7])"
  have "mem_room mem_new ''t''"
    by (simp add: mem_room_def mem_new_def InMemoryManagedLedgerFactory_new_def mem_messages_def
        factory_messages_def u64_cap_def)
  then have wf: "mem_wf ?s" using mem_wf_append [OF mem_wf_new] by (simp add: mem_append_message_eq)
  have log: "mem_get_message_entries ?s ''t'' = [StoredMessage_new (MessageId 0 0 (-1)) [] [7]]"
    by (simp add: eval_simps Let_def mem_get_message_entries_def mem_get_messages_def mem_stored_message_def)
  have "\<not> is_acknowledged_inner ?s ''t'' ''sub'' (MessageId 0 0 (-1))"
    by (simp add: eval_simps Let_def)
  with mem_next_unacked_initial [OF wf, of "''t''" "''sub''"] log show ?thesis
    by (auto simp: StoredMessage_new_def position_of_def)
qed

end
