(* ===== verification/PL_RocksMeta.thy ===== *)
theory PL_RocksMeta
  imports PL_SubscriptionCursor "HOL-Library.Countable"
begin

text \<open>
  Keys and stored metadata of the RocksDB backend (\<open>managed-ledger-rocksdb/src/keys.rs\<close> and
  \<open>metadata.rs\<close>). Strings are lists of bytes (\<open>char\<close>). RocksDB itself, the protobuf and
  bincode codecs and the clock are code the sources only call: they are the fields of the
  record \<open>rocks_ext\<close>, an argument of every definition that uses them, and what is relied on
  is stated as the predicates \<open>db_laws\<close> and \<open>codec_laws\<close>.
\<close>

section \<open>Keys\<close>

definition managed_cursor_key :: "string \<Rightarrow> string \<Rightarrow> string" where
  "managed_cursor_key ledger_name cursor_name =
     ''/managed-ledgers/'' @ ledger_name @ ''/'' @ cursor_name"

definition managed_ledger_key :: "string \<Rightarrow> string" where
  "managed_ledger_key ledger_name = ''/managed-ledgers/'' @ ledger_name"

definition ledger_id_allocator_key :: string where
  "ledger_id_allocator_key = ''managed_ledger|next_ledger_id''"

definition managed_entry_key :: "u64 \<Rightarrow> u64 \<Rightarrow> string" where
  "managed_entry_key lid eid = ''entry|'' @ dec_string (unat lid) @ ''|'' @ dec_string (unat eid)"

text \<open>\<open>str::split_once\<close>: the text before and after the first occurrence of a separator.\<close>

fun split_once :: "string \<Rightarrow> string \<Rightarrow> (string \<times> string) option" where
  "split_once sep [] = (if sep = [] then Some ([], []) else None)"
| "split_once sep (c # cs) =
     (if take (length sep) (c # cs) = sep then Some ([], drop (length sep) (c # cs))
      else map_option (\<lambda>(a, b). (c # a, b)) (split_once sep cs))"

definition managed_ledger_name :: "string \<Rightarrow> string" where
  "managed_ledger_name topic =
     (case split_once ''://'' topic of
        None \<Rightarrow> topic
      | Some (domain, rest) \<Rightarrow>
          (case split_once ''/'' rest of
             None \<Rightarrow> topic
           | Some (tenant, rest') \<Rightarrow>
               (case split_once ''/'' rest' of
                  None \<Rightarrow> topic
                | Some (namespace, local_name) \<Rightarrow>
                    tenant @ ''/'' @ namespace @ ''/'' @ domain @ ''/'' @ local_name)))"

definition is_ascii_alphanumeric :: "char \<Rightarrow> bool" where
  "is_ascii_alphanumeric c =
     (let b = of_char c :: nat in 48 \<le> b \<and> b \<le> 57 \<or> 65 \<le> b \<and> b \<le> 90 \<or> 97 \<le> b \<and> b \<le> 122)"

definition plain_byte :: "char \<Rightarrow> bool" where
  "plain_byte c \<longleftrightarrow> is_ascii_alphanumeric c \<or> c \<in> {CHR ''-'', CHR ''.'', CHR ''_'', CHR ''~''}"

definition hex_digit :: "nat \<Rightarrow> char" where
  "hex_digit d = ''0123456789ABCDEF'' ! d"

definition encode_byte :: "char \<Rightarrow> string" where
  "encode_byte c =
     (if plain_byte c then [c]
      else [CHR ''%'', hex_digit (of_char c div 16), hex_digit (of_char c mod 16)])"

definition encode_cursor_name :: "string \<Rightarrow> string" where
  "encode_cursor_name name = concat (map encode_byte name)"

section \<open>Stored metadata\<close>

record StoredEntryLocation =
  loc_file_id :: u64
  loc_offset :: u64
  loc_len :: u64
  loc_checksum :: u64
  loc_partition :: i32

text \<open>
  The protobuf messages generated from \<open>MLDataFormats.proto\<close>, with the fields the sources
  set to something other than a constant; \<open>i64\<close> is an \<open>int\<close>.
\<close>

record ManagedCursorInfo =
  mark_delete_ledger_id :: "int option"
  mark_delete_entry_id :: "int option"
  individual_deleted_messages :: "((int \<times> int) \<times> (int \<times> int)) list"

record LedgerInfo =
  li_ledger_id :: int
  li_entries :: "int option"
  li_size :: "int option"
  li_timestamp :: "int option"

text \<open>\<open>x as i64\<close> for \<open>x: u64\<close>, and \<open>try_into\<close> back.\<close>

definition u64_as_i64 :: "u64 \<Rightarrow> int" where
  "u64_as_i64 x = sint x"

definition u64_try_from :: "int \<Rightarrow> u64 result" where
  "u64_try_from i = (if i < 0 then Inl IntError else Inr (word_of_int i))"

definition position_range ::
    "ManagedLedgerPosition \<Rightarrow> ManagedLedgerPosition \<Rightarrow> (int \<times> int) \<times> (int \<times> int)" where
  "position_range s e =
     ((u64_as_i64 (ledger_id s), u64_as_i64 (entry_id s)), (u64_as_i64 (ledger_id e), u64_as_i64 (entry_id e)))"

definition cursor_info_of :: "ManagedCursorState \<Rightarrow> ManagedCursorInfo" where
  "cursor_info_of st =
     \<lparr>mark_delete_ledger_id = map_option (\<lambda>p. u64_as_i64 (ledger_id p)) (mcs_mark_delete st),
      mark_delete_entry_id = map_option (\<lambda>p. u64_as_i64 (entry_id p)) (mcs_mark_delete st),
      individual_deleted_messages =
        map (\<lambda>(s, e). position_range s e) (ranges (individually_deleted_entries st))\<rparr>"

definition try_position :: "int \<Rightarrow> int \<Rightarrow> ManagedLedgerPosition result" where
  "try_position lid eid =
     and_then (u64_try_from lid) (\<lambda>l. and_then (u64_try_from eid) (\<lambda>e.
       Inr (ManagedLedgerPosition l e (-1))))"

definition decode_delete_range ::
    "ManagedLedgerPosition RangeSet \<Rightarrow> (int \<times> int) \<times> (int \<times> int) \<Rightarrow> ManagedLedgerPosition RangeSet result" where
  "decode_delete_range rs r =
     (case r of ((ll, le), (ul, ue)) \<Rightarrow>
        if ll \<noteq> ul
        then Inl (Msg ''cursor delete range spans multiple ledgers, which is unsupported'')
        else and_then (try_position ll le) (\<lambda>lo. and_then (try_position ul ue) (\<lambda>up.
               Inr (rs_insert_range succ_position rs lo up))))"

definition cursor_state_of :: "ManagedCursorInfo \<Rightarrow> ManagedCursorState result" where
  "cursor_state_of info =
     and_then
       (case (mark_delete_ledger_id info, mark_delete_entry_id info) of
          (Some lid, Some eid) \<Rightarrow> and_then (try_position lid eid) (\<lambda>p. Inr (Some p))
        | _ \<Rightarrow> Inr None)
       (\<lambda>md. and_then (try_fold decode_delete_range rs_new (individual_deleted_messages info))
          (\<lambda>rs. Inr \<lparr>mcs_mark_delete = md, individually_deleted_entries = rs\<rparr>))"

record StoredLedgerInfo =
  sl_ledger_id :: u64
  sl_entries :: u64
  sl_size :: u64
  sl_timestamp :: u64
  sl_is_offloaded :: bool
  sl_offloaded_context_uuid :: "string option"

record StoredManagedLedgerInfo =
  info_ledgers :: "StoredLedgerInfo list"

definition StoredLedgerInfo_new :: "u64 \<Rightarrow> StoredLedgerInfo" where
  "StoredLedgerInfo_new lid =
     \<lparr>sl_ledger_id = lid, sl_entries = 0, sl_size = 0, sl_timestamp = 0, sl_is_offloaded = False,
      sl_offloaded_context_uuid = None\<rparr>"

definition StoredManagedLedgerInfo_new :: "u64 \<Rightarrow> StoredManagedLedgerInfo" where
  "StoredManagedLedgerInfo_new lid = \<lparr>info_ledgers = [StoredLedgerInfo_new lid]\<rparr>"

text \<open>
  An update through \<open>current_ledger_mut\<close>, the last ledger. On an empty list the sources
  panic; every caller initialises the list first.
\<close>

definition update_current_ledger ::
    "(StoredLedgerInfo \<Rightarrow> StoredLedgerInfo) \<Rightarrow> StoredManagedLedgerInfo \<Rightarrow> StoredManagedLedgerInfo" where
  "update_current_ledger f info =
     (if info_ledgers info = [] then info
      else info\<lparr>info_ledgers := butlast (info_ledgers info) @ [f (last (info_ledgers info))]\<rparr>)"

definition ensure_initialized :: "StoredManagedLedgerInfo \<Rightarrow> u64 \<Rightarrow> StoredManagedLedgerInfo" where
  "ensure_initialized info lid =
     (if info_ledgers info = [] then info\<lparr>info_ledgers := info_ledgers info @ [StoredLedgerInfo_new lid]\<rparr>
      else info)"

definition current_ledger_is_full :: "StoredManagedLedgerInfo \<Rightarrow> u64 \<Rightarrow> bool" where
  "current_ledger_is_full info max_entries \<longleftrightarrow> max_entries \<le> sl_entries (last (info_ledgers info))"

definition roll_over_current_ledger :: "u64 \<Rightarrow> StoredManagedLedgerInfo \<Rightarrow> u64 \<Rightarrow> StoredManagedLedgerInfo" where
  "roll_over_current_ledger now info next_lid =
     (let info' = update_current_ledger (\<lambda>l. l\<lparr>sl_timestamp := now\<rparr>) info
      in info'\<lparr>info_ledgers := info_ledgers info' @ [StoredLedgerInfo_new next_lid]\<rparr>)"

definition ledger_info_of :: "StoredManagedLedgerInfo \<Rightarrow> LedgerInfo list" where
  "ledger_info_of info =
     map (\<lambda>l. \<lparr>li_ledger_id = u64_as_i64 (sl_ledger_id l), li_entries = Some (u64_as_i64 (sl_entries l)),
       li_size = Some (u64_as_i64 (sl_size l)), li_timestamp = Some (u64_as_i64 (sl_timestamp l))\<rparr>)
     (info_ledgers info)"

definition unwrap_or_zero :: "int option \<Rightarrow> int" where
  "unwrap_or_zero x = (case x of Some i \<Rightarrow> i | None \<Rightarrow> 0)"

definition managed_ledger_info_of :: "LedgerInfo list \<Rightarrow> StoredManagedLedgerInfo result" where
  "managed_ledger_info_of infos =
     and_then (try_map (\<lambda>l.
       and_then (u64_try_from (li_ledger_id l)) (\<lambda>lid.
       and_then (u64_try_from (unwrap_or_zero (li_entries l))) (\<lambda>es.
       and_then (u64_try_from (unwrap_or_zero (li_size l))) (\<lambda>sz.
       and_then (u64_try_from (unwrap_or_zero (li_timestamp l))) (\<lambda>ts.
       Inr \<lparr>sl_ledger_id = lid, sl_entries = es, sl_size = sz, sl_timestamp = ts,
         sl_is_offloaded = False, sl_offloaded_context_uuid = None\<rparr>))))) infos)
     (\<lambda>ls. Inr \<lparr>info_ledgers = ls\<rparr>)"

section \<open>Code the backend calls\<close>

record 'db rocks_ext =
  db_get :: "'db \<Rightarrow> string \<Rightarrow> bytes option result"
  db_put :: "'db \<Rightarrow> string \<Rightarrow> bytes \<Rightarrow> unit result \<times> 'db"
  db_delete :: "'db \<Rightarrow> string \<Rightarrow> unit result \<times> 'db"
  db_write :: "'db \<Rightarrow> (string \<times> bytes) list \<Rightarrow> unit result \<times> 'db"
  enc_cursor_info :: "ManagedCursorInfo \<Rightarrow> bytes"
  dec_cursor_info :: "bytes \<Rightarrow> ManagedCursorInfo result"
  enc_ledger_info :: "LedgerInfo list \<Rightarrow> bytes"
  dec_ledger_info :: "bytes \<Rightarrow> LedgerInfo list result"
  ser_location :: "StoredEntryLocation \<Rightarrow> bytes result"
  de_location :: "bytes \<Rightarrow> StoredEntryLocation result"
  ser_u64 :: "u64 \<Rightarrow> bytes result"
  de_u64 :: "bytes \<Rightarrow> u64 result"
  now_millis :: u64

text \<open>
  A successful write is visible to later reads and touches no other key; a failed one leaves
  the database as it was; a write batch is atomic.
\<close>

definition db_laws :: "'db rocks_ext \<Rightarrow> bool" where
  "db_laws ext \<longleftrightarrow>
     (\<forall>db k v db'. db_put ext db k v = (Inr (), db') \<longrightarrow>
        (\<forall>k'. db_get ext db' k' = (if k' = k then Inr (Some v) else db_get ext db k'))) \<and>
     (\<forall>db k db'. db_delete ext db k = (Inr (), db') \<longrightarrow>
        (\<forall>k'. db_get ext db' k' = (if k' = k then Inr None else db_get ext db k'))) \<and>
     (\<forall>db ws db'. db_write ext db ws = (Inr (), db') \<longrightarrow>
        (\<forall>k'. db_get ext db' k' =
           (case map_of (rev ws) k' of Some v \<Rightarrow> Inr (Some v) | None \<Rightarrow> db_get ext db k'))) \<and>
     (\<forall>db k v e db'. db_put ext db k v = (Inl e, db') \<longrightarrow> db' = db) \<and>
     (\<forall>db k e db'. db_delete ext db k = (Inl e, db') \<longrightarrow> db' = db) \<and>
     (\<forall>db ws e db'. db_write ext db ws = (Inl e, db') \<longrightarrow> db' = db)"

definition codec_laws :: "'db rocks_ext \<Rightarrow> bool" where
  "codec_laws ext \<longleftrightarrow>
     (\<forall>x. dec_cursor_info ext (enc_cursor_info ext x) = Inr x) \<and>
     (\<forall>x. dec_ledger_info ext (enc_ledger_info ext x) = Inr x) \<and>
     (\<forall>x b. ser_location ext x = Inr b \<longrightarrow> de_location ext b = Inr x) \<and>
     (\<forall>x b. ser_u64 ext x = Inr b \<longrightarrow> de_u64 ext b = Inr x)"

definition encode_cursor_state :: "'db rocks_ext \<Rightarrow> ManagedCursorState \<Rightarrow> bytes" where
  "encode_cursor_state ext st = enc_cursor_info ext (cursor_info_of st)"

definition decode_cursor_state :: "'db rocks_ext \<Rightarrow> bytes \<Rightarrow> ManagedCursorState result" where
  "decode_cursor_state ext b = and_then (dec_cursor_info ext b) cursor_state_of"

definition encode_ledger_info :: "'db rocks_ext \<Rightarrow> StoredManagedLedgerInfo \<Rightarrow> bytes" where
  "encode_ledger_info ext info = enc_ledger_info ext (ledger_info_of info)"

definition decode_ledger_info :: "'db rocks_ext \<Rightarrow> bytes \<Rightarrow> StoredManagedLedgerInfo result" where
  "decode_ledger_info ext b = and_then (dec_ledger_info ext b) managed_ledger_info_of"

section \<open>Round trips\<close>

lemma u64_roundtrip:
  assumes "uint x < 2 ^ 63"
  shows "u64_try_from (u64_as_i64 x) = Inr x"
proof -
  have "- (2 ^ 63) \<le> uint x" by (rule order_trans [OF _ uint_ge_0 [of x]]) simp
  then have "signed_take_bit 63 (uint x) = uint x"
    by (rule signed_take_bit_int_eq_self) (use assms in simp)
  then show ?thesis by (simp add: u64_try_from_def u64_as_i64_def sint_uint)
qed

text \<open>Ids and counters below \<open>2^63\<close> survive the signed fields of the protobuf messages.\<close>

definition pos_i64 :: "ManagedLedgerPosition \<Rightarrow> bool" where
  "pos_i64 p \<longleftrightarrow> uint (ledger_id p) < 2 ^ 63 \<and> uint (entry_id p) < 2 ^ 63 \<and> pos_partition p = -1"

definition ledger_i64 :: "StoredLedgerInfo \<Rightarrow> bool" where
  "ledger_i64 l \<longleftrightarrow> uint (sl_ledger_id l) < 2 ^ 63 \<and> uint (sl_entries l) < 2 ^ 63 \<and>
     uint (sl_size l) < 2 ^ 63 \<and> uint (sl_timestamp l) < 2 ^ 63 \<and>
     \<not> sl_is_offloaded l \<and> sl_offloaded_context_uuid l = None"

lemma try_position_roundtrip:
  "pos_i64 p \<Longrightarrow> try_position (u64_as_i64 (ledger_id p)) (u64_as_i64 (entry_id p)) = Inr p"
  by (cases p) (simp add: pos_i64_def try_position_def u64_roundtrip)

lemma ledger_info_roundtrip:
  assumes "\<forall>l \<in> set (info_ledgers info). ledger_i64 l"
  shows "managed_ledger_info_of (ledger_info_of info) = Inr info"
proof -
  have "try_map (\<lambda>l.
       and_then (u64_try_from (li_ledger_id l)) (\<lambda>lid.
       and_then (u64_try_from (unwrap_or_zero (li_entries l))) (\<lambda>es.
       and_then (u64_try_from (unwrap_or_zero (li_size l))) (\<lambda>sz.
       and_then (u64_try_from (unwrap_or_zero (li_timestamp l))) (\<lambda>ts.
       Inr \<lparr>sl_ledger_id = lid, sl_entries = es, sl_size = sz, sl_timestamp = ts,
         sl_is_offloaded = False, sl_offloaded_context_uuid = None\<rparr>)))))
     (map (\<lambda>l. \<lparr>li_ledger_id = u64_as_i64 (sl_ledger_id l), li_entries = Some (u64_as_i64 (sl_entries l)),
       li_size = Some (u64_as_i64 (sl_size l)), li_timestamp = Some (u64_as_i64 (sl_timestamp l))\<rparr>) ls) = Inr ls"
    if "\<forall>l \<in> set ls. ledger_i64 l" for ls
    using that by (induction ls) (auto simp: ledger_i64_def unwrap_or_zero_def u64_roundtrip)
  from this [OF assms] show ?thesis by (simp add: managed_ledger_info_of_def ledger_info_of_def)
qed

text \<open>Re-inserting well-formed ranges in order rebuilds the same range set.\<close>

lemma bts_insert_snoc: "bts_ok (xs @ [x]) \<Longrightarrow> bts_insert x xs = xs @ [x]"
proof (induction xs)
  case (Cons y ys)
  then have "y < x" "bts_ok (ys @ [x])" by (auto simp: bts_ok_def)
  with Cons.IH show ?case by auto
qed simp

lemma rs_insert_range_snoc:
  assumes wf: "rs_wf sc ok \<lparr>ranges = R @ [(s, e)]\<rparr>"
  shows "rs_insert_range sc \<lparr>ranges = R\<rparr> s e = \<lparr>ranges = R @ [(s, e)]\<rparr>"
proof -
  have "s \<le> e" using rs_wf_range [OF wf, of s e] by simp
  have bts: "bts_ok (R @ [(s, e)])" using rs_wf_ok [OF wf] by simp
  have below: "e' < s \<and> sc e' \<noteq> Some s" if mem: "(s', e') \<in> set R" for s' e'
  proof -
    have "(s', e') < (s, e)" using bts mem by (auto simp: bts_ok_def sorted_wrt_append)
    then have "s' \<le> s" "(s', e') \<noteq> (s, e)" by auto
    with rs_wf_apart [OF wf, of s' e' s e] mem show ?thesis by auto
  qed
  have lt: "s' < s" if "(s', e') \<in> set R" for s' e'
    using below [OF that] rs_wf_range [OF wf, of s' e'] that by auto
  then have "bts_first_ge (s, s) R = None" by (auto simp: bts_first_ge_None)
  then have loop: "merge_loop sc s e R = (s, e, R)" by (subst merge_loop.simps) (simp add: Let_def)
  have "sc e' \<noteq> Some s" if "bts_last_le (s, s) R = Some (s', e')" for s' e'
    using bts_last_le_mem [OF that] below by auto
  then show ?thesis
    using loop \<open>s \<le> e\<close> bts
    by (auto simp: rs_insert_range_def bts_insert_snoc split: option.splits)
qed

lemma decode_ranges_roundtrip:
  assumes "rs_wf succ_position (\<lambda>p. pos_partition p = -1) \<lparr>ranges = R\<rparr>"
    and "\<forall>(s, e) \<in> set R. pos_i64 s \<and> pos_i64 e \<and> ledger_id s = ledger_id e"
  shows "try_fold decode_delete_range rs_new (map (\<lambda>(s, e). position_range s e) R) = Inr \<lparr>ranges = R\<rparr>"
  using assms
proof (induction R rule: rev_induct)
  case Nil
  then show ?case by (simp add: rs_new_def)
next
  case (snoc r R)
  obtain s e where [simp]: "r = (s, e)" by (cases r)
  have wfR: "rs_wf succ_position (\<lambda>p. pos_partition p = -1) \<lparr>ranges = R\<rparr>"
    by (rule rs_wf_subset [OF snoc.prems(1)])
       (use rs_wf_ok [OF snoc.prems(1)] in \<open>auto simp: bts_ok_def sorted_wrt_append\<close>)
  have i64: "pos_i64 s" "pos_i64 e" and led: "ledger_id s = ledger_id e" using snoc.prems(2) by auto
  have "decode_delete_range \<lparr>ranges = R\<rparr> (position_range s e) = Inr \<lparr>ranges = R @ [(s, e)]\<rparr>"
    using snoc.prems(1) rs_insert_range_snoc [of succ_position "\<lambda>p. pos_partition p = -1" R s e]
      try_position_roundtrip [OF i64(1)] try_position_roundtrip [OF i64(2)]
    by (simp add: decode_delete_range_def position_range_def led)
  with snoc.IH [OF wfR] snoc.prems(2) show ?case by (simp add: try_fold_append)
qed

lemma cursor_state_roundtrip:
  assumes "rs_wf succ_position (\<lambda>p. pos_partition p = -1) (individually_deleted_entries st)"
    and "\<forall>(s, e) \<in> set (ranges (individually_deleted_entries st)).
      pos_i64 s \<and> pos_i64 e \<and> ledger_id s = ledger_id e"
    and "\<forall>p. mcs_mark_delete st = Some p \<longrightarrow> pos_i64 p"
  shows "cursor_state_of (cursor_info_of st) = Inr st"
proof -
  obtain R where R: "individually_deleted_entries st = \<lparr>ranges = R\<rparr>"
    by (cases "individually_deleted_entries st")
  have "try_fold decode_delete_range rs_new (map (\<lambda>(s, e). position_range s e) R) = Inr \<lparr>ranges = R\<rparr>"
    using decode_ranges_roundtrip assms(1,2) R by simp
  then show ?thesis
    using R assms(3)
    by (cases st; cases "mcs_mark_delete st")
       (auto simp: cursor_state_of_def cursor_info_of_def try_position_roundtrip)
qed

section \<open>Keys are unambiguous\<close>

lemma of_digit_char: "d < 10 \<Longrightarrow> of_char (digit_char d) = 48 + d"
  by (simp add: digit_char_def)

lemma dec_string_not_bar: "CHR ''|'' \<notin> set (dec_string n)"
proof -
  have "digit_char d \<noteq> CHR ''|''" if "d < 10" for d
    using of_digit_char [OF that] that by auto
  then show ?thesis
    by (induction n rule: dec_string.induct) (auto simp: dec_string.simps [of "n::nat" for n] dest: sym)
qed

definition dec_val :: "string \<Rightarrow> nat" where
  "dec_val s = foldl (\<lambda>a c. 10 * a + (of_char c - 48)) 0 s"

lemma dec_val_dec_string: "dec_val (dec_string n) = n"
  by (induction n rule: dec_string.induct) (subst dec_string.simps, simp add: dec_val_def of_digit_char)

lemma dec_string_inject [simp]: "dec_string m = dec_string n \<longleftrightarrow> m = n"
  by (metis dec_val_dec_string)

lemma managed_entry_key_inject:
  "managed_entry_key l e = managed_entry_key l' e' \<longleftrightarrow> l = l' \<and> e = e'"
  by (simp add: managed_entry_key_def split_first_unique dec_string_not_bar word_unat_eq_iff)

lemma hex_digit_inject:
  assumes "d < 16" "d' < 16" "hex_digit d = hex_digit d'"
  shows "d = d'"
  using assms nth_eq_iff_index_eq [of "''0123456789ABCDEF''" d d'] by (simp add: hex_digit_def)

lemma char_nibble: "of_char c div 16 < (16 :: nat)" for c :: char
  using mod_less_divisor [of 256 "of_char c :: nat"] by (simp add: less_mult_imp_div_less)

lemma percent_not_plain: "\<not> plain_byte CHR ''%''"
  by (simp add: plain_byte_def is_ascii_alphanumeric_def)

text \<open>The escaped bytes form a prefix code, so the encoding of cursor names is injective.\<close>

lemma encode_byte_prefix:
  assumes "encode_byte c @ xs = encode_byte d @ ys"
  shows "c = d \<and> xs = ys"
proof (cases "plain_byte c \<or> plain_byte d")
  case True
  with assms percent_not_plain show ?thesis by (auto simp: encode_byte_def split: if_splits)
next
  case False
  from False assms have "hex_digit (of_char c div 16) = hex_digit (of_char d div 16)"
    "hex_digit (of_char c mod 16) = hex_digit (of_char d mod 16)" "xs = ys"
    by (auto simp: encode_byte_def)
  moreover from this have "of_char c div 16 = (of_char d div 16 :: nat)" "of_char c mod 16 = (of_char d mod 16 :: nat)"
    by (auto intro!: hex_digit_inject char_nibble)
  ultimately show ?thesis by (metis div_mult_mod_eq of_char_eq_iff)
qed

lemma encode_byte_not_Nil: "encode_byte c \<noteq> []"
  by (simp add: encode_byte_def)

lemma encode_cursor_name_inject: "encode_cursor_name a = encode_cursor_name b \<longleftrightarrow> a = b"
proof
  show "encode_cursor_name a = encode_cursor_name b \<Longrightarrow> a = b"
  proof (induction a arbitrary: b)
    case Nil
    then show ?case by (cases b) (auto simp: encode_cursor_name_def encode_byte_not_Nil)
  next
    case (Cons c a)
    then show ?case
      by (cases b) (auto simp: encode_cursor_name_def encode_byte_not_Nil dest: encode_byte_prefix)
  qed
qed simp

lemma encode_cursor_name_no_slash: "CHR ''/'' \<notin> set (encode_cursor_name n)"
proof -
  have "CHR ''/'' \<notin> set (encode_byte c)" for c
  proof -
    have "CHR ''/'' \<noteq> hex_digit d" if "d < 16" for d
      using that nth_mem [of d "''0123456789ABCDEF''"] by (auto simp: hex_digit_def)
    moreover have "\<not> plain_byte CHR ''/''" by (simp add: plain_byte_def is_ascii_alphanumeric_def)
    ultimately show ?thesis
      using char_nibble [of c] by (auto simp: encode_byte_def)
  qed
  then show ?thesis by (auto simp: encode_cursor_name_def)
qed

lemma cursor_key_inject:
  "managed_cursor_key l (encode_cursor_name c) = managed_cursor_key l' (encode_cursor_name c') \<longleftrightarrow>
   l = l' \<and> c = c'"
  by (simp add: managed_cursor_key_def split_last_unique encode_cursor_name_no_slash
      encode_cursor_name_inject)

section \<open>A reference instance\<close>

text \<open>
  The laws are satisfiable: a finite map as the database, and codecs that write the number
  of a value as that many bytes.
\<close>

definition num_enc :: "'a::countable \<Rightarrow> bytes" where
  "num_enc x = replicate (to_nat x) 0"

definition num_dec :: "bytes \<Rightarrow> 'a::countable" where
  "num_dec b = from_nat (length b)"

lemma num_dec_enc [simp]: "num_dec (num_enc x) = x"
  by (simp add: num_dec_def num_enc_def)

definition cursor_info_tuple :: "ManagedCursorInfo \<Rightarrow> int option \<times> int option \<times> ((int \<times> int) \<times> (int \<times> int)) list" where
  "cursor_info_tuple i = (mark_delete_ledger_id i, mark_delete_entry_id i, individual_deleted_messages i)"

definition cursor_info_untuple :: "int option \<times> int option \<times> ((int \<times> int) \<times> (int \<times> int)) list \<Rightarrow> ManagedCursorInfo" where
  "cursor_info_untuple = (\<lambda>(a, b, c). \<lparr>mark_delete_ledger_id = a, mark_delete_entry_id = b, individual_deleted_messages = c\<rparr>)"

definition ledger_info_tuple :: "LedgerInfo \<Rightarrow> int \<times> int option \<times> int option \<times> int option" where
  "ledger_info_tuple i = (li_ledger_id i, li_entries i, li_size i, li_timestamp i)"

definition ledger_info_untuple :: "int \<times> int option \<times> int option \<times> int option \<Rightarrow> LedgerInfo" where
  "ledger_info_untuple = (\<lambda>(a, b, c, d). \<lparr>li_ledger_id = a, li_entries = b, li_size = c, li_timestamp = d\<rparr>)"

definition location_tuple :: "StoredEntryLocation \<Rightarrow> int \<times> int \<times> int \<times> int \<times> int" where
  "location_tuple l = (uint (loc_file_id l), uint (loc_offset l), uint (loc_len l), uint (loc_checksum l), loc_partition l)"

definition location_untuple :: "int \<times> int \<times> int \<times> int \<times> int \<Rightarrow> StoredEntryLocation" where
  "location_untuple = (\<lambda>(a, b, c, d, e). \<lparr>loc_file_id = word_of_int a, loc_offset = word_of_int b,
     loc_len = word_of_int c, loc_checksum = word_of_int d, loc_partition = e\<rparr>)"

definition ref_ext :: "(string \<rightharpoonup> bytes) rocks_ext" where
  "ref_ext = \<lparr>
     db_get = (\<lambda>db k. Inr (db k)),
     db_put = (\<lambda>db k v. (Inr (), db(k \<mapsto> v))),
     db_delete = (\<lambda>db k. (Inr (), db(k := None))),
     db_write = (\<lambda>db ws. (Inr (), fold (\<lambda>(k, v) m. m(k \<mapsto> v)) ws db)),
     enc_cursor_info = (\<lambda>i. num_enc (cursor_info_tuple i)),
     dec_cursor_info = (\<lambda>b. Inr (cursor_info_untuple (num_dec b))),
     enc_ledger_info = (\<lambda>is. num_enc (map ledger_info_tuple is)),
     dec_ledger_info = (\<lambda>b. Inr (map ledger_info_untuple (num_dec b))),
     ser_location = (\<lambda>l. Inr (num_enc (location_tuple l))),
     de_location = (\<lambda>b. Inr (location_untuple (num_dec b))),
     ser_u64 = (\<lambda>x. Inr (num_enc (uint x))),
     de_u64 = (\<lambda>b. Inr (word_of_int (num_dec b))),
     now_millis = 0\<rparr>"

lemma fold_update_map_of:
  "fold (\<lambda>(k, v) m. m(k \<mapsto> v)) ws m k = (case map_of (rev ws) k of Some v \<Rightarrow> Some v | None \<Rightarrow> m k)"
  by (induction ws arbitrary: m) (auto simp: map_add_def split: option.splits)

lemma ref_db_laws [simp]: "db_laws ref_ext"
  by (auto simp: db_laws_def ref_ext_def fold_update_map_of split: option.splits)

lemma ref_codec_laws [simp]: "codec_laws ref_ext"
proof -
  have "map ledger_info_untuple (map ledger_info_tuple is) = is" for "is"
    by (induction "is") (auto simp: ledger_info_tuple_def ledger_info_untuple_def)
  then show ?thesis
    by (auto simp: codec_laws_def ref_ext_def cursor_info_tuple_def cursor_info_untuple_def
        location_tuple_def location_untuple_def comp_def)
qed

section \<open>Properties\<close>

text \<open>C30: Distinct subscriptions have distinct cursor keys, whatever bytes their names
  contain, and distinct entries have distinct entry keys.\<close>

theorem rocks_keys_unambiguous:
  "(managed_cursor_key l (encode_cursor_name c) = managed_cursor_key l' (encode_cursor_name c') \<longleftrightarrow>
     l = l' \<and> c = c') \<and>
   (managed_entry_key i e = managed_entry_key i' e' \<longleftrightarrow> i = i' \<and> e = e')"
  by (simp add: cursor_key_inject managed_entry_key_inject)

text \<open>C29: A cursor state whose ids fit the signed protobuf fields is decoded to exactly
  the state that was encoded: the frontier and the coalesced ranges are rebuilt unchanged.\<close>

theorem cursor_state_codec_roundtrip:
  assumes "codec_laws ext"
    and "rs_wf succ_position (\<lambda>p. pos_partition p = -1) (individually_deleted_entries st)"
    and "\<forall>(s, e) \<in> set (ranges (individually_deleted_entries st)).
      pos_i64 s \<and> pos_i64 e \<and> ledger_id s = ledger_id e"
    and "\<forall>p. mcs_mark_delete st = Some p \<longrightarrow> pos_i64 p"
  shows "decode_cursor_state ext (encode_cursor_state ext st) = Inr st"
  using assms(1) cursor_state_roundtrip [OF assms(2-4)]
  by (simp add: decode_cursor_state_def encode_cursor_state_def codec_laws_def)

theorem cursor_state_codec_roundtrip_witness:
  "let st = \<lparr>mcs_mark_delete = Some (ManagedLedgerPosition 2 7 (-1)),
       individually_deleted_entries = rs_insert succ_position rs_new (ManagedLedgerPosition 2 9 (-1))\<rparr>
   in decode_cursor_state ref_ext (encode_cursor_state ref_ext st) = Inr st"
proof -
  let ?rs = "rs_insert succ_position rs_new (ManagedLedgerPosition 2 9 (-1))"
  let ?st = "\<lparr>mcs_mark_delete = Some (ManagedLedgerPosition 2 7 (-1)), individually_deleted_entries = ?rs\<rparr>"
  have wf: "rs_wf succ_position (\<lambda>p. pos_partition p = -1) (individually_deleted_entries ?st)"
    using position_insert_wf [OF rs_wf_new] by simp
  have "ranges ?rs = [(ManagedLedgerPosition 2 9 (-1), ManagedLedgerPosition 2 9 (-1))]"
    by (simp add: eval_simps)
  then show ?thesis
    using cursor_state_codec_roundtrip [OF ref_codec_laws wf] by (simp add: pos_i64_def)
qed

text \<open>Ledger metadata whose counters fit the signed protobuf fields survives
  encoding and decoding.\<close>

lemma ledger_info_codec_roundtrip:
  assumes "codec_laws ext" "\<forall>l \<in> set (info_ledgers info). ledger_i64 l"
  shows "decode_ledger_info ext (encode_ledger_info ext info) = Inr info"
  using assms(1) ledger_info_roundtrip [OF assms(2)]
  by (simp add: decode_ledger_info_def encode_ledger_info_def codec_laws_def)

lemma ledger_info_codec_roundtrip_witness:
  "decode_ledger_info ref_ext (encode_ledger_info ref_ext (StoredManagedLedgerInfo_new 3)) =
     Inr (StoredManagedLedgerInfo_new 3)"
  by (rule ledger_info_codec_roundtrip)
     (simp_all add: StoredManagedLedgerInfo_new_def StoredLedgerInfo_new_def ledger_i64_def)

text \<open>The metadata key of a topic whose local name contains a slash is the cursor
  key of a subscription of a shorter topic: the ledger metadata of \<open>persistent://t/n/x/c\<close> and the
  cursor \<open>c\<close> of \<open>persistent://t/n/x\<close> are stored under one key.\<close>

lemma cursor_key_collides_with_ledger_key:
  "managed_cursor_key (managed_ledger_name ''persistent://t/n/x'') (encode_cursor_name ''c'') =
     managed_ledger_key (managed_ledger_name ''persistent://t/n/x/c'')"
  by (simp add: managed_cursor_key_def managed_ledger_key_def managed_ledger_name_def
      encode_cursor_name_def encode_byte_def plain_byte_def is_ascii_alphanumeric_def)

end
