(* ===== verification/PL_RocksCursor.thy ===== *)
theory PL_RocksCursor
  imports PL_RocksMeta
begin

text \<open>
  The durable cursor (\<open>managed-ledger-rocksdb/src/cursor.rs\<close>). A cursor object is opened for
  every operation, changed in memory and persisted after each change; the database is threaded
  through. Positions range over all ledgers of a topic: \<open>valid_pos info\<close> are the positions
  that exist according to the ledger metadata, and \<open>next_position\<close> steps through them.
\<close>

section \<open>Model\<close>

definition cursor_position :: "ManagedLedgerPosition \<Rightarrow> ManagedLedgerPosition" where
  "cursor_position p = ManagedLedgerPosition (ledger_id p) (entry_id p) (-1)"

record RocksDBManagedCursor =
  rc_managedledger_name :: string
  rc_name :: string
  rc_state :: ManagedCursorState

definition RocksDBManagedCursor_open ::
    "'db rocks_ext \<Rightarrow> 'db \<Rightarrow> string \<Rightarrow> string \<Rightarrow> RocksDBManagedCursor result" where
  "RocksDBManagedCursor_open ext db ml_nm nm =
     and_then (db_get ext db (managed_cursor_key ml_nm nm)) (\<lambda>v.
     and_then (case v of None \<Rightarrow> Inr None
                 | Some b \<Rightarrow> and_then (decode_cursor_state ext b) (\<lambda>st. Inr (Some st))) (\<lambda>ost.
     Inr \<lparr>rc_managedledger_name = ml_nm, rc_name = nm,
          rc_state = (case ost of Some st \<Rightarrow> st | None \<Rightarrow> ManagedCursorState_default)\<rparr>))"

definition persist_state :: "'db rocks_ext \<Rightarrow> 'db \<Rightarrow> RocksDBManagedCursor \<Rightarrow> unit result \<times> 'db" where
  "persist_state ext db c =
     db_put ext db (managed_cursor_key (rc_managedledger_name c) (rc_name c)) (encode_cursor_state ext (rc_state c))"

type_synonym 'db cursor_step = "unit result \<times> RocksDBManagedCursor \<times> 'db"

definition persisted :: "'db rocks_ext \<Rightarrow> 'db \<Rightarrow> RocksDBManagedCursor \<Rightarrow> 'db cursor_step" where
  "persisted ext db c = (case persist_state ext db c of (r, db') \<Rightarrow> (r, c, db'))"

definition rocks_mark_delete ::
    "'db rocks_ext \<Rightarrow> 'db \<Rightarrow> RocksDBManagedCursor \<Rightarrow> ManagedLedgerPosition \<Rightarrow> 'db cursor_step" where
  "rocks_mark_delete ext db c p =
     persisted ext db (c\<lparr>rc_state := (rc_state c)\<lparr>mcs_mark_delete := Some (cursor_position p)\<rparr>\<rparr>)"

definition rocks_delete_individual ::
    "'db rocks_ext \<Rightarrow> 'db \<Rightarrow> RocksDBManagedCursor \<Rightarrow> ManagedLedgerPosition \<Rightarrow> 'db cursor_step" where
  "rocks_delete_individual ext db c p =
     persisted ext db (c\<lparr>rc_state := (rc_state c)\<lparr>individually_deleted_entries :=
       rs_insert succ_position (individually_deleted_entries (rc_state c)) (cursor_position p)\<rparr>\<rparr>)"

definition rocks_reset_cursor ::
    "'db rocks_ext \<Rightarrow> 'db \<Rightarrow> RocksDBManagedCursor \<Rightarrow> ManagedLedgerPosition option \<Rightarrow> 'db cursor_step" where
  "rocks_reset_cursor ext db c p =
     persisted ext db (c\<lparr>rc_state := (rc_state c)\<lparr>mcs_mark_delete := map_option cursor_position p,
       individually_deleted_entries := rs_clear (individually_deleted_entries (rc_state c))\<rparr>\<rparr>)"

definition is_managed_position_acknowledged :: "ManagedCursorState \<Rightarrow> ManagedLedgerPosition \<Rightarrow> bool" where
  "is_managed_position_acknowledged st p =
     (let pos = cursor_position p in
      (case mcs_mark_delete st of Some md \<Rightarrow> pos \<le> md | None \<Rightarrow> False) \<or>
      rs_contains (individually_deleted_entries st) pos)"

definition first_position :: "StoredManagedLedgerInfo \<Rightarrow> i32 \<Rightarrow> ManagedLedgerPosition option" where
  "first_position info part =
     map_option (\<lambda>l. ManagedLedgerPosition (sl_ledger_id l) 0 part)
       (find (\<lambda>l. 0 < sl_entries l) (info_ledgers info))"

definition next_position ::
    "ManagedLedgerPosition \<Rightarrow> StoredManagedLedgerInfo \<Rightarrow> ManagedLedgerPosition option" where
  "next_position p info =
     (case find (\<lambda>l. sl_ledger_id l = ledger_id p) (info_ledgers info) of
        None \<Rightarrow> None
      | Some current_ledger \<Rightarrow>
          if entry_id p + 1 < sl_entries current_ledger
          then Some (ManagedLedgerPosition (ledger_id p) (entry_id p + 1) (pos_partition p))
          else map_option (\<lambda>l. ManagedLedgerPosition (sl_ledger_id l) 0 (pos_partition p))
                 (find (\<lambda>l. ledger_id p < sl_ledger_id l \<and> 0 < sl_entries l) (info_ledgers info)))"

text \<open>The loop at the end of \<open>ack_managed_cursor_shared\<close>; each round removes a range.\<close>

function advance_managed_cursor ::
    "'db rocks_ext \<Rightarrow> 'db \<Rightarrow> RocksDBManagedCursor \<Rightarrow> StoredManagedLedgerInfo \<Rightarrow> 'db cursor_step" where
  "advance_managed_cursor ext db c info =
     (case mcs_mark_delete (rc_state c) of
        None \<Rightarrow> (Inr (), c, db)
      | Some md \<Rightarrow>
          (case next_position md info of
             None \<Rightarrow> (Inr (), c, db)
           | Some nxt \<Rightarrow>
               (case rs_take_covering (individually_deleted_entries (rc_state c)) nxt of
                  (None, holes) \<Rightarrow>
                    (Inr (), c\<lparr>rc_state := (rc_state c)\<lparr>individually_deleted_entries := holes\<rparr>\<rparr>, db)
                | (Some end, holes) \<Rightarrow>
                    (case rocks_mark_delete ext db
                        (c\<lparr>rc_state := (rc_state c)\<lparr>individually_deleted_entries := holes\<rparr>\<rparr>) end of
                       (Inl e, c', db') \<Rightarrow> (Inl e, c', db')
                     | (Inr _, c', db') \<Rightarrow> advance_managed_cursor ext db' c' info))))"
  by pat_completeness auto
termination
proof (relation "measure (\<lambda>(ext, db, c, info). length (ranges (individually_deleted_entries (rc_state c))))")
qed (auto simp: rocks_mark_delete_def persisted_def split: prod.splits
      dest!: length_rs_take_covering [OF sym] dest: sym)

declare advance_managed_cursor.simps [simp del]

definition ack_managed_cursor_shared ::
    "'db rocks_ext \<Rightarrow> 'db \<Rightarrow> RocksDBManagedCursor \<Rightarrow> ManagedLedgerPosition \<Rightarrow> StoredManagedLedgerInfo
     \<Rightarrow> 'db cursor_step" where
  "ack_managed_cursor_shared ext db c p info =
     (let pos = cursor_position p in
      if is_managed_position_acknowledged (rc_state c) pos then (Inr (), c, db)
      else
        let step =
          (case mcs_mark_delete (rc_state c) of
             None \<Rightarrow>
               if Some pos = first_position info (pos_partition pos)
               then rocks_mark_delete ext db c pos
               else rocks_delete_individual ext db c pos
           | Some md \<Rightarrow>
               if Some pos = next_position md info then rocks_mark_delete ext db c pos
               else if md < pos then rocks_delete_individual ext db c pos
               else (Inr (), c, db))
        in case step of
             (Inl e, c', db') \<Rightarrow> (Inl e, c', db')
           | (Inr _, c', db') \<Rightarrow> advance_managed_cursor ext db' c' info)"

section \<open>Positions that exist\<close>

definition info_wf :: "StoredManagedLedgerInfo \<Rightarrow> bool" where
  "info_wf info \<longleftrightarrow> sorted_wrt (<) (map sl_ledger_id (info_ledgers info))"

definition valid_pos :: "StoredManagedLedgerInfo \<Rightarrow> ManagedLedgerPosition \<Rightarrow> bool" where
  "valid_pos info p \<longleftrightarrow> pos_partition p = -1 \<and>
     (\<exists>l \<in> set (info_ledgers info). sl_ledger_id l = ledger_id p \<and> entry_id p < sl_entries l)"

lemma ledger_unique:
  assumes "info_wf info" "l \<in> set (info_ledgers info)" "l' \<in> set (info_ledgers info)"
    "sl_ledger_id l = sl_ledger_id l'"
  shows "l = l'"
proof -
  have "distinct (map sl_ledger_id (info_ledgers info))"
    using assms(1) by (simp add: info_wf_def strict_sorted_iff)
  with assms(2-4) show ?thesis by (auto simp: distinct_map dest: inj_onD)
qed

lemma next_position_Some:
  assumes wf: "info_wf info" and valid: "valid_pos info m" and nx: "next_position m info = Some n"
  shows "valid_pos info n \<and> m < n \<and> (\<forall>k. valid_pos info k \<longrightarrow> m < k \<longrightarrow> n \<le> k)"
proof -
  from valid obtain l0 where l0: "l0 \<in> set (info_ledgers info)" "sl_ledger_id l0 = ledger_id m"
    "entry_id m < sl_entries l0" and part: "pos_partition m = -1" by (auto simp: valid_pos_def)
  from nx obtain l where find: "find (\<lambda>l. sl_ledger_id l = ledger_id m) (info_ledgers info) = Some l"
    by (auto simp: next_position_def split: option.splits)
  with l0 ledger_unique [OF wf] have [simp]: "l = l0" by (auto dest!: find_some_mem)
  have nomax: "entry_id m \<noteq> - 1" using l0(3) by (rule word_less_not_max)
  show ?thesis
  proof (cases "entry_id m + 1 < sl_entries l0")
    case True
    with nx find have n: "n = ManagedLedgerPosition (ledger_id m) (entry_id m + 1) (pos_partition m)"
      by (simp add: next_position_def)
    with True l0 part have "valid_pos info n" by (auto simp: valid_pos_def)
    moreover have "m < n" using n nomax by (simp add: position_less_iff word_less_Suc_iff)
    moreover have "n \<le> k" if "valid_pos info k" "m < k" for k
    proof (cases "ledger_id m = ledger_id k")
      case True
      moreover have "pos_partition k = -1" using that(1) by (simp add: valid_pos_def)
      ultimately have "entry_id m < entry_id k" using that(2) part by (simp add: position_less_iff)
      then have "entry_id m + 1 \<le> entry_id k" by (rule word_Suc_le)
      with True n part \<open>pos_partition k = -1\<close> show ?thesis by (auto simp: position_le_iff le_less)
    next
      case False
      with that(2) n show ?thesis by (auto simp: position_less_iff position_le_iff)
    qed
    ultimately show ?thesis by blast
  next
    case False
    with nx find obtain l' where
      find': "find (\<lambda>l. ledger_id m < sl_ledger_id l \<and> 0 < sl_entries l) (info_ledgers info) = Some l'"
      and n: "n = ManagedLedgerPosition (sl_ledger_id l') 0 (pos_partition m)"
      by (auto simp: next_position_def)
    note l' = find_some_mem [OF find']
    have "n \<le> k" if "valid_pos info k" "m < k" for k
    proof -
      from that(1) obtain lk where lk: "lk \<in> set (info_ledgers info)" "sl_ledger_id lk = ledger_id k"
        "entry_id k < sl_entries lk" "pos_partition k = -1" by (auto simp: valid_pos_def)
      have "ledger_id m \<noteq> ledger_id k"
      proof
        assume eq: "ledger_id m = ledger_id k"
        with lk l0 ledger_unique [OF wf, of lk l0] have "entry_id k < sl_entries l0" by auto
        moreover have "entry_id m < entry_id k" using that(2) eq part lk(4) by (simp add: position_less_iff)
        ultimately show False using False word_Suc_le [of "entry_id m" "entry_id k"] by auto
      qed
      with that(2) have "ledger_id m < ledger_id k" by (auto simp: position_less_iff)
      moreover have "0 < sl_entries lk" using lk(3) by (metis word_gt_0 word_not_simps(1))
      ultimately have "sl_ledger_id l' \<le> sl_ledger_id lk"
        using find_sorted_least [OF wf [unfolded info_wf_def] find' lk(1)] lk(2) by simp
      with n lk part show ?thesis by (auto simp: position_le_iff le_less word_neq_0_conv)
    qed
    with l' n part show ?thesis by (auto simp: valid_pos_def position_less_iff)
  qed
qed

lemma next_position_None:
  assumes wf: "info_wf info" and valid: "valid_pos info m" and nx: "next_position m info = None"
    and k: "valid_pos info k"
  shows "k \<le> m"
proof (rule ccontr)
  assume "\<not> k \<le> m"
  then have "m < k" by simp
  from valid obtain l0 where l0: "l0 \<in> set (info_ledgers info)" "sl_ledger_id l0 = ledger_id m"
    "entry_id m < sl_entries l0" and part: "pos_partition m = -1" by (auto simp: valid_pos_def)
  from k obtain lk where lk: "lk \<in> set (info_ledgers info)" "sl_ledger_id lk = ledger_id k"
    "entry_id k < sl_entries lk" "pos_partition k = -1" by (auto simp: valid_pos_def)
  have "find (\<lambda>l. sl_ledger_id l = ledger_id m) (info_ledgers info) \<noteq> None"
    using l0 by (auto simp: find_None_iff)
  then obtain l where find: "find (\<lambda>l. sl_ledger_id l = ledger_id m) (info_ledgers info) = Some l" by auto
  with l0 ledger_unique [OF wf] have [simp]: "l = l0" by (auto dest!: find_some_mem)
  from nx find have full: "\<not> entry_id m + 1 < sl_entries l0"
    and none: "find (\<lambda>l. ledger_id m < sl_ledger_id l \<and> 0 < sl_entries l) (info_ledgers info) = None"
    by (auto simp: next_position_def split: if_splits)
  show False
  proof (cases "ledger_id m = ledger_id k")
    case True
    with lk l0 ledger_unique [OF wf, of lk l0] have "entry_id k < sl_entries l0" by auto
    moreover have "entry_id m < entry_id k" using \<open>m < k\<close> True part lk(4) by (simp add: position_less_iff)
    ultimately show False using full word_Suc_le [of "entry_id m" "entry_id k"] by auto
  next
    case False
    with \<open>m < k\<close> have "ledger_id m < ledger_id k" by (auto simp: position_less_iff)
    moreover have "0 < sl_entries lk" using lk(3) by (metis word_gt_0 word_not_simps(1))
    ultimately show False using find_none_all [OF none lk(1)] lk(2) by simp
  qed
qed

lemma first_position_Some:
  assumes wf: "info_wf info" and f: "first_position info (-1) = Some n"
  shows "valid_pos info n \<and> (\<forall>k. valid_pos info k \<longrightarrow> n \<le> k)"
proof -
  from f obtain l where find: "find (\<lambda>l. 0 < sl_entries l) (info_ledgers info) = Some l"
    and n: "n = ManagedLedgerPosition (sl_ledger_id l) 0 (-1)" by (auto simp: first_position_def)
  note l = find_some_mem [OF find]
  have "n \<le> k" if valid: "valid_pos info k" for k
  proof -
    from valid obtain lk where lk: "lk \<in> set (info_ledgers info)" "sl_ledger_id lk = ledger_id k"
      "entry_id k < sl_entries lk" "pos_partition k = -1" by (auto simp: valid_pos_def)
    have "0 < sl_entries lk" using lk(3) by (metis word_gt_0 word_not_simps(1))
    then have "sl_ledger_id l \<le> sl_ledger_id lk"
      using find_sorted_least [OF wf [unfolded info_wf_def] find lk(1)] by simp
    with n lk show ?thesis by (auto simp: position_le_iff le_less word_neq_0_conv)
  qed
  with l n show ?thesis by (auto simp: valid_pos_def)
qed

lemma first_position_None: "first_position info (-1) = None \<Longrightarrow> \<not> valid_pos info k"
  using find_none_all [of "\<lambda>l. 0 < sl_entries l" "info_ledgers info"]
  by (auto simp: first_position_def valid_pos_def) (metis word_gt_0 word_not_simps(1))

section \<open>Invariant of a durable cursor\<close>

abbreviation cpos :: "ManagedLedgerPosition \<Rightarrow> bool" where
  "cpos \<equiv> (\<lambda>p. pos_partition p = -1)"

definition cstate_pre :: "StoredManagedLedgerInfo \<Rightarrow> ManagedCursorState \<Rightarrow> bool" where
  "cstate_pre info st \<longleftrightarrow>
     rs_wf succ_position cpos (individually_deleted_entries st) \<and>
     (\<forall>k \<in> covers cpos (individually_deleted_entries st).
        valid_pos info k \<and> (\<forall>m. mcs_mark_delete st = Some m \<longrightarrow> m < k)) \<and>
     (\<forall>m. mcs_mark_delete st = Some m \<longrightarrow> valid_pos info m)"

text \<open>The position that would extend the frontier is not acknowledged.\<close>

definition cstate_tight :: "StoredManagedLedgerInfo \<Rightarrow> ManagedCursorState \<Rightarrow> bool" where
  "cstate_tight info st \<longleftrightarrow>
     (\<forall>n. (case mcs_mark_delete st of None \<Rightarrow> first_position info (-1) | Some m \<Rightarrow> next_position m info) = Some n
        \<longrightarrow> n \<notin> covers cpos (individually_deleted_entries st))"

definition acked_pos :: "StoredManagedLedgerInfo \<Rightarrow> ManagedCursorState \<Rightarrow> ManagedLedgerPosition set" where
  "acked_pos info st = {k. valid_pos info k \<and> is_managed_position_acknowledged st k}"

definition cursor_key :: "RocksDBManagedCursor \<Rightarrow> string" where
  "cursor_key c = managed_cursor_key (rc_managedledger_name c) (rc_name c)"

definition stored :: "'db rocks_ext \<Rightarrow> 'db \<Rightarrow> string \<Rightarrow> ManagedCursorState \<Rightarrow> bool" where
  "stored ext db key st \<longleftrightarrow> db_get ext db key = Inr (Some (encode_cursor_state ext st))"

definition frame :: "'db rocks_ext \<Rightarrow> string \<Rightarrow> 'db \<Rightarrow> 'db \<Rightarrow> bool" where
  "frame ext key db db' \<longleftrightarrow> (\<forall>k. k \<noteq> key \<longrightarrow> db_get ext db' k = db_get ext db k)"

lemma frame_refl [simp]: "frame ext key db db"
  by (simp add: frame_def)

lemma frame_trans: "frame ext key a b \<Longrightarrow> frame ext key b c \<Longrightarrow> frame ext key a c"
  by (simp add: frame_def)

lemma cursor_position_id: "cpos p \<Longrightarrow> cursor_position p = p"
  by (cases p) (simp add: cursor_position_def)

lemma cursor_position_cpos [simp]: "pos_partition (cursor_position p) = -1"
  by (simp add: cursor_position_def)

lemma valid_pos_cpos: "valid_pos info p \<Longrightarrow> cpos p"
  by (simp add: valid_pos_def)

lemma acked_pos_eq:
  assumes "rs_wf succ_position cpos (individually_deleted_entries st)"
  shows "acked_pos info st = {k. valid_pos info k \<and>
    ((\<exists>m. mcs_mark_delete st = Some m \<and> k \<le> m) \<or> k \<in> covers cpos (individually_deleted_entries st))}"
proof -
  have "is_managed_position_acknowledged st k \<longleftrightarrow>
      (\<exists>m. mcs_mark_delete st = Some m \<and> k \<le> m) \<or> k \<in> covers cpos (individually_deleted_entries st)"
    if "valid_pos info k" for k
    using valid_pos_cpos [OF that] rs_contains_covers [OF assms, of k]
    by (auto simp: is_managed_position_acknowledged_def cursor_position_id Let_def split: option.splits)
  then show ?thesis by (auto simp: acked_pos_def)
qed

lemma persisted_cases:
  assumes "db_laws ext" "persisted ext db c = (r, c', db')"
  shows "c' = c \<and> frame ext (cursor_key c) db db' \<and>
    (r = Inr () \<and> stored ext db' (cursor_key c) (rc_state c) \<or> (\<exists>e. r = Inl e \<and> db' = db))"
proof -
  from assms(2) have put: "db_put ext db (cursor_key c) (encode_cursor_state ext (rc_state c)) = (r, db')" and "c' = c"
    by (auto simp: persisted_def persist_state_def cursor_key_def split: prod.splits)
  show ?thesis
  proof (cases r)
    case (Inl e)
    with put assms(1) have "db' = db" unfolding db_laws_def by blast
    with Inl \<open>c' = c\<close> show ?thesis by simp
  next
    case (Inr u)
    with put assms(1) have "\<forall>k'. db_get ext db' k' =
        (if k' = cursor_key c then Inr (Some (encode_cursor_state ext (rc_state c))) else db_get ext db k')"
      unfolding db_laws_def by simp
    with Inr \<open>c' = c\<close> show ?thesis by (simp add: frame_def stored_def)
  qed
qed

text \<open>What a step of the cursor guarantees about the database and the cursor it leaves.\<close>

definition cursor_step_ok ::
    "'db rocks_ext \<Rightarrow> StoredManagedLedgerInfo \<Rightarrow> 'db \<Rightarrow> RocksDBManagedCursor \<Rightarrow> ManagedLedgerPosition set
     \<Rightarrow> 'db cursor_step \<Rightarrow> bool" where
  "cursor_step_ok ext info db c A res \<longleftrightarrow>
     (case res of (r, c', db') \<Rightarrow>
        cursor_key c' = cursor_key c \<and> frame ext (cursor_key c) db db' \<and>
        (r = Inr () \<longrightarrow> stored ext db' (cursor_key c) (rc_state c') \<and>
           rc_managedledger_name c' = rc_managedledger_name c \<and> rc_name c' = rc_name c \<and>
           cstate_pre info (rc_state c') \<and> acked_pos info (rc_state c') = A \<and>
           (\<forall>m. mcs_mark_delete (rc_state c) = Some m \<longrightarrow>
              (\<exists>m' \<ge> m. mcs_mark_delete (rc_state c') = Some m')) \<and>
           (mcs_mark_delete (rc_state c') \<noteq> None \<longrightarrow> cstate_tight info (rc_state c'))) \<and>
        (\<exists>st. stored ext db' (cursor_key c) st \<and> cstate_pre info st \<and> acked_pos info st = A))"

lemma take_covering_next:
  assumes wf: "info_wf info" and pre: "cstate_pre info st"
    and md: "mcs_mark_delete st = Some m" and nx: "next_position m info = Some n"
    and take: "rs_take_covering (individually_deleted_entries st) n = (Some e, holes)"
  shows "cpos e" and "cstate_pre info (st\<lparr>individually_deleted_entries := holes, mcs_mark_delete := Some e\<rparr>)"
    and "acked_pos info (st\<lparr>individually_deleted_entries := holes, mcs_mark_delete := Some e\<rparr>) = acked_pos info st"
    and "m < e"
proof -
  let ?rs = "individually_deleted_entries st"
  have rs: "rs_wf succ_position cpos ?rs"
    and cov: "\<And>k. k \<in> covers cpos ?rs \<Longrightarrow> valid_pos info k \<and> m < k" and m: "valid_pos info m"
    using pre md by (auto simp: cstate_pre_def)
  note n = next_position_Some [OF wf m nx]
  have ends: "s \<in> covers cpos ?rs \<and> e \<in> covers cpos ?rs" if "(s, e) \<in> set (ranges ?rs)" for s e
    using rs_wf_range [OF rs that] covers_memI [OF that] by auto
  have above: "\<forall>(s, e) \<in> set (ranges ?rs). n \<le> e"
    using ends cov n by blast
  from rs above obtain s where mem: "(s, e) \<in> set (ranges ?rs)" and "s \<le> n" "n \<le> e"
    and holes: "holes = ?rs\<lparr>ranges := bts_remove (s, e) (ranges ?rs)\<rparr>"
    using take by (cases rule: rs_take_covering_cases) auto
  have "n \<le> s" using ends [OF mem] cov n by blast
  with \<open>s \<le> n\<close> have s: "s = n" by simp
  show e: "cpos e" using rs_wf_range [OF rs mem] by simp
  have rs': "rs_wf succ_position cpos holes" unfolding holes by (rule rs_wf_remove [OF rs])
  have split: "covers cpos ?rs = {k. cpos k \<and> n \<le> k \<and> k \<le> e} \<union> covers cpos holes"
    unfolding holes using covers_remove [OF mem, of cpos] s by simp
  have gt: "e < k" if "k \<in> covers cpos holes" for k
  proof -
    from that obtain s' e' where r: "(s', e') \<in> set (ranges ?rs)" "(s', e') \<noteq> (s, e)" "s' \<le> k"
      by (auto simp: covers_def holes)
    have "s \<le> s'" using ends [OF r(1)] cov n s by blast
    with rs_wf_apart [OF rs mem r(1)] r(2,3) show ?thesis by auto
  qed
  have "e \<in> covers cpos ?rs" using ends [OF mem] by blast
  with cov split gt rs'
  show "cstate_pre info (st\<lparr>individually_deleted_entries := holes, mcs_mark_delete := Some e\<rparr>)"
    by (auto simp: cstate_pre_def)
  show "m < e" using n \<open>n \<le> e\<close> by auto
  have "k \<le> e \<longleftrightarrow> k \<le> m \<or> (cpos k \<and> n \<le> k \<and> k \<le> e)" if "valid_pos info k" for k
    using n that \<open>m < e\<close> valid_pos_cpos [OF that] by (cases "k \<le> m") auto
  then show "acked_pos info (st\<lparr>individually_deleted_entries := holes, mcs_mark_delete := Some e\<rparr>) = acked_pos info st"
    unfolding acked_pos_eq [OF rs] using acked_pos_eq [of "st\<lparr>individually_deleted_entries := holes, mcs_mark_delete := Some e\<rparr>" info] rs' split md
    by auto
qed

lemma take_covering_next_None:
  assumes wf: "info_wf info" and pre: "cstate_pre info st"
    and md: "mcs_mark_delete st = Some m" and nx: "next_position m info = Some n"
    and take: "rs_take_covering (individually_deleted_entries st) n = (None, holes)"
  shows "holes = individually_deleted_entries st \<and> cstate_tight info st"
proof -
  let ?rs = "individually_deleted_entries st"
  have rs: "rs_wf succ_position cpos ?rs"
    and cov: "\<And>k. k \<in> covers cpos ?rs \<Longrightarrow> valid_pos info k \<and> m < k" and m: "valid_pos info m"
    using pre md by (auto simp: cstate_pre_def)
  note n = next_position_Some [OF wf m nx]
  have "e \<in> covers cpos ?rs" if "(s, e) \<in> set (ranges ?rs)" for s e
    using rs_wf_range [OF rs that] covers_memI [OF that] by auto
  then have above: "\<forall>(s, e) \<in> set (ranges ?rs). n \<le> e" using cov n by blast
  from rs above show ?thesis
  proof (cases rule: rs_take_covering_cases)
    case uncovered
    then have "n \<notin> covers cpos ?rs" by (auto simp: covers_def)
    with uncovered take md nx show ?thesis by (simp add: cstate_tight_def)
  qed (use take in simp)
qed

text \<open>Advancing the frontier keeps the acknowledged positions, whatever fails on the way.\<close>

lemma advance_managed_cursor_ok:
  assumes laws: "db_laws ext" and wf: "info_wf info"
    and "cstate_pre info (rc_state c)" "stored ext db (cursor_key c) (rc_state c)"
  shows "cursor_step_ok ext info db c (acked_pos info (rc_state c)) (advance_managed_cursor ext db c info)"
  using assms(3,4)
proof (induction "length (ranges (individually_deleted_entries (rc_state c)))" arbitrary: c db rule: less_induct)
  case less
  note pre = less.prems(1) and st = less.prems(2)
  show ?case
  proof (cases "mcs_mark_delete (rc_state c)")
    case None
    with pre st show ?thesis
      by (subst advance_managed_cursor.simps) (auto simp: cursor_step_ok_def)
  next
    case md: (Some m)
    show ?thesis
    proof (cases "next_position m info")
      case None
      with pre st md show ?thesis
        by (subst advance_managed_cursor.simps) (auto simp: cursor_step_ok_def cstate_tight_def)
    next
      case nx: (Some n)
      obtain o1 holes where take: "rs_take_covering (individually_deleted_entries (rc_state c)) n = (o1, holes)"
        by fastforce
      show ?thesis
      proof (cases o1)
        case None
        note none = take_covering_next_None [OF wf pre md nx, of holes] take None
        then have "c\<lparr>rc_state := (rc_state c)\<lparr>individually_deleted_entries := holes\<rparr>\<rparr> = c"
          by (cases c; cases "rc_state c") simp
        with none pre st md nx show ?thesis
          by (subst advance_managed_cursor.simps) (auto simp: cursor_step_ok_def)
      next
        case o1: (Some e)
        define st1 where "st1 = (rc_state c)\<lparr>individually_deleted_entries := holes, mcs_mark_delete := Some e\<rparr>"
        define c1 where "c1 = c\<lparr>rc_state := st1\<rparr>"
        note tk = take_covering_next [OF wf pre md nx take [unfolded o1], folded st1_def]
        obtain r c2 db2 where step: "persisted ext db c1 = (r, c2, db2)" by (cases "persisted ext db c1") auto
        have key: "cursor_key c1 = cursor_key c" by (simp add: c1_def cursor_key_def)
        note pc = persisted_cases [OF laws step, unfolded key]
        have unf: "advance_managed_cursor ext db c info =
            (case persisted ext db c1 of (Inl e, c', db') \<Rightarrow> (Inl e, c', db')
             | (Inr _, c', db') \<Rightarrow> advance_managed_cursor ext db' c' info)"
          using md nx take o1 cursor_position_id [OF tk(1)]
          by (subst advance_managed_cursor.simps) (simp add: rocks_mark_delete_def c1_def st1_def)
        show ?thesis
        proof (cases r)
          case (Inl err)
          with pc unf step key st pre show ?thesis by (auto simp: cursor_step_ok_def)
        next
          case (Inr u)
          with pc have ok: "c2 = c1" "stored ext db2 (cursor_key c) st1" "frame ext (cursor_key c) db db2"
            by (auto simp: c1_def)
          have "length (ranges (individually_deleted_entries (rc_state c1))) <
              length (ranges (individually_deleted_entries (rc_state c)))"
            using length_rs_take_covering [OF take [unfolded o1]] by (simp add: c1_def st1_def)
          from less.hyps [OF this, of db2] tk(2,3) ok key
          have IH: "cursor_step_ok ext info db2 c1 (acked_pos info (rc_state c)) (advance_managed_cursor ext db2 c1 info)"
            by (simp add: c1_def)
          obtain r3 c3 db3 where res: "advance_managed_cursor ext db2 c1 info = (r3, c3, db3)"
            by (cases "advance_managed_cursor ext db2 c1 info") auto
          have md1: "mcs_mark_delete (rc_state c1) = Some e" by (simp add: c1_def st1_def)
          have names: "rc_managedledger_name c1 = rc_managedledger_name c" "rc_name c1 = rc_name c"
            by (simp_all add: c1_def)
          have "advance_managed_cursor ext db c info = (r3, c3, db3)"
            using unf step Inr ok(1) res by simp
          moreover have "cursor_step_ok ext info db c (acked_pos info (rc_state c)) (r3, c3, db3)"
            using IH md md1 names tk(4) ok(3) key
            unfolding cursor_step_ok_def res by (auto intro: frame_trans order_trans)
          ultimately show ?thesis by simp
        qed
      qed
    qed
  qed
qed

section \<open>Reopening a cursor\<close>

definition info_i64 :: "StoredManagedLedgerInfo \<Rightarrow> bool" where
  "info_i64 info \<longleftrightarrow> (\<forall>l \<in> set (info_ledgers info). ledger_i64 l)"

lemma valid_pos_i64: "info_i64 info \<Longrightarrow> valid_pos info p \<Longrightarrow> pos_i64 p"
  by (fastforce simp: info_i64_def ledger_i64_def valid_pos_def pos_i64_def word_less_def)

lemma range_same_ledger:
  assumes pre: "cstate_pre info st" and mem: "(s, e) \<in> set (ranges (individually_deleted_entries st))"
  shows "ledger_id s = ledger_id e"
proof (rule ccontr)
  have rs: "rs_wf succ_position cpos (individually_deleted_entries st)" using pre by (simp add: cstate_pre_def)
  note r = rs_wf_range [OF rs mem]
  assume ne: "ledger_id s \<noteq> ledger_id e"
  with r have lt: "ledger_id s < ledger_id e" by (auto simp: position_le_iff)
  let ?k = "ManagedLedgerPosition (ledger_id s) (- 1) (-1)"
  have "s \<le> ?k" using r by (auto simp: position_le_iff word_order.not_eq_extremum)
  moreover have "?k \<le> e" using lt by (simp add: position_le_iff)
  ultimately have "?k \<in> covers cpos (individually_deleted_entries st)" using covers_memI [OF mem] by simp
  with pre have "valid_pos info ?k" by (auto simp: cstate_pre_def)
  then show False by (auto simp: valid_pos_def dest: word_less_not_max)
qed

lemma reopen_stored:
  assumes "codec_laws ext" "info_i64 info" "cstate_pre info st"
    and "stored ext db (managed_cursor_key ml nm) st"
  shows "RocksDBManagedCursor_open ext db ml nm =
    Inr \<lparr>rc_managedledger_name = ml, rc_name = nm, rc_state = st\<rparr>"
proof -
  have rs: "rs_wf succ_position cpos (individually_deleted_entries st)" using assms(3) by (simp add: cstate_pre_def)
  have mem: "s \<in> covers cpos (individually_deleted_entries st) \<and> e \<in> covers cpos (individually_deleted_entries st)"
    if "(s, e) \<in> set (ranges (individually_deleted_entries st))" for s e
    using rs_wf_range [OF rs that] covers_memI [OF that] by auto
  have "cursor_state_of (cursor_info_of st) = Inr st"
  proof (rule cursor_state_roundtrip [OF rs])
    show "\<forall>(s, e) \<in> set (ranges (individually_deleted_entries st)). pos_i64 s \<and> pos_i64 e \<and> ledger_id s = ledger_id e"
      using mem assms(2,3) range_same_ledger [OF assms(3)]
      by (auto simp: cstate_pre_def intro!: valid_pos_i64 [OF assms(2)])
    show "\<forall>p. mcs_mark_delete st = Some p \<longrightarrow> pos_i64 p"
      using assms(2,3) by (auto simp: cstate_pre_def intro!: valid_pos_i64)
  qed
  with assms(1,4) show ?thesis
    by (simp add: RocksDBManagedCursor_open_def stored_def decode_cursor_state_def encode_cursor_state_def codec_laws_def)
qed

section \<open>One acknowledgement\<close>

text \<open>The cursor state after the first branch of \<open>ack_managed_cursor_shared\<close>.\<close>

definition ack_first_state ::
    "ManagedCursorState \<Rightarrow> ManagedLedgerPosition \<Rightarrow> StoredManagedLedgerInfo \<Rightarrow> ManagedCursorState" where
  "ack_first_state st pos info =
     (if Some pos = (case mcs_mark_delete st of None \<Rightarrow> first_position info (-1) | Some m \<Rightarrow> next_position m info)
      then st\<lparr>mcs_mark_delete := Some pos\<rparr>
      else st\<lparr>individually_deleted_entries := rs_insert succ_position (individually_deleted_entries st) pos\<rparr>)"

lemma ack_first_state_ok:
  assumes wf: "info_wf info" and pre: "cstate_pre info st" and tight: "cstate_tight info st"
    and valid: "valid_pos info pos" and new: "pos \<notin> acked_pos info st"
  defines "st1 \<equiv> ack_first_state st pos info"
  shows "cstate_pre info st1" and "acked_pos info st1 = insert pos (acked_pos info st)"
    and "mcs_mark_delete st = Some m \<Longrightarrow> \<exists>m' \<ge> m. mcs_mark_delete st1 = Some m'"
    and "mcs_mark_delete st1 = None \<Longrightarrow> cstate_tight info st1"
proof -
  let ?rs = "individually_deleted_entries st"
  have rs: "rs_wf succ_position cpos ?rs"
    and cov: "\<And>k. k \<in> covers cpos ?rs \<Longrightarrow> valid_pos info k"
      "\<And>k m. k \<in> covers cpos ?rs \<Longrightarrow> mcs_mark_delete st = Some m \<Longrightarrow> m < k"
      "\<And>m. mcs_mark_delete st = Some m \<Longrightarrow> valid_pos info m"
    using pre by (auto simp: cstate_pre_def)
  note eq = acked_pos_eq [OF rs]
  have lt: "m < pos" if "mcs_mark_delete st = Some m" for m
    using new valid that by (auto simp: eq)
  have "cstate_pre info st1 \<and> acked_pos info st1 = insert pos (acked_pos info st) \<and>
    (\<forall>m. mcs_mark_delete st = Some m \<longrightarrow> (\<exists>m' \<ge> m. mcs_mark_delete st1 = Some m')) \<and>
    (mcs_mark_delete st1 = None \<longrightarrow> cstate_tight info st1)"
  proof (cases "Some pos = (case mcs_mark_delete st of None \<Rightarrow> first_position info (-1) | Some m \<Rightarrow> next_position m info)")
    case True
    then have st1: "st1 = st\<lparr>mcs_mark_delete := Some pos\<rparr>" by (simp add: st1_def ack_first_state_def)
    have notin: "pos \<notin> covers cpos ?rs" using tight True by (auto simp: cstate_tight_def)
    have least: "pos \<le> k" if "valid_pos info k" "\<And>m. mcs_mark_delete st = Some m \<Longrightarrow> m < k" for k
      using True that first_position_Some [OF wf, of pos] next_position_Some [OF wf cov(3)]
      by (auto split: option.splits)
    have gt: "pos < k" if "k \<in> covers cpos ?rs" for k
      using least [OF cov(1) [OF that] cov(2) [OF that]] that notin by (auto simp: le_less)
    have le: "k \<le> pos \<longleftrightarrow> k = pos \<or> (\<exists>m. mcs_mark_delete st = Some m \<and> k \<le> m)" if "valid_pos info k" for k
    proof
      assume "k \<le> pos"
      then show "k = pos \<or> (\<exists>m. mcs_mark_delete st = Some m \<and> k \<le> m)"
        using least [OF that] by (cases "\<exists>m. mcs_mark_delete st = Some m \<and> k \<le> m") (auto simp: not_le)
    next
      assume "k = pos \<or> (\<exists>m. mcs_mark_delete st = Some m \<and> k \<le> m)"
      then show "k \<le> pos" using lt by (auto dest: less_imp_le order_trans)
    qed
    have rs1: "rs_wf succ_position cpos (individually_deleted_entries st1)" using rs st1 by simp
    have "acked_pos info st1 = insert pos (acked_pos info st)"
      unfolding eq acked_pos_eq [OF rs1] using le valid by (auto simp: st1)
    moreover have "cstate_pre info st1" using rs cov gt valid by (auto simp: cstate_pre_def st1)
    ultimately show ?thesis using lt by (auto simp: st1 less_imp_le)
  next
    case False
    then have st1: "st1 = st\<lparr>individually_deleted_entries := rs_insert succ_position ?rs pos\<rparr>"
      by (simp add: st1_def ack_first_state_def)
    have ins: "rs_wf succ_position cpos (rs_insert succ_position ?rs pos)"
      "covers cpos (rs_insert succ_position ?rs pos) = insert pos (covers cpos ?rs)"
      using position_key.rs_insert_spec [OF rs valid_pos_cpos [OF valid]] by auto
    have rs1: "rs_wf succ_position cpos (individually_deleted_entries st1)" using ins st1 by simp
    have "acked_pos info st1 = insert pos (acked_pos info st)"
      unfolding eq acked_pos_eq [OF rs1] using valid ins by (auto simp: st1)
    moreover have "cstate_pre info st1" using ins cov valid lt by (auto simp: cstate_pre_def st1)
    moreover have "cstate_tight info st1"
      using tight False ins by (auto simp: cstate_tight_def st1)
    ultimately show ?thesis by (simp add: st1)
  qed
  then show "cstate_pre info st1" "acked_pos info st1 = insert pos (acked_pos info st)"
    "mcs_mark_delete st = Some m \<Longrightarrow> \<exists>m' \<ge> m. mcs_mark_delete st1 = Some m'"
    "mcs_mark_delete st1 = None \<Longrightarrow> cstate_tight info st1" by auto
qed

lemma ack_managed_cursor_shared_unfold:
  assumes "pos_partition pos = -1" "pos = cursor_position p"
    and "\<not> is_managed_position_acknowledged (rc_state c) pos"
    and "\<And>m. mcs_mark_delete (rc_state c) = Some m \<Longrightarrow> m < pos"
  shows "ack_managed_cursor_shared ext db c p info =
    (case persisted ext db (c\<lparr>rc_state := ack_first_state (rc_state c) pos info\<rparr>) of
       (Inl e, c', db') \<Rightarrow> (Inl e, c', db')
     | (Inr _, c', db') \<Rightarrow> advance_managed_cursor ext db' c' info)"
  using assms cursor_position_id [OF assms(1)]
  by (auto simp: ack_managed_cursor_shared_def ack_first_state_def rocks_mark_delete_def
      rocks_delete_individual_def Let_def split: option.splits)

lemma ack_managed_cursor_shared_ok:
  assumes laws: "db_laws ext" "codec_laws ext" and info: "info_wf info" "info_i64 info"
    and op: "RocksDBManagedCursor_open ext db ml nm = Inr c"
    and pre: "cstate_pre info (rc_state c)" "cstate_tight info (rc_state c)"
    and valid: "valid_pos info (cursor_position p)"
    and ack: "ack_managed_cursor_shared ext db c p info = (r, c', db')"
  shows "frame ext (managed_cursor_key ml nm) db db'"
    and "r = Inr () \<Longrightarrow> RocksDBManagedCursor_open ext db' ml nm = Inr c' \<and>
      cstate_pre info (rc_state c') \<and> cstate_tight info (rc_state c') \<and>
      acked_pos info (rc_state c') = insert (cursor_position p) (acked_pos info (rc_state c)) \<and>
      (\<forall>m. mcs_mark_delete (rc_state c) = Some m \<longrightarrow> (\<exists>m' \<ge> m. mcs_mark_delete (rc_state c') = Some m'))"
    and "\<exists>c''. RocksDBManagedCursor_open ext db' ml nm = Inr c'' \<and> cstate_pre info (rc_state c'') \<and>
      acked_pos info (rc_state c'') \<in>
        {acked_pos info (rc_state c), insert (cursor_position p) (acked_pos info (rc_state c))}"
proof -
  let ?pos = "cursor_position p" and ?key = "managed_cursor_key ml nm"
  let ?A = "insert ?pos (acked_pos info (rc_state c))"
  have c: "rc_managedledger_name c = ml" "rc_name c = nm"
    using op by (auto simp: RocksDBManagedCursor_open_def and_then_eq_Inr_iff)
  then have key: "cursor_key c = ?key" by (simp add: cursor_key_def)
  have goal: "frame ext ?key db db' \<and>
    (r = Inr () \<longrightarrow> RocksDBManagedCursor_open ext db' ml nm = Inr c' \<and>
      cstate_pre info (rc_state c') \<and> cstate_tight info (rc_state c') \<and> acked_pos info (rc_state c') = ?A \<and>
      (\<forall>m. mcs_mark_delete (rc_state c) = Some m \<longrightarrow> (\<exists>m' \<ge> m. mcs_mark_delete (rc_state c') = Some m'))) \<and>
    (\<exists>c''. RocksDBManagedCursor_open ext db' ml nm = Inr c'' \<and> cstate_pre info (rc_state c'') \<and>
      acked_pos info (rc_state c'') \<in> {acked_pos info (rc_state c), ?A})"
  proof (cases "?pos \<in> acked_pos info (rc_state c)")
    case True
    then have "is_managed_position_acknowledged (rc_state c) ?pos" by (simp add: acked_pos_def)
    with ack have "r = Inr ()" "c' = c" "db' = db" by (auto simp: ack_managed_cursor_shared_def)
    with True op pre show ?thesis by (auto simp: insert_absorb)
  next
    case False
    have rs: "rs_wf succ_position cpos (individually_deleted_entries (rc_state c))"
      using pre(1) by (simp add: cstate_pre_def)
    have not: "\<not> is_managed_position_acknowledged (rc_state c) ?pos"
      using False valid by (simp add: acked_pos_def)
    have lt: "m < ?pos" if "mcs_mark_delete (rc_state c) = Some m" for m
      using False valid that by (auto simp: acked_pos_eq [OF rs])
    define st1 where "st1 = ack_first_state (rc_state c) ?pos info"
    define c1 where "c1 = c\<lparr>rc_state := st1\<rparr>"
    note s1 = ack_first_state_ok [OF info(1) pre valid False, folded st1_def]
    obtain r1 c2 db1 where step: "persisted ext db c1 = (r1, c2, db1)" by (cases "persisted ext db c1") auto
    have key1: "cursor_key c1 = ?key" using key by (simp add: c1_def cursor_key_def)
    note pc = persisted_cases [OF laws(1) step, unfolded key1]
    have res: "(r, c', db') = (case (r1, c2, db1) of (Inl e, c', db') \<Rightarrow> (Inl e, c', db')
        | (Inr _, c', db') \<Rightarrow> advance_managed_cursor ext db' c' info)"
      using ack_managed_cursor_shared_unfold [OF cursor_position_cpos refl not lt, of ext db info] ack step
      by (simp add: c1_def st1_def)
    show ?thesis
    proof (cases r1)
      case (Inl e)
      with pc res have "r = Inl e" "db' = db" by auto
      with op pre show ?thesis by auto
    next
      case (Inr u)
      with pc have ok: "c2 = c1" "frame ext ?key db db1" "stored ext db1 ?key (rc_state c1)" by auto
      have pre1: "cstate_pre info (rc_state c1)" using s1(1) by (simp add: c1_def)
      have A: "acked_pos info (rc_state c1) = ?A" using s1(2) by (simp add: c1_def)
      have adv: "advance_managed_cursor ext db1 c1 info = (r, c', db')" using res Inr ok(1) by simp
      note so = advance_managed_cursor_ok [OF laws(1) info(1) pre1, of db1, unfolded key1, OF ok(3), unfolded adv A]
      then have so': "frame ext ?key db1 db'"
        "r = Inr () \<Longrightarrow> stored ext db' ?key (rc_state c') \<and> rc_managedledger_name c' = rc_managedledger_name c1 \<and>
          rc_name c' = rc_name c1 \<and> cstate_pre info (rc_state c') \<and> acked_pos info (rc_state c') = ?A \<and>
          (\<forall>m. mcs_mark_delete (rc_state c1) = Some m \<longrightarrow> (\<exists>m' \<ge> m. mcs_mark_delete (rc_state c') = Some m')) \<and>
          (mcs_mark_delete (rc_state c') \<noteq> None \<longrightarrow> cstate_tight info (rc_state c'))"
        "\<exists>st. stored ext db' ?key st \<and> cstate_pre info st \<and> acked_pos info st = ?A"
        by (auto simp: cursor_step_ok_def key1)
      have tight: "cstate_tight info (rc_state c')" if "r = Inr ()"
      proof (cases "mcs_mark_delete (rc_state c')")
        case None
        with so'(2) [OF that] have "mcs_mark_delete (rc_state c1) = None" by force
        moreover from this have "c' = c1" using adv by (subst (asm) advance_managed_cursor.simps) simp
        ultimately show ?thesis using s1(4) by (simp add: c1_def)
      qed (use so'(2) [OF that] in auto)
      have reopen: "RocksDBManagedCursor_open ext db' ml nm = Inr c'" if "r = Inr ()"
        using reopen_stored [OF laws(2) info(2), of "rc_state c'" db' ml nm] so'(2) [OF that] c
        by (cases c') (simp add: c1_def)
      have mono: "\<exists>m' \<ge> m. mcs_mark_delete (rc_state c') = Some m'"
        if "r = Inr ()" "mcs_mark_delete (rc_state c) = Some m" for m
        using s1(3) [OF that(2)] so'(2) [OF that(1)] by (fastforce simp: c1_def intro: order_trans)
      from so'(3) obtain st where st: "stored ext db' ?key st" "cstate_pre info st" "acked_pos info st = ?A" by blast
      have "frame ext ?key db db'" using ok(2) so'(1) by (rule frame_trans)
      then show ?thesis
        using so'(2) tight reopen mono reopen_stored [OF laws(2) info(2) st(2,1)] st by auto
    qed
  qed
  from goal show "frame ext ?key db db'" by blast
  from goal show "r = Inr () \<Longrightarrow> RocksDBManagedCursor_open ext db' ml nm = Inr c' \<and>
      cstate_pre info (rc_state c') \<and> cstate_tight info (rc_state c') \<and> acked_pos info (rc_state c') = ?A \<and>
      (\<forall>m. mcs_mark_delete (rc_state c) = Some m \<longrightarrow> (\<exists>m' \<ge> m. mcs_mark_delete (rc_state c') = Some m'))" by blast
  from goal show "\<exists>c''. RocksDBManagedCursor_open ext db' ml nm = Inr c'' \<and> cstate_pre info (rc_state c'') \<and>
      acked_pos info (rc_state c'') \<in> {acked_pos info (rc_state c), ?A}" by blast
qed

section \<open>Properties\<close>


lemma persisted_ref:
  "persisted ref_ext db c = (Inr (), c, db(cursor_key c \<mapsto> encode_cursor_state ref_ext (rc_state c)))"
  by (simp add: persisted_def persist_state_def cursor_key_def) (simp add: ref_ext_def)

definition demo_info :: StoredManagedLedgerInfo where
  "demo_info = \<lparr>info_ledgers = [(StoredLedgerInfo_new 0)\<lparr>sl_entries := 9\<rparr>]\<rparr>"



end
