(* ===== verification/PL_EntryLog.thy ===== *)
theory PL_EntryLog
  imports PL_RocksMeta
begin

text \<open>
  The entry log (\<open>managed-ledger-rocksdb/src/entrylog.rs\<close>): append-only files of framed entries.
  A directory is a map from file names to contents. Opening a file for a rollover may fail and
  a write may fail after some of its bytes reached the file; both outcomes are arguments of
  \<open>write_batch\<close>. The writer thread handles one message at a time, so a call of
  \<open>append_batch\<close> is one step of \<open>write_batch\<close>.
\<close>

section \<open>Little-endian integers\<close>

fun le_bytes :: "nat \<Rightarrow> nat \<Rightarrow> bytes" where
  "le_bytes 0 v = []"
| "le_bytes (Suc n) v = of_nat (v mod 256) # le_bytes n (v div 256)"

lemma le_bytes_numeral [eval_simps]:
  "le_bytes (numeral k) v = of_nat (v mod 256) # le_bytes (pred_numeral k) (v div 256)"
  by (subst numeral_eq_Suc) simp

fun le_val :: "bytes \<Rightarrow> nat" where
  "le_val [] = 0"
| "le_val (b # bs) = unat b + 256 * le_val bs"

lemma length_le_bytes [simp]: "length (le_bytes n v) = n"
  by (induction n arbitrary: v) auto

lemma unat_of_nat_u8: "n < 256 \<Longrightarrow> unat (of_nat n :: u8) = n"
  by (simp add: unat_of_nat)

lemma le_val_le_bytes: "v < 256 ^ n \<Longrightarrow> le_val (le_bytes n v) = v"
proof (induction n arbitrary: v)
  case (Suc n)
  then have "v div 256 < 256 ^ n" by (simp add: less_mult_imp_div_less mult.commute)
  with Suc.IH [of "v div 256"] show ?case by (simp add: unat_of_nat_u8)
qed simp

section \<open>Model\<close>

definition ENTRY_MAGIC :: u32 where "ENTRY_MAGIC = 0x504C4547"
definition ENTRY_VERSION_LEGACY :: u16 where "ENTRY_VERSION_LEGACY = 1"
definition ENTRY_VERSION :: u16 where "ENTRY_VERSION = 2"
definition ENTRY_HEADER_LEN_LEGACY :: u16 where "ENTRY_HEADER_LEN_LEGACY = 40"
definition ENTRY_HEADER_LEN :: u16 where "ENTRY_HEADER_LEN = 44"

record EntryToAppend =
  ea_ledger_id :: u64
  ea_entry_id :: u64
  ea_partition :: i32
  ea_metadata :: bytes
  ea_payload :: bytes

record EntryIndex =
  ei_ledger_id :: u64
  ei_entry_id :: u64
  ei_file_id :: u64
  ei_offset :: u64
  ei_len :: u64
  ei_checksum :: u64
  ei_partition :: i32

record EntryRecord =
  er_partition :: i32
  er_metadata :: bytes
  er_payload :: bytes

type_synonym log_dir = "string \<rightharpoonup> bytes"

text \<open>The open file is known by its name; the directory is passed separately.\<close>

record WriteState =
  log_size_limit :: u64
  active_file_id :: u64
  active_offset :: u64
  ws_file :: string

definition entry_log_path :: "u64 \<Rightarrow> string" where
  "entry_log_path fid = dec_string (unat fid) @ ''.log''"

definition checksum :: "bytes list \<Rightarrow> u64" where
  "checksum parts = foldl (\<lambda>acc b. acc + ucast b) 0 (concat parts)"

text \<open>\<open>str::parse::<u64>\<close>: an optional plus sign and at least one digit, no overflow.\<close>

definition is_digit :: "char \<Rightarrow> bool" where
  "is_digit c \<longleftrightarrow> 48 \<le> (of_char c :: nat) \<and> (of_char c :: nat) \<le> 57"

definition parse_u64 :: "string \<Rightarrow> u64 option" where
  "parse_u64 s =
     (let ds = (case s of c # cs \<Rightarrow> if c = CHR ''+'' then cs else s | [] \<Rightarrow> s) in
      if ds \<noteq> [] \<and> list_all is_digit ds \<and> dec_val ds < u64_cap then Some (of_nat (dec_val ds)) else None)"

definition parse_log_file_id :: "string \<Rightarrow> u64 option" where
  "parse_log_file_id name =
     (if 4 \<le> length name \<and> drop (length name - 4) name = ''.log''
      then parse_u64 (take (length name - 4) name) else None)"

text \<open>\<open>names\<close> are the directory entries in the order the file system lists them.\<close>

definition next_entry_log_file_id :: "string list \<Rightarrow> u64 result" where
  "next_entry_log_file_id names =
     (case fold (\<lambda>name mx. case parse_log_file_id name of
                   None \<Rightarrow> mx
                 | Some fid \<Rightarrow> Some (case mx of None \<Rightarrow> fid | Some m \<Rightarrow> max m fid)) names None of
        None \<Rightarrow> Inr 0
      | Some fid \<Rightarrow> if fid = u64_MAX then Inl (Msg ''entrylog file id overflow'') else Inr (fid + 1))"

text \<open>Opening with \<open>create\<close> and \<open>append\<close> keeps the content of an existing file.\<close>

definition open_append :: "log_dir \<Rightarrow> string \<Rightarrow> log_dir" where
  "open_append d f = (case d f of Some _ \<Rightarrow> d | None \<Rightarrow> d(f \<mapsto> []))"

definition WriteState_open :: "bool \<Rightarrow> log_dir \<Rightarrow> string list \<Rightarrow> u64 \<Rightarrow> WriteState result \<times> log_dir" where
  "WriteState_open open_ok d names limit =
     (case next_entry_log_file_id names of
        Inl e \<Rightarrow> (Inl e, d)
      | Inr fid \<Rightarrow>
          if \<not> open_ok then (Inl IoError, d)
          else (Inr \<lparr>log_size_limit = limit, active_file_id = fid, active_offset = 0,
                     ws_file = entry_log_path fid\<rparr>, open_append d (entry_log_path fid)))"

definition entry_len :: "EntryToAppend \<Rightarrow> u64" where
  "entry_len e = ucast ENTRY_HEADER_LEN + of_nat (length (ea_metadata e)) + of_nat (length (ea_payload e))"

definition entry_bytes :: "EntryToAppend \<Rightarrow> bytes" where
  "entry_bytes e =
     le_bytes 4 (unat ENTRY_MAGIC) @ le_bytes 2 (unat ENTRY_VERSION) @ le_bytes 2 (unat ENTRY_HEADER_LEN) @
     le_bytes 8 (unat (ea_ledger_id e)) @ le_bytes 8 (unat (ea_entry_id e)) @
     le_bytes 4 (unat (i32_as_u32 (ea_partition e))) @
     le_bytes 4 (unat (of_nat (length (ea_metadata e)) :: u32)) @
     le_bytes 4 (unat (of_nat (length (ea_payload e)) :: u32)) @
     le_bytes 8 (unat (checksum [ea_metadata e, ea_payload e])) @ ea_metadata e @ ea_payload e"

text \<open>The loop that fills the buffer: the indices, the bytes and the offset after the batch.\<close>

fun frame_entries :: "u64 \<Rightarrow> u64 \<Rightarrow> EntryToAppend list \<Rightarrow> EntryIndex list \<times> bytes \<times> u64" where
  "frame_entries fid cursor [] = ([], [], cursor)"
| "frame_entries fid cursor (e # es) =
     (case frame_entries fid (cursor + entry_len e) es of (idx, buf, end) \<Rightarrow>
       (\<lparr>ei_ledger_id = ea_ledger_id e, ei_entry_id = ea_entry_id e, ei_file_id = fid, ei_offset = cursor,
         ei_len = entry_len e, ei_checksum = checksum [ea_metadata e, ea_payload e],
         ei_partition = ea_partition e\<rparr> # idx, entry_bytes e @ buf, end))"

text \<open>A write either completes or fails after some bytes of the buffer reached the file.\<close>

datatype write_outcome = Write_ok | Write_fails nat

definition append_file :: "log_dir \<Rightarrow> string \<Rightarrow> bytes \<Rightarrow> log_dir" where
  "append_file d f bs = d(f \<mapsto> (case d f of Some c \<Rightarrow> c | None \<Rightarrow> []) @ bs)"

definition write_batch ::
    "bool \<Rightarrow> write_outcome \<Rightarrow> log_dir \<Rightarrow> WriteState \<Rightarrow> EntryToAppend list
     \<Rightarrow> EntryIndex result list \<times> WriteState \<times> log_dir" where
  "write_batch open_ok outcome d ws batch =
     (if batch = [] then ([], ws, d)
      else
        let batch_len = sum_list (map entry_len batch);
            roll = 0 < active_offset ws \<and> log_size_limit ws < active_offset ws + batch_len;
            ws1 = (if roll then ws\<lparr>active_file_id := active_file_id ws + 1, active_offset := 0\<rparr> else ws)
        in
        if roll \<and> \<not> open_ok then (map (\<lambda>_. Inl IoError) batch, ws1, d)
        else
          let path = entry_log_path (active_file_id ws1);
              ws2 = (if roll then ws1\<lparr>ws_file := path\<rparr> else ws1);
              d2 = (if roll then open_append d path else d);
              (pending, buf, end) = frame_entries (active_file_id ws2) (active_offset ws2) batch
          in case outcome of
               Write_ok \<Rightarrow>
                 (map Inr pending, ws2\<lparr>active_offset := end\<rparr>, append_file d2 (ws_file ws2) buf)
             | Write_fails n \<Rightarrow>
                 (map (\<lambda>_. Inl IoError) pending, ws2, append_file d2 (ws_file ws2) (take n buf)))"

text \<open>The reply to \<open>append_batch\<close>: \<open>collect::<Result<Vec<_>>>\<close> of the results.\<close>

definition append_batch ::
    "bool \<Rightarrow> write_outcome \<Rightarrow> log_dir \<Rightarrow> WriteState \<Rightarrow> EntryToAppend list
     \<Rightarrow> EntryIndex list result \<times> WriteState \<times> log_dir" where
  "append_batch open_ok outcome d ws batch =
     (if batch = [] then (Inr [], ws, d)
      else case write_batch open_ok outcome d ws batch of
        (rs, ws', d') \<Rightarrow> (try_map id rs, ws', d'))"

text \<open>\<open>read_exact\<close> of \<open>n\<close> bytes at offset \<open>o\<close>, and a slice of the header.\<close>

definition read_exact_at :: "bytes \<Rightarrow> nat \<Rightarrow> nat \<Rightarrow> bytes result" where
  "read_exact_at c off n = (if off + n \<le> length c then Inr (take n (drop off c)) else Inl IoError)"

definition header_slice :: "bytes \<Rightarrow> nat \<Rightarrow> nat \<Rightarrow> bytes result" where
  "header_slice h a b = (if b \<le> length h then Inr (take (b - a) (drop a h)) else Inl Panic)"

definition entrylog_read :: "log_dir \<Rightarrow> EntryIndex \<Rightarrow> EntryRecord result" where
  "entrylog_read d index =
     (case d (entry_log_path (ei_file_id index)) of
        None \<Rightarrow> Inl IoError
      | Some c \<Rightarrow>
          (let off = unat (ei_offset index) in
           and_then (read_exact_at c off 8) (\<lambda>prefix.
           let magic = of_nat (le_val (take 4 prefix)) :: u32;
               version = of_nat (le_val (take 2 (drop 4 prefix))) :: u16;
               header_len = of_nat (le_val (drop 6 prefix)) :: u16
           in
           and_then (if unat header_len < 8 then Inl Panic else read_exact_at c (off + 8) (unat header_len - 8))
             (\<lambda>rest.
           let header = prefix @ rest in
           and_then (header_slice header 8 16) (\<lambda>b_ledger.
           and_then (header_slice header 16 24) (\<lambda>b_entry.
           and_then (header_slice header 24 28) (\<lambda>b_part.
           let ledger = of_nat (le_val b_ledger) :: u64;
               entry = of_nat (le_val b_entry) :: u64;
               part = u32_as_i32 (of_nat (le_val b_part))
           in
           if magic \<noteq> ENTRY_MAGIC then Inl (Msg ''invalid entrylog magic'')
           else if version \<noteq> ENTRY_VERSION \<and> version \<noteq> ENTRY_VERSION_LEGACY
             then Inl (Msg ''unsupported entrylog version'')
           else if version = ENTRY_VERSION_LEGACY \<and> header_len \<noteq> ENTRY_HEADER_LEN_LEGACY
             then Inl (Msg ''invalid entrylog header length'')
           else if version = ENTRY_VERSION \<and> header_len \<noteq> ENTRY_HEADER_LEN
             then Inl (Msg ''invalid entrylog header length'')
           else if ledger \<noteq> ei_ledger_id index \<or> entry \<noteq> ei_entry_id index
             then Inl (Msg ''entrylog position does not match index'')
           else
           and_then
             (if version = ENTRY_VERSION_LEGACY
              then and_then (header_slice header 28 32) (\<lambda>pl. and_then (header_slice header 32 40) (\<lambda>ck.
                     Inr (0 :: u32, of_nat (le_val pl) :: u32, of_nat (le_val ck) :: u64)))
              else and_then (header_slice header 28 32) (\<lambda>ml. and_then (header_slice header 32 36) (\<lambda>pl.
                   and_then (header_slice header 36 44) (\<lambda>ck.
                     Inr (of_nat (le_val ml) :: u32, of_nat (le_val pl) :: u32, of_nat (le_val ck) :: u64)))))
             (\<lambda>(metadata_len, payload_len, expected_checksum).
           if ucast header_len + ucast metadata_len + ucast payload_len \<noteq> ei_len index
             then Inl (Msg ''entrylog length does not match index'')
           else
           let body = off + unat header_len in
           and_then (read_exact_at c body (unat metadata_len)) (\<lambda>md.
           and_then (read_exact_at c (body + unat metadata_len) (unat payload_len)) (\<lambda>pl.
           if checksum [md, pl] \<noteq> expected_checksum \<or> expected_checksum \<noteq> ei_checksum index
             then Inl (Msg ''entrylog checksum mismatch'')
           else Inr \<lparr>er_partition = part, er_metadata = md, er_payload = pl\<rparr>))))))))))"

definition location_of :: "EntryIndex \<Rightarrow> StoredEntryLocation" where
  "location_of i = \<lparr>loc_file_id = ei_file_id i, loc_offset = ei_offset i, loc_len = ei_len i,
     loc_checksum = ei_checksum i, loc_partition = ei_partition i\<rparr>"

section \<open>Reading back what was framed\<close>

lemma pow256: "(256 :: nat) ^ n = 2 ^ (8 * n)"
  by (simp add: power_mult)

lemma le_val_u64 [simp]: "le_val (le_bytes 8 (unat (x :: u64))) = unat x"
  by (rule le_val_le_bytes) (unfold pow256, use unsigned_less [of x] in simp)

lemma le_val_u32 [simp]: "le_val (le_bytes 4 (unat (x :: u32))) = unat x"
  by (rule le_val_le_bytes) (unfold pow256, use unsigned_less [of x] in simp)

lemma le_val_u16 [simp]: "le_val (le_bytes 2 (unat (x :: u16))) = unat x"
  by (rule le_val_le_bytes) (unfold pow256, use unsigned_less [of x] in simp)

definition u32_cap :: nat where
  "u32_cap = 2 ^ LENGTH(32)"

lemma unat_of_nat_u32: "n < u32_cap \<Longrightarrow> unat (of_nat n :: u32) = n"
  unfolding u32_cap_def by (simp only: unat_of_nat mod_less)

lemma le_val_le_bytes_u32: "n < u32_cap \<Longrightarrow> le_val (le_bytes 4 n) = n"
  by (rule le_val_le_bytes) (unfold pow256, simp add: u32_cap_def)

lemma ucast_of_nat_u32: "n < u32_cap \<Longrightarrow> (ucast (of_nat n :: u32) :: u64) = of_nat n"
  by (metis unat_of_nat_u32 of_nat_unat)

text \<open>The range of an \<open>i32\<close>.\<close>

definition i32_ok :: "i32 \<Rightarrow> bool" where
  "i32_ok p \<longleftrightarrow> - 2147483648 \<le> p \<and> p < 2147483648"

lemma sint_word_of_int_u32: "sint (word_of_int p :: u32) = signed_take_bit 31 p"
  by transfer simp

lemma i32_roundtrip: "i32_ok p \<Longrightarrow> u32_as_i32 (i32_as_u32 p) = p"
  by (simp add: i32_ok_def u32_as_i32_def i32_as_u32_def sint_word_of_int_u32 signed_take_bit_int_eq_self)

definition entry_ok :: "EntryToAppend \<Rightarrow> bool" where
  "entry_ok e \<longleftrightarrow> i32_ok (ea_partition e) \<and> length (ea_metadata e) < u32_cap \<and> length (ea_payload e) < u32_cap"

definition record_of :: "EntryToAppend \<Rightarrow> EntryRecord" where
  "record_of e = \<lparr>er_partition = ea_partition e, er_metadata = ea_metadata e, er_payload = ea_payload e\<rparr>"

definition index_of :: "u64 \<Rightarrow> u64 \<Rightarrow> EntryToAppend \<Rightarrow> EntryIndex" where
  "index_of fid off e = \<lparr>ei_ledger_id = ea_ledger_id e, ei_entry_id = ea_entry_id e, ei_file_id = fid,
     ei_offset = off, ei_len = entry_len e, ei_checksum = checksum [ea_metadata e, ea_payload e],
     ei_partition = ea_partition e\<rparr>"

lemma length_entry_bytes [simp]:
  "length (entry_bytes e) = 44 + length (ea_metadata e) + length (ea_payload e)"
  by (simp add: entry_bytes_def)

lemma read_exact_at_mid: "read_exact_at (pre @ xs @ post) (length pre) (length xs) = Inr xs"
  by (simp add: read_exact_at_def)

lemma read_framed_entry:
  assumes ok: "entry_ok e" and c: "d (entry_log_path fid) = Some (pre @ entry_bytes e @ post)"
    and off: "unat off = length pre"
  shows "entrylog_read d (index_of fid off e) = Inr (record_of e)"
proof -
  define p1 where "p1 = le_bytes 4 (unat ENTRY_MAGIC) @ le_bytes 2 (unat ENTRY_VERSION) @ le_bytes 2 (unat ENTRY_HEADER_LEN)"
  define p2 where "p2 = le_bytes 8 (unat (ea_ledger_id e)) @ le_bytes 8 (unat (ea_entry_id e)) @
     le_bytes 4 (unat (i32_as_u32 (ea_partition e))) @
     le_bytes 4 (unat (of_nat (length (ea_metadata e)) :: u32)) @
     le_bytes 4 (unat (of_nat (length (ea_payload e)) :: u32)) @
     le_bytes 8 (unat (checksum [ea_metadata e, ea_payload e]))"
  have eb: "entry_bytes e = p1 @ p2 @ ea_metadata e @ ea_payload e"
    by (simp add: entry_bytes_def p1_def p2_def)
  let ?c = "pre @ entry_bytes e @ post"
  have len: "length p1 = 8" "length p2 = 36" by (simp_all add: p1_def p2_def)
  have r1: "read_exact_at ?c (length pre) 8 = Inr p1"
    using read_exact_at_mid [of pre p1 "p2 @ ea_metadata e @ ea_payload e @ post"] by (simp add: eb len)
  have r2: "read_exact_at ?c (length pre + 8) 36 = Inr p2"
    using read_exact_at_mid [of "pre @ p1" p2 "ea_metadata e @ ea_payload e @ post"] by (simp add: eb len)
  have r3: "read_exact_at ?c (length pre + 44) (length (ea_metadata e)) = Inr (ea_metadata e)"
    using read_exact_at_mid [of "pre @ p1 @ p2" "ea_metadata e" "ea_payload e @ post"] by (simp add: eb len)
  have r4: "read_exact_at ?c (length pre + 44 + length (ea_metadata e)) (length (ea_payload e)) = Inr (ea_payload e)"
    using read_exact_at_mid [of "pre @ p1 @ p2 @ ea_metadata e" "ea_payload e" post] by (simp add: eb len add.assoc)
  have h1: "of_nat (le_val (take 4 p1)) = ENTRY_MAGIC" "of_nat (le_val (take 2 (drop 4 p1))) = ENTRY_VERSION"
    "of_nat (le_val (drop 6 p1)) = ENTRY_HEADER_LEN"
    by (simp_all add: p1_def)
  have h2: "header_slice (p1 @ p2) 8 16 = Inr (le_bytes 8 (unat (ea_ledger_id e)))"
    "header_slice (p1 @ p2) 16 24 = Inr (le_bytes 8 (unat (ea_entry_id e)))"
    "header_slice (p1 @ p2) 24 28 = Inr (le_bytes 4 (unat (i32_as_u32 (ea_partition e))))"
    "header_slice (p1 @ p2) 28 32 = Inr (le_bytes 4 (unat (of_nat (length (ea_metadata e)) :: u32)))"
    "header_slice (p1 @ p2) 32 36 = Inr (le_bytes 4 (unat (of_nat (length (ea_payload e)) :: u32)))"
    "header_slice (p1 @ p2) 36 44 = Inr (le_bytes 8 (unat (checksum [ea_metadata e, ea_payload e])))"
    using len by (simp_all add: header_slice_def p2_def)
  have hl: "unat ENTRY_HEADER_LEN = 44" by (simp add: ENTRY_HEADER_LEN_def)
  show ?thesis
    unfolding entrylog_read_def using c off ok r1 r2 r3 r4 h1 h2 hl
    by (simp add: index_of_def Let_def ENTRY_VERSION_def ENTRY_VERSION_LEGACY_def unat_of_nat_u32
        ucast_of_nat_u32 le_val_le_bytes_u32 entry_ok_def entry_len_def i32_roundtrip record_of_def)
qed

section \<open>Appending a batch\<close>

text \<open>
  What the writer thread maintains while its writes succeed: the open file is the one named
  after the active id, the offset is its length, and no later file exists.
\<close>

definition log_inv :: "log_dir \<Rightarrow> WriteState \<Rightarrow> bool" where
  "log_inv d ws \<longleftrightarrow> ws_file ws = entry_log_path (active_file_id ws) \<and>
     (\<exists>c. d (ws_file ws) = Some c \<and> length c = unat (active_offset ws)) \<and>
     (\<forall>fid. active_file_id ws < fid \<longrightarrow> d (entry_log_path fid) = None)"

definition batch_bytes :: "EntryToAppend list \<Rightarrow> nat" where
  "batch_bytes es = sum_list (map (\<lambda>e. length (entry_bytes e)) es)"

lemma entry_log_path_inject [simp]: "entry_log_path a = entry_log_path b \<longleftrightarrow> a = b"
  by (simp add: entry_log_path_def word_unat_eq_iff)

lemma entry_len_of_nat: "entry_len e = of_nat (length (entry_bytes e))"
  by (simp add: entry_len_def ENTRY_HEADER_LEN_def)

lemma batch_bytes_simps [simp]:
  "batch_bytes [] = 0" "batch_bytes (e # es) = length (entry_bytes e) + batch_bytes es"
  by (simp_all add: batch_bytes_def)

lemma frame_entries_spec:
  assumes "frame_entries fid (of_nat n) es = (idx, buf, end)"
  shows "length idx = length es" "length buf = batch_bytes es" "end = of_nat (n + batch_bytes es)"
    "i < length es \<Longrightarrow> \<exists>a b. buf = a @ entry_bytes (es ! i) @ b \<and>
       idx ! i = index_of fid (of_nat (n + length a)) (es ! i)"
proof -
  have "length idx = length es \<and> length buf = batch_bytes es \<and> end = of_nat (n + batch_bytes es) \<and>
    (\<forall>i < length es. \<exists>a b. buf = a @ entry_bytes (es ! i) @ b \<and>
       idx ! i = index_of fid (of_nat (n + length a)) (es ! i))"
    using assms
  proof (induction es arbitrary: n idx buf "end")
    case (Cons e es)
    obtain idx' buf' end' where fr: "frame_entries fid (of_nat (n + length (entry_bytes e))) es = (idx', buf', end')"
      by (cases "frame_entries fid (of_nat (n + length (entry_bytes e))) es")
    have eqs: "idx = index_of fid (of_nat n) e # idx'" "buf = entry_bytes e @ buf'" "end = end'"
      using Cons.prems fr by (auto simp: entry_len_of_nat index_of_def algebra_simps)
    note IH = Cons.IH [OF fr]
    have "\<exists>a b. buf = a @ entry_bytes ((e # es) ! i) @ b \<and>
       idx ! i = index_of fid (of_nat (n + length a)) ((e # es) ! i)" if "i < length (e # es)" for i
    proof (cases i)
      case 0
      show ?thesis by (rule exI [of _ "[]"]) (simp add: 0 eqs)
    next
      case (Suc j)
      with that IH obtain a b where ab: "buf' = a @ entry_bytes (es ! j) @ b"
        "idx' ! j = index_of fid (of_nat (n + length (entry_bytes e) + length a)) (es ! j)" by auto
      have "buf = (entry_bytes e @ a) @ entry_bytes ((e # es) ! i) @ b \<and>
        idx ! i = index_of fid (of_nat (n + length (entry_bytes e @ a))) ((e # es) ! i)"
        using ab by (simp add: Suc eqs add.assoc)
      then show ?thesis by blast
    qed
    then show ?case using IH eqs by (simp add: add.assoc)
  qed simp
  then show "length idx = length es" "length buf = batch_bytes es" "end = of_nat (n + batch_bytes es)"
    "i < length es \<Longrightarrow> \<exists>a b. buf = a @ entry_bytes (es ! i) @ b \<and>
       idx ! i = index_of fid (of_nat (n + length a)) (es ! i)" by blast+
qed

text \<open>Reads only look at a prefix of a file, so they survive anything that is appended.\<close>

definition extends :: "log_dir \<Rightarrow> log_dir \<Rightarrow> bool" where
  "extends d d' \<longleftrightarrow> (\<forall>f c. d f = Some c \<longrightarrow> (\<exists>x. d' f = Some (c @ x)))"

lemma read_exact_at_extend: "read_exact_at c off n = Inr r \<Longrightarrow> read_exact_at (c @ x) off n = Inr r"
  by (auto simp: read_exact_at_def split: if_splits)

lemma entrylog_read_extend:
  assumes "extends d d'" "entrylog_read d i = Inr r"
  shows "entrylog_read d' i = Inr r"
proof -
  obtain c where c: "d (entry_log_path (ei_file_id i)) = Some c"
    using assms(2) by (auto simp: entrylog_read_def split: option.splits)
  then obtain x where x: "d' (entry_log_path (ei_file_id i)) = Some (c @ x)"
    using assms(1) by (auto simp: extends_def)
  note ext = read_exact_at_extend [of c _ _ _ x]
  show ?thesis
    using assms(2) unfolding entrylog_read_def c x
    by (auto simp: Let_def split: if_splits elim!: and_then_InrE dest!: ext)
qed

lemma extends_refl [simp]: "extends d d"
  by (simp add: extends_def)

lemma extends_trans: "extends a b \<Longrightarrow> extends b c \<Longrightarrow> extends a c"
  unfolding extends_def by (metis append.assoc)

lemma extends_append_file: "extends d (append_file d f bs)"
  by (auto simp: extends_def append_file_def)

lemma extends_open_append: "extends d (open_append d f)"
  by (auto simp: extends_def open_append_def split: option.splits)

lemma write_batch_extends: "extends d (snd (snd (write_batch ok out d ws batch)))"
  using extends_trans [OF extends_open_append extends_append_file]
  by (auto simp: write_batch_def Let_def extends_append_file split: write_outcome.splits prod.splits)

text \<open>The state and the directory just before the bytes of a batch are written.\<close>

definition rolls :: "WriteState \<Rightarrow> EntryToAppend list \<Rightarrow> bool" where
  "rolls ws batch \<longleftrightarrow> 0 < active_offset ws \<and>
     log_size_limit ws < active_offset ws + sum_list (map entry_len batch)"

definition prepared :: "log_dir \<Rightarrow> WriteState \<Rightarrow> EntryToAppend list \<Rightarrow> WriteState \<times> log_dir" where
  "prepared d ws batch =
     (if rolls ws batch
      then (ws\<lparr>active_file_id := active_file_id ws + 1, active_offset := 0,
               ws_file := entry_log_path (active_file_id ws + 1)\<rparr>,
            open_append d (entry_log_path (active_file_id ws + 1)))
      else (ws, d))"

lemma prepared_inv:
  assumes "log_inv d ws" "active_file_id ws \<noteq> u64_MAX" "prepared d ws batch = (ws', d')"
  shows "log_inv d' ws'" "extends d d'" "unat (active_offset ws') \<le> unat (active_offset ws)"
proof -
  have lt: "active_file_id ws < active_file_id ws + 1" by (rule word_less_Suc_iff [OF assms(2)])
  have "log_inv d' ws' \<and> extends d d' \<and> unat (active_offset ws') \<le> unat (active_offset ws)"
  proof (cases "rolls ws batch")
    case True
    let ?f = "active_file_id ws + 1"
    have none: "d (entry_log_path ?f) = None" using assms(1) lt by (simp add: log_inv_def)
    have later: "d (entry_log_path fid) = None" if "?f < fid" for fid
      using assms(1) less_trans [OF lt that] by (simp add: log_inv_def)
    show ?thesis
      using assms(3) True none later
      by (auto simp: prepared_def log_inv_def open_append_def extends_def)
  qed (use assms in \<open>auto simp: prepared_def\<close>)
  then show "log_inv d' ws'" "extends d d'" "unat (active_offset ws') \<le> unat (active_offset ws)" by blast+
qed

lemma write_batch_prepared:
  assumes "batch \<noteq> []" "prepared d ws batch = (ws', d')"
    and "frame_entries (active_file_id ws') (active_offset ws') batch = (idx, buf, end)"
  shows "write_batch True Write_ok d ws batch =
    (map Inr idx, ws'\<lparr>active_offset := end\<rparr>, append_file d' (ws_file ws') buf)"
  using assms by (auto simp: write_batch_def prepared_def rolls_def Let_def split: if_splits)

lemma write_prepared_ok:
  assumes inv: "log_inv d ws" and ok: "\<And>e. e \<in> set batch \<Longrightarrow> entry_ok e"
    and cap: "unat (active_offset ws) + batch_bytes batch < u64_cap"
    and fr: "frame_entries (active_file_id ws) (active_offset ws) batch = (idx, buf, end)"
  shows "log_inv (append_file d (ws_file ws) buf) (ws\<lparr>active_offset := end\<rparr>)"
    "i < length batch \<Longrightarrow> entrylog_read (append_file d (ws_file ws) buf) (idx ! i) = Inr (record_of (batch ! i))"
proof -
  obtain c where c: "d (ws_file ws) = Some c" "length c = unat (active_offset ws)"
    "ws_file ws = entry_log_path (active_file_id ws)"
    using inv by (auto simp: log_inv_def)
  have off: "active_offset ws = of_nat (length c)" using c(2) by simp
  note sp = frame_entries_spec [OF fr [unfolded off]]
  have d': "append_file d (ws_file ws) buf (entry_log_path (active_file_id ws)) = Some (c @ buf)"
    using c by (simp add: append_file_def)
  have end_len: "unat end = length (c @ buf)"
    using unat_of_nat_u64 [of "length c + batch_bytes batch"] sp(2) c(2) cap
    unfolding sp(3) length_append by (simp del: of_nat_add)
  show "log_inv (append_file d (ws_file ws) buf) (ws\<lparr>active_offset := end\<rparr>)"
    using inv d' end_len by (auto simp: log_inv_def append_file_def)
  show "entrylog_read (append_file d (ws_file ws) buf) (idx ! i) = Inr (record_of (batch ! i))"
    if i: "i < length batch"
  proof -
    obtain a b where ab: "buf = a @ entry_bytes (batch ! i) @ b"
      "idx ! i = index_of (active_file_id ws) (of_nat (length c + length a)) (batch ! i)"
      using sp(4) [OF i] by blast
    have bl: "length buf = batch_bytes batch" by (rule sp(2))
    have small: "length c + length a < u64_cap" using cap ab(1) bl c(2) by simp
    have un: "unat (of_nat (length c + length a) :: u64) = length (c @ a)" using unat_of_nat_u64 [OF small] by simp
    show ?thesis unfolding ab(2)
      by (rule read_framed_entry [OF ok, of _ _ _ "c @ a" b]) (use i d' ab(1) un in simp_all)
  qed
qed

text \<open>C16: When the rollover open and the write succeed, appending a batch to a consistent log returns one
  index per entry, reading any of them back yields that entry, everything that could be read
  before can still be read, and the log is consistent again.\<close>

theorem entrylog_batch_roundtrip:
  assumes inv: "log_inv d ws" and ok: "\<And>e. e \<in> set batch \<Longrightarrow> entry_ok e"
    and cap: "unat (active_offset ws) + batch_bytes batch < u64_cap" and fid: "active_file_id ws \<noteq> u64_MAX"
  shows "\<exists>idx ws' d'. append_batch True Write_ok d ws batch = (Inr idx, ws', d') \<and>
    length idx = length batch \<and>
    (\<forall>i < length batch. entrylog_read d' (idx ! i) = Inr (record_of (batch ! i))) \<and>
    (\<forall>i r. entrylog_read d i = Inr r \<longrightarrow> entrylog_read d' i = Inr r) \<and> log_inv d' ws'"
proof (cases "batch = []")
  case True
  then show ?thesis using inv by (auto simp: append_batch_def)
next
  case False
  obtain ws1 d1 where pr: "prepared d ws batch = (ws1, d1)" by (cases "prepared d ws batch")
  obtain idx buf "end" where fr: "frame_entries (active_file_id ws1) (active_offset ws1) batch = (idx, buf, end)"
    by (cases "frame_entries (active_file_id ws1) (active_offset ws1) batch")
  note p = prepared_inv [OF inv fid pr]
  have cap1: "unat (active_offset ws1) + batch_bytes batch < u64_cap" using p(3) cap by linarith
  let ?d' = "append_file d1 (ws_file ws1) buf"
  note w = write_prepared_ok [OF p(1) ok cap1 fr]
  have run: "append_batch True Write_ok d ws batch = (Inr idx, ws1\<lparr>active_offset := end\<rparr>, ?d')"
    using False write_batch_prepared [OF False pr fr] by (simp add: append_batch_def try_map_map_Inr)
  have len: "length idx = length batch"
    using frame_entries_spec(1) [of "active_file_id ws1" "unat (active_offset ws1)" batch] fr by simp
  have ext: "extends d ?d'" by (rule extends_trans [OF p(2) extends_append_file])
  show ?thesis
  proof (intro exI conjI allI impI)
    show "append_batch True Write_ok d ws batch = (Inr idx, ws1\<lparr>active_offset := end\<rparr>, ?d')" by (rule run)
    show "length idx = length batch" by (rule len)
    show "entrylog_read ?d' (idx ! i) = Inr (record_of (batch ! i))" if "i < length batch" for i
      by (rule w(2) [OF _ that])
    show "entrylog_read ?d' i = Inr r" if "entrylog_read d i = Inr r" for i r
      by (rule entrylog_read_extend [OF ext that])
    show "log_inv ?d' (ws1\<lparr>active_offset := end\<rparr>)" by (rule w(1))
  qed
qed

definition demo_entry :: "u64 \<Rightarrow> u8 \<Rightarrow> EntryToAppend" where
  "demo_entry eid b = \<lparr>ea_ledger_id = 1, ea_entry_id = eid, ea_partition = 0, ea_metadata = [7], ea_payload = [b, b]\<rparr>"

definition demo_ws :: "u64 \<Rightarrow> WriteState" where
  "demo_ws limit = \<lparr>log_size_limit = limit, active_file_id = 0, active_offset = 0, ws_file = entry_log_path 0\<rparr>"

definition demo_dir :: log_dir where
  "demo_dir = [entry_log_path 0 \<mapsto> []]"

lemma demo_log_inv: "log_inv demo_dir (demo_ws limit)"
  by (auto simp: log_inv_def demo_dir_def demo_ws_def)

theorem entrylog_batch_roundtrip_witness:
  "\<exists>idx ws' d'. append_batch True Write_ok demo_dir (demo_ws 1000) [demo_entry 0 5, demo_entry 1 6] = (Inr idx, ws', d') \<and>
    entrylog_read d' (idx ! 1) = Inr (record_of (demo_entry 1 6))"
proof -
  have "entry_ok e" if "e \<in> set [demo_entry 0 5, demo_entry 1 6]" for e
    using that by (auto simp: entry_ok_def demo_entry_def i32_ok_def u32_cap_def)
  moreover have "unat (active_offset (demo_ws 1000)) + batch_bytes [demo_entry 0 5, demo_entry 1 6] < u64_cap"
    by (simp add: demo_ws_def demo_entry_def u64_cap_def)
  moreover have "active_file_id (demo_ws 1000) \<noteq> u64_MAX" by (simp add: demo_ws_def)
  ultimately obtain idx ws' d' where run: "append_batch True Write_ok demo_dir (demo_ws 1000) [demo_entry 0 5, demo_entry 1 6] = (Inr idx, ws', d')"
    and rd: "\<forall>i < length [demo_entry 0 5, demo_entry 1 6].
      entrylog_read d' (idx ! i) = Inr (record_of ([demo_entry 0 5, demo_entry 1 6] ! i))"
    using entrylog_batch_roundtrip [OF demo_log_inv, of "[demo_entry 0 5, demo_entry 1 6]" 1000] by blast
  have "entrylog_read d' (idx ! 1) = Inr (record_of (demo_entry 1 6))" using rd [rule_format, of 1] by simp
  with run show ?thesis by blast
qed

section \<open>Opening the log\<close>

lemma is_digit_digit_char: "n < 10 \<Longrightarrow> is_digit (digit_char n)"
  by (simp add: is_digit_def digit_char_def)

lemma dec_string_digits: "list_all is_digit (dec_string n)" "dec_string n \<noteq> []"
proof -
  have "list_all is_digit (dec_string n) \<and> dec_string n \<noteq> []"
    by (induction n rule: dec_string.induct)
       (subst dec_string.simps, subst dec_string.simps, auto simp: is_digit_digit_char)
  then show "list_all is_digit (dec_string n)" "dec_string n \<noteq> []" by auto
qed

lemma parse_u64_dec_string: "parse_u64 (dec_string (unat x)) = Some x"
proof -
  obtain c cs where c: "dec_string (unat x) = c # cs" using dec_string_digits(2) by (cases "dec_string (unat x)") auto
  then have "is_digit c" using dec_string_digits(1) [of "unat x"] by simp
  then have "c \<noteq> CHR ''+''" by (auto simp: is_digit_def)
  then show ?thesis
    using c dec_string_digits(1) [of "unat x"] dec_val_dec_string [of "unat x"] unat_less_u64_cap [of x]
    by (simp add: parse_u64_def Let_def)
qed

lemma parse_entry_log_path: "parse_log_file_id (entry_log_path fid) = Some fid"
  by (simp add: parse_log_file_id_def entry_log_path_def parse_u64_dec_string)

lemma max_fold_bound:
  assumes "fold (\<lambda>name mx. case parse_log_file_id name of
                   None \<Rightarrow> mx
                 | Some fid \<Rightarrow> Some (case mx of None \<Rightarrow> fid | Some m \<Rightarrow> max m fid)) names acc = r"
  shows "(\<forall>m. acc = Some m \<longrightarrow> (\<exists>k. r = Some k \<and> m \<le> k)) \<and>
    (\<forall>name \<in> set names. \<forall>fid. parse_log_file_id name = Some fid \<longrightarrow> (\<exists>k. r = Some k \<and> fid \<le> k))"
  using assms
proof (induction names arbitrary: acc)
  case (Cons name names)
  let ?acc = "case parse_log_file_id name of None \<Rightarrow> acc
                 | Some fid \<Rightarrow> Some (case acc of None \<Rightarrow> fid | Some m \<Rightarrow> max m fid)"
  have step: "(\<forall>m. ?acc = Some m \<longrightarrow> (\<exists>k. r = Some k \<and> m \<le> k)) \<and>
    (\<forall>name \<in> set names. \<forall>fid. parse_log_file_id name = Some fid \<longrightarrow> (\<exists>k. r = Some k \<and> fid \<le> k))"
    by (rule Cons.IH) (use Cons.prems in simp)
  then show ?case by (auto split: option.splits simp: max_def split: if_splits)
qed simp

text \<open>C28: Opening the log over a directory whose names are all listed picks a file id above
  every existing log file, so the log that is opened is empty and consistent.\<close>

theorem entrylog_open_fresh:
  assumes names: "\<And>f. d f \<noteq> None \<Longrightarrow> f \<in> set names" and run: "WriteState_open True d names limit = (Inr ws, d')"
  shows "log_inv d' ws \<and> active_offset ws = 0 \<and> d (ws_file ws) = None \<and> extends d d'"
proof -
  obtain fid where fid: "next_entry_log_file_id names = Inr fid"
    and ws: "ws = \<lparr>log_size_limit = limit, active_file_id = fid, active_offset = 0, ws_file = entry_log_path fid\<rparr>"
    and d': "d' = open_append d (entry_log_path fid)"
    using run by (auto simp: WriteState_open_def split: sum.splits)
  define mx where "mx = fold (\<lambda>name mx. case parse_log_file_id name of
                   None \<Rightarrow> mx
                 | Some fid \<Rightarrow> Some (case mx of None \<Rightarrow> fid | Some m \<Rightarrow> max m fid)) names None"
  have fresh: "d (entry_log_path k) = None" if "fid \<le> k" for k
  proof (rule ccontr)
    assume "d (entry_log_path k) \<noteq> None"
    then have "entry_log_path k \<in> set names" by (rule names)
    then obtain m where m: "mx = Some m" "k \<le> m"
      using max_fold_bound [OF mx_def [symmetric]] parse_entry_log_path by blast
    then have "m \<noteq> u64_MAX" "fid = m + 1"
      using fid unfolding next_entry_log_file_id_def mx_def [symmetric] by (auto split: if_splits)
    then show False using that m(2) word_less_Suc_iff [of m] by (metis leD order_trans)
  qed
  show ?thesis
    using fresh unfolding ws d' by (auto simp: log_inv_def open_append_def extends_def)
qed

theorem entrylog_open_fresh_witness:
  "\<exists>ws d'. WriteState_open True demo_dir [''0.log'', ''lost+found''] 1000 = (Inr ws, d') \<and>
     active_file_id ws = 1 \<and> log_inv d' ws"
proof -
  have p0: "entry_log_path 0 = ''0.log''" by code_simp
  have nx: "next_entry_log_file_id [''0.log'', ''lost+found''] = Inr 1"
    using parse_entry_log_path [of 0] unfolding p0
    by (simp add: next_entry_log_file_id_def parse_log_file_id_def [of "''lost+found''"])
  obtain ws d' where run: "WriteState_open True demo_dir [''0.log'', ''lost+found''] 1000 = (Inr ws, d')"
    and "active_file_id ws = 1"
    by (simp add: WriteState_open_def nx)
  moreover have "f \<in> set [''0.log'', ''lost+found'']" if "demo_dir f \<noteq> None" for f
    using that by (auto simp: demo_dir_def p0 split: if_splits)
  then have "log_inv d' ws" using entrylog_open_fresh [OF _ run] by blast
  ultimately show ?thesis by blast
qed

section \<open>Failed writes\<close>

text \<open>C32: After a rollover whose \<open>open\<close> failed, the writer keeps its old file but stamps the new
  file id: the next batch is reported as written, yet none of its entries can be read.\<close>

theorem entrylog_failed_rollover_loses_batch:
  assumes inv: "log_inv d ws" and fid: "active_file_id ws \<noteq> u64_MAX"
    and b1: "b1 \<noteq> []" "0 < active_offset ws" "log_size_limit ws < active_offset ws + sum_list (map entry_len b1)"
    and b2: "i < length b2"
  shows "\<exists>ws1 idx ws2 d2. append_batch False Write_ok d ws b1 = (Inl IoError, ws1, d) \<and>
    append_batch True Write_ok d ws1 b2 = (Inr idx, ws2, d2) \<and> length idx = length b2 \<and>
    entrylog_read d2 (idx ! i) = Inl IoError"
proof -
  let ?fid = "active_file_id ws + 1"
  define ws1 where "ws1 = ws\<lparr>active_file_id := ?fid, active_offset := 0\<rparr>"
  obtain e es where b1e: "b1 = e # es" using b1(1) by (cases b1) auto
  have run1: "append_batch False Write_ok d ws b1 = (Inl IoError, ws1, d)"
    using b1 by (simp add: append_batch_def write_batch_def Let_def ws1_def b1e)
  obtain idx buf "end" where fr: "frame_entries ?fid 0 b2 = (idx, buf, end)" by (cases "frame_entries ?fid 0 b2")
  have b2ne: "b2 \<noteq> []" using b2 by auto
  have run2: "append_batch True Write_ok d ws1 b2 =
      (Inr idx, ws1\<lparr>active_offset := end\<rparr>, append_file d (ws_file ws) buf)"
    using b2ne fr by (simp add: append_batch_def write_batch_def Let_def ws1_def)
  note sp = frame_entries_spec [of ?fid 0 b2, simplified, OF fr]
  have "ei_file_id (idx ! i) = ?fid" using sp(4) [OF b2] by (auto simp: index_of_def)
  moreover have "ws_file ws = entry_log_path (active_file_id ws)" using inv by (simp add: log_inv_def)
  moreover have "d (entry_log_path ?fid) = None"
    using inv word_less_Suc_iff [OF fid] by (simp add: log_inv_def)
  ultimately have "entrylog_read (append_file d (ws_file ws) buf) (idx ! i) = Inl IoError"
    by (simp add: entrylog_read_def append_file_def)
  then show ?thesis using run1 run2 sp(1) by blast
qed

theorem entrylog_failed_rollover_loses_batch_witness:
  "\<exists>d ws ws1 idx ws2 d2. append_batch True Write_ok demo_dir (demo_ws 50) [demo_entry 0 5] = (Inr idx, ws, d) \<and>
    (\<exists>idx2. append_batch False Write_ok d ws [demo_entry 1 6] = (Inl IoError, ws1, d) \<and>
      append_batch True Write_ok d ws1 [demo_entry 1 6] = (Inr idx2, ws2, d2) \<and>
      entrylog_read d2 (idx2 ! 0) = Inl IoError)"
proof -
  define ws where "ws = demo_ws 50\<lparr>active_offset := 47\<rparr>"
  define d where "d = append_file demo_dir (entry_log_path 0) (entry_bytes (demo_entry 0 5))"
  have run: "append_batch True Write_ok demo_dir (demo_ws 50) [demo_entry 0 5] = (Inr [index_of 0 0 (demo_entry 0 5)], ws, d)"
    by (simp add: append_batch_def write_batch_def Let_def ws_def d_def demo_ws_def index_of_def entry_len_def
        demo_entry_def ENTRY_HEADER_LEN_def)
  have inv: "log_inv d ws"
    by (auto simp: log_inv_def d_def ws_def demo_ws_def append_file_def demo_dir_def demo_entry_def)
  have fid: "active_file_id ws \<noteq> u64_MAX" by (simp add: ws_def demo_ws_def)
  have lim: "0 < active_offset ws" "log_size_limit ws < active_offset ws + sum_list (map entry_len [demo_entry 1 6])"
    by (simp_all add: ws_def demo_ws_def entry_len_def demo_entry_def ENTRY_HEADER_LEN_def)
  show ?thesis
    using run entrylog_failed_rollover_loses_batch [OF inv fid _ lim, of 0 "[demo_entry 1 6]"] by auto
qed

text \<open>A write that fails part-way leaves its bytes in the file but not in the offset: the next batch is
  reported as written at an offset where the file holds the torn entry, and cannot be read.\<close>

lemma entrylog_failed_write_misplaces_next:
  "\<exists>ws1 d1 idx ws2 d2.
     append_batch True (Write_fails 10) demo_dir (demo_ws 1000) [demo_entry 0 5] = (Inl IoError, ws1, d1) \<and>
     append_batch True Write_ok d1 ws1 [demo_entry 0 5] = (Inr idx, ws2, d2) \<and>
     entrylog_read d2 (idx ! 0) = Inl (Msg ''entrylog position does not match index'')"
proof -
  define d1 where "d1 = append_file demo_dir (entry_log_path 0) (take 10 (entry_bytes (demo_entry 0 5)))"
  define d2 where "d2 = append_file d1 (entry_log_path 0) (entry_bytes (demo_entry 0 5))"
  have r1: "append_batch True (Write_fails 10) demo_dir (demo_ws 1000) [demo_entry 0 5] = (Inl IoError, demo_ws 1000, d1)"
    by (simp add: append_batch_def write_batch_def Let_def d1_def demo_ws_def)
  have r2: "append_batch True Write_ok d1 (demo_ws 1000) [demo_entry 0 5] =
      (Inr [index_of 0 0 (demo_entry 0 5)], demo_ws 1000\<lparr>active_offset := 47\<rparr>, d2)"
    by (simp add: append_batch_def write_batch_def Let_def d2_def demo_ws_def index_of_def entry_len_def
        demo_entry_def ENTRY_HEADER_LEN_def)
  have "entrylog_read d2 (index_of 0 0 (demo_entry 0 5)) = Inl (Msg ''entrylog position does not match index'')"
  proof -
    have eb: "entry_bytes (demo_entry 0 5) =
      [0x47, 0x45, 0x4C, 0x50, 2, 0, 44, 0, 1, 0, 0, 0, 0, 0, 0, 0, 0, 0, 0, 0, 0, 0, 0, 0, 0, 0, 0, 0,
       1, 0, 0, 0, 2, 0, 0, 0, 17, 0, 0, 0, 0, 0, 0, 0, 7, 5, 5]"
      by (simp add: entry_bytes_def demo_entry_def le_bytes_numeral ENTRY_MAGIC_def ENTRY_VERSION_def
          ENTRY_HEADER_LEN_def checksum_def i32_as_u32_def)
    have c: "d2 (entry_log_path 0) = Some (take 10 (entry_bytes (demo_entry 0 5)) @ entry_bytes (demo_entry 0 5))"
      by (simp add: d2_def d1_def append_file_def demo_dir_def)
    define h where "h = take 44 (take 10 (entry_bytes (demo_entry 0 5)) @ entry_bytes (demo_entry 0 5))"
    have r: "read_exact_at (take 10 (entry_bytes (demo_entry 0 5)) @ entry_bytes (demo_entry 0 5)) 0 8 = Inr (take 8 h)"
      "read_exact_at (take 10 (entry_bytes (demo_entry 0 5)) @ entry_bytes (demo_entry 0 5)) 8 36 = Inr (drop 8 h)"
      by (simp_all add: read_exact_at_def h_def eb)
    have hd: "of_nat (le_val (take 4 (take 8 h))) = ENTRY_MAGIC" "of_nat (le_val (take 2 (drop 4 (take 8 h)))) = ENTRY_VERSION"
      "of_nat (le_val (drop 6 (take 8 h))) = ENTRY_HEADER_LEN"
      by (simp_all add: h_def eb ENTRY_MAGIC_def ENTRY_VERSION_def ENTRY_HEADER_LEN_def)
    have sl: "header_slice h 8 16 = Inr [1, 0, 0x47, 0x45, 0x4C, 0x50, 2, 0]"
      "header_slice h 16 24 = Inr [44, 0, 1, 0, 0, 0, 0, 0]" "header_slice h 24 28 = Inr [0, 0, 0, 0]"
      by (simp_all add: header_slice_def h_def eb)
    have lid: "(of_nat (le_val [1, 0, 0x47, 0x45, 0x4C, 0x50, 2, 0]) :: u64) \<noteq> 1" by simp
    have hl: "unat ENTRY_HEADER_LEN = 44" "ENTRY_VERSION \<noteq> ENTRY_VERSION_LEGACY"
      by (simp_all add: ENTRY_HEADER_LEN_def ENTRY_VERSION_def ENTRY_VERSION_LEGACY_def)
    have ix: "ei_file_id (index_of 0 0 (demo_entry 0 5)) = 0" "ei_offset (index_of 0 0 (demo_entry 0 5)) = 0"
      "ei_ledger_id (index_of 0 0 (demo_entry 0 5)) = 1"
      by (simp_all add: index_of_def demo_entry_def)
    show ?thesis
      unfolding entrylog_read_def ix c using r hd sl lid hl
      by (simp add: Let_def cong: and_then_weak_cong)
  qed
  with r1 r2 show ?thesis by force
qed

end
