(* ===== verification/PL_Limiter.thy ===== *)
theory PL_Limiter
  imports PL_Prelude
begin

text \<open>
  The connection limiter (\<open>broker/connection_limiter.rs\<close>). The mutex makes every call atomic, so
  the limiter is its state record and a connection attempt or the drop of a permit is one step. A
  run of the accept loop is a sequence of such steps over the permits that are alive.
\<close>

section \<open>Model\<close>

datatype IpAddr = V4 u32 | V6 "128 word"

record ConnectionLimiterState =
  max_connections :: usize
  max_connections_per_ip :: usize
  total_connections :: usize
  connections_per_ip :: "IpAddr \<rightharpoonup> usize"

record ConnectionPermit =
  permit_ip :: IpAddr
  permit_released :: bool

definition ConnectionLimiter_new :: "usize \<Rightarrow> usize \<Rightarrow> ConnectionLimiterState" where
  "ConnectionLimiter_new mx mx_ip = \<lparr>max_connections = mx, max_connections_per_ip = mx_ip,
     total_connections = 0, connections_per_ip = Map.empty\<rparr>"

definition try_acquire ::
    "ConnectionLimiterState \<Rightarrow> IpAddr \<Rightarrow> ConnectionPermit result \<times> ConnectionLimiterState" where
  "try_acquire s ip =
     (if 0 < max_connections s \<and> max_connections s \<le> total_connections s
      then (Inl (Msg ''Reached the maximum number of broker connections''), s)
      else
      let per_ip = (case connections_per_ip s ip of Some n \<Rightarrow> n | None \<Rightarrow> 0) in
      if 0 < max_connections_per_ip s \<and> max_connections_per_ip s \<le> per_ip
      then (Inl (Msg ''Reached the maximum number of connections for address''), s)
      else (Inr \<lparr>permit_ip = ip, permit_released = False\<rparr>,
            s\<lparr>total_connections := total_connections s + 1,
              connections_per_ip := (connections_per_ip s)(ip \<mapsto> per_ip + 1)\<rparr>))"

definition active_connections :: "ConnectionLimiterState \<Rightarrow> usize" where
  "active_connections s = total_connections s"

text \<open>\<open>saturating_sub\<close> of \<open>usize\<close> is subtraction of natural numbers.\<close>

definition limiter_release :: "ConnectionLimiterState \<Rightarrow> IpAddr \<Rightarrow> ConnectionLimiterState" where
  "limiter_release s ip =
     (let s1 = s\<lparr>total_connections := total_connections s - 1\<rparr> in
      case connections_per_ip s1 ip of
        None \<Rightarrow> s1
      | Some count \<Rightarrow>
          if count - 1 = 0 then s1\<lparr>connections_per_ip := (connections_per_ip s1)(ip := None)\<rparr>
          else s1\<lparr>connections_per_ip := (connections_per_ip s1)(ip \<mapsto> count - 1)\<rparr>)"

definition permit_drop ::
    "ConnectionLimiterState \<Rightarrow> ConnectionPermit \<Rightarrow> ConnectionLimiterState \<times> ConnectionPermit" where
  "permit_drop s p =
     (if permit_released p then (s, p)
      else (limiter_release s (permit_ip p), p\<lparr>permit_released := True\<rparr>))"

section \<open>Runs\<close>

text \<open>\<open>ps\<close> are the permits held by open connections.\<close>

inductive limiter_step ::
    "ConnectionLimiterState \<times> ConnectionPermit list \<Rightarrow> ConnectionLimiterState \<times> ConnectionPermit list \<Rightarrow> bool" where
  Accept: "try_acquire s ip = (Inr p, s') \<Longrightarrow> limiter_step (s, ps) (s', p # ps)"
| Reject: "try_acquire s ip = (Inl e, s') \<Longrightarrow> limiter_step (s, ps) (s', ps)"
| Close: "limiter_step (s, ps @ p # qs) (fst (permit_drop s p), ps @ qs)"

inductive_cases limiter_stepE: "limiter_step (s, ps) t"

definition ip_count :: "ConnectionPermit list \<Rightarrow> IpAddr \<Rightarrow> nat" where
  "ip_count ps ip = length (filter (\<lambda>p. permit_ip p = ip) ps)"

definition limiter_inv :: "ConnectionLimiterState \<times> ConnectionPermit list \<Rightarrow> bool" where
  "limiter_inv t \<longleftrightarrow> (case t of (s, ps) \<Rightarrow>
     total_connections s = length ps \<and>
     (\<forall>ip. connections_per_ip s ip = (if ip_count ps ip = 0 then None else Some (ip_count ps ip))) \<and>
     (\<forall>p \<in> set ps. \<not> permit_released p) \<and>
     (0 < max_connections s \<longrightarrow> length ps \<le> max_connections s) \<and>
     (0 < max_connections_per_ip s \<longrightarrow> (\<forall>ip. ip_count ps ip \<le> max_connections_per_ip s)))"

lemma ip_count_simps [simp]:
  "ip_count [] ip = 0"
  "ip_count (p # ps) ip = (if permit_ip p = ip then 1 else 0) + ip_count ps ip"
  "ip_count (ps @ qs) ip = ip_count ps ip + ip_count qs ip"
  by (simp_all add: ip_count_def)

lemma limiter_inv_new: "limiter_inv (ConnectionLimiter_new mx mx_ip, [])"
  by (simp add: limiter_inv_def ConnectionLimiter_new_def)

lemma try_acquire_cases:
  assumes "try_acquire s ip = (r, s')"
  shows "(\<exists>e. r = Inl e \<and> s' = s) \<or>
    (\<exists>n. r = Inr \<lparr>permit_ip = ip, permit_released = False\<rparr> \<and>
       n = (case connections_per_ip s ip of Some n \<Rightarrow> n | None \<Rightarrow> 0) \<and>
       s' = s\<lparr>total_connections := total_connections s + 1, connections_per_ip := (connections_per_ip s)(ip \<mapsto> n + 1)\<rparr> \<and>
       (0 < max_connections s \<longrightarrow> total_connections s < max_connections s) \<and>
       (0 < max_connections_per_ip s \<longrightarrow> n < max_connections_per_ip s))"
  using assms by (auto simp: try_acquire_def Let_def not_le split: if_splits)

lemma limiter_inv_accept:
  assumes inv: "limiter_inv (s, ps)" and acq: "try_acquire s ip = (Inr p, s')"
  shows "limiter_inv (s', p # ps)"
proof -
  have n: "(case connections_per_ip s ip of Some n \<Rightarrow> n | None \<Rightarrow> 0) = ip_count ps ip"
    using inv by (auto simp: limiter_inv_def)
  with try_acquire_cases [OF acq] have
    p: "p = \<lparr>permit_ip = ip, permit_released = False\<rparr>" and
    s': "s' = s\<lparr>total_connections := total_connections s + 1,
           connections_per_ip := (connections_per_ip s)(ip \<mapsto> ip_count ps ip + 1)\<rparr>" and
    lim: "0 < max_connections s \<longrightarrow> total_connections s < max_connections s"
      "0 < max_connections_per_ip s \<longrightarrow> ip_count ps ip < max_connections_per_ip s"
    by auto
  show ?thesis using inv lim unfolding p s' by (auto simp: limiter_inv_def Suc_le_eq)
qed

lemma limiter_inv_close:
  assumes inv: "limiter_inv (s, ps @ p # qs)"
  shows "limiter_inv (fst (permit_drop s p), ps @ qs)"
proof -
  let ?n = "ip_count (ps @ qs) (permit_ip p)"
  have rel: "fst (permit_drop s p) = limiter_release s (permit_ip p)"
    using inv by (simp add: limiter_inv_def permit_drop_def)
  have cnt: "connections_per_ip s (permit_ip p) = Some (Suc ?n)" using inv by (simp add: limiter_inv_def)
  have s': "limiter_release s (permit_ip p) = s\<lparr>total_connections := length (ps @ qs),
      connections_per_ip := (connections_per_ip s)(permit_ip p := (if ?n = 0 then None else Some ?n))\<rparr>"
    using inv cnt by (auto simp: limiter_release_def Let_def limiter_inv_def)
  have maxs: "0 < max_connections s \<Longrightarrow> length (ps @ qs) \<le> max_connections s"
    using inv by (auto simp: limiter_inv_def)
  have "ip_count (ps @ qs) ip \<le> max_connections_per_ip s" if "0 < max_connections_per_ip s" for ip
    using inv that by (auto simp: limiter_inv_def split: if_splits dest!: spec [of _ ip])
  then show ?thesis using inv maxs unfolding rel s' by (auto simp: limiter_inv_def)
qed

lemma limiter_inv_step: "limiter_step t u \<Longrightarrow> limiter_inv t \<Longrightarrow> limiter_inv u"
proof (induction rule: limiter_step.induct)
  case (Reject s ip e s' ps)
  then show ?case using try_acquire_cases [OF Reject.hyps] by auto
qed (simp_all add: limiter_inv_accept limiter_inv_close)

lemma limiter_limits_fixed: "limiter_step t u \<Longrightarrow>
    max_connections (fst u) = max_connections (fst t) \<and> max_connections_per_ip (fst u) = max_connections_per_ip (fst t)"
proof (induction rule: limiter_step.induct)
  case (Accept s ip p s' ps)
  then show ?case using try_acquire_cases [OF Accept.hyps] by auto
next
  case (Reject s ip e s' ps)
  then show ?case using try_acquire_cases [OF Reject.hyps] by auto
qed (auto simp: permit_drop_def limiter_release_def Let_def split: option.splits)

lemma limiter_reachable:
  assumes "limiter_step\<^sup>*\<^sup>* (ConnectionLimiter_new mx mx_ip, []) t"
  shows "limiter_inv t \<and> max_connections (fst t) = mx \<and> max_connections_per_ip (fst t) = mx_ip"
  using assms
proof (induction rule: rtranclp_induct)
  case base
  then show ?case by (simp add: limiter_inv_new) (simp add: ConnectionLimiter_new_def)
qed (use limiter_inv_step limiter_limits_fixed in auto)

section \<open>Properties\<close>

text \<open>C15: Whatever connections open and close, the gauge equals the number of open
  connections, a configured limit (overall or per address) is never exceeded, and a connection
  attempt is refused only when one of the limits is reached.\<close>

theorem connection_limits_hold:
  assumes "limiter_step\<^sup>*\<^sup>* (ConnectionLimiter_new mx mx_ip, []) (s, ps)"
  shows "active_connections s = length ps \<and> (0 < mx \<longrightarrow> length ps \<le> mx) \<and>
    (0 < mx_ip \<longrightarrow> ip_count ps ip \<le> mx_ip) \<and>
    ((\<exists>e. fst (try_acquire s ip) = Inl e) \<longleftrightarrow>
      0 < mx \<and> length ps = mx \<or> 0 < mx_ip \<and> ip_count ps ip = mx_ip)"
proof -
  have inv: "limiter_inv (s, ps)" and lim: "max_connections s = mx" "max_connections_per_ip s = mx_ip"
    using limiter_reachable [OF assms] by auto
  have act: "active_connections s = length ps" using inv by (simp add: limiter_inv_def active_connections_def)
  have le: "0 < mx \<longrightarrow> length ps \<le> mx" using inv lim by (auto simp: limiter_inv_def)
  have le_ip: "0 < mx_ip \<longrightarrow> ip_count ps ip \<le> mx_ip" using inv lim by (auto simp: limiter_inv_def)
  have n: "(case connections_per_ip s ip of Some n \<Rightarrow> n | None \<Rightarrow> 0) = ip_count ps ip"
    and tot: "total_connections s = length ps"
    using inv by (auto simp: limiter_inv_def)
  have "(\<exists>e. fst (try_acquire s ip) = Inl e) \<longleftrightarrow>
      0 < mx \<and> length ps = mx \<or> 0 < mx_ip \<and> ip_count ps ip = mx_ip"
    using le le_ip by (auto simp: try_acquire_def Let_def n tot lim)
  with act le le_ip show ?thesis by blast
qed

theorem connection_limits_hold_witness:
  "fst (try_acquire (snd (try_acquire (ConnectionLimiter_new 1 0) (V4 1))) (V4 2)) \<in> range Inl"
proof -
  let ?s = "snd (try_acquire (ConnectionLimiter_new 1 0) (V4 1))"
  have "limiter_step (ConnectionLimiter_new 1 0, []) (?s, [\<lparr>permit_ip = V4 1, permit_released = False\<rparr>])"
    by (rule Accept [where ip = "V4 1"]) (simp add: try_acquire_def ConnectionLimiter_new_def)
  then have "\<exists>e. fst (try_acquire ?s (V4 2)) = Inl e"
    using connection_limits_hold [of 1 0 ?s "[\<lparr>permit_ip = V4 1, permit_released = False\<rparr>]" "V4 2"] by auto
  then show ?thesis by auto
qed

end
