(* ===== verification/PL_Codec.thy ===== *)
theory PL_Codec
  imports PL_Prelude
begin

text \<open>
  The wire protocol (\<open>proto/src/command.rs\<close> and \<open>proto/src/codec.rs\<close>): the commands the broker
  sends and the frames they travel in. The protobuf messages generated from \<open>PulsarApi.proto\<close> are
  datatypes and records with the fields the sources read or set; the generated encoder and decoder
  are the fields of the record \<open>proto_ext\<close>, an argument of the definitions that use them. What the
  codec relies on is \<open>proto_laws\<close>: the announced length is the length of the encoding.
\<close>

section \<open>Big-endian integers\<close>

fun be_bytes :: "nat \<Rightarrow> nat \<Rightarrow> bytes" where
  "be_bytes 0 v = []"
| "be_bytes (Suc n) v = be_bytes n (v div 256) @ [of_nat (v mod 256)]"

definition be_val :: "bytes \<Rightarrow> nat" where
  "be_val bs = foldl (\<lambda>acc b. 256 * acc + unat b) 0 bs"

lemma length_be_bytes [simp]: "length (be_bytes n v) = n"
  by (induction n arbitrary: v) auto

lemma be_val_snoc [simp]: "be_val (bs @ [b]) = 256 * be_val bs + unat b"
  by (simp add: be_val_def)

lemma be_val_be_bytes: "v < 256 ^ n \<Longrightarrow> be_val (be_bytes n v) = v"
proof (induction n arbitrary: v)
  case (Suc n)
  then have "v div 256 < 256 ^ n" by (simp add: less_mult_imp_div_less mult.commute)
  moreover have "unat (of_nat (v mod 256) :: u8) = v mod 256" by (simp add: unat_of_nat)
  ultimately show ?case using Suc.IH [of "v div 256"] by simp
qed (simp add: be_val_def)

lemma be_bytes_numeral [eval_simps]:
  "be_bytes (numeral k) v = be_bytes (pred_numeral k) (v div 256) @ [of_nat (v mod 256)]"
  by (subst numeral_eq_Suc) simp

lemma be_bytes_4_high: "take 2 (be_bytes 4 v) = be_bytes 2 (v div 65536)"
  using div_mult2_eq [of v 256 256] by (simp add: be_bytes_numeral)

section \<open>Commands\<close>

datatype ServerError =
    UnknownError | MetadataError | PersistenceError | AuthenticationError | AuthorizationError
  | ConsumerBusy | ServiceNotReady | ProducerBlockedQuotaExceededError
  | ProducerBlockedQuotaExceededException | ChecksumError | UnsupportedVersionError | TopicNotFound
  | SubscriptionNotFound | ConsumerNotFound | TooManyRequests | TopicTerminatedError | ProducerBusy
  | InvalidTopicName | IncompatibleSchema | ConsumerAssignError | TransactionCoordinatorNotFound
  | InvalidTxnStatus | NotAllowedError | TransactionConflict | TransactionNotFound | ProducerFenced

record MessageIdData =
  mid_ledger_id :: u64
  mid_entry_id :: u64
  mid_partition :: "i32 option"

text \<open>One case per message of \<open>BaseCommand\<close> that the broker builds, with the fields it sets.\<close>

datatype BaseCommand =
    CommandConnected string "i32 option"
  | CommandLookupTopicResponse u64 "string option" bool bool
  | CommandPartitionedTopicMetadataResponse u64 "u32 option"
  | CommandSendReceipt u64 u64 "MessageIdData option"
  | CommandSendError u64 u64 ServerError string
  | CommandSuccess u64
  | CommandError u64 string
  | CommandProducerSuccess u64 string "int option" "bytes option" "bool option"
  | CommandConsumerStatsResponse u64 "string option"
  | CommandMessage u64 MessageIdData "u32 option"
  | CommandAckResponse u64 "u64 option"
  | CommandGetLastMessageIdResponse u64 MessageIdData
  | CommandPing
  | CommandPong

datatype ServerCommand =
    Connected (sc_server_version: string) (sc_protocol_version: i32)
  | LookupResponse (sc_request_id: u64) (sc_broker_service_url: string)
  | PartitionMetadataResponse u64 i32
  | SendReceipt u64 u64 u64 u64 i32
  | SendError u64 u64 ServerError string
  | Success u64
  | Error u64 string
  | ProducerSuccess u64 string u64
  | ConsumerStatsResponse u64 string
  | Message u64 u64 u64 i32 bytes bytes
  | AckResponse u64 u64
  | LastMessageIdResponse u64 u64 u64 i32
  | Ping
  | Pong

definition id_data :: "u64 \<Rightarrow> u64 \<Rightarrow> i32 \<Rightarrow> MessageIdData" where
  "id_data lid eid part = \<lparr>mid_ledger_id = lid, mid_entry_id = eid, mid_partition = Some part\<rparr>"

fun to_base_command :: "ServerCommand \<Rightarrow> BaseCommand" where
  "to_base_command (Connected v p) = CommandConnected v (Some p)"
| "to_base_command (LookupResponse rid url) = CommandLookupTopicResponse rid (Some url) False False"
| "to_base_command (PartitionMetadataResponse rid parts) =
     CommandPartitionedTopicMetadataResponse rid (Some (i32_as_u32 parts))"
| "to_base_command (SendReceipt pid seqid lid eid part) =
     CommandSendReceipt pid seqid (Some (id_data lid eid part))"
| "to_base_command (SendError pid seqid err msg) = CommandSendError pid seqid err msg"
| "to_base_command (Success rid) = CommandSuccess rid"
| "to_base_command (Error rid err) = CommandError rid err"
| "to_base_command (ProducerSuccess rid name pid) =
     CommandProducerSuccess rid name (Some (- 1)) (Some []) (Some True)"
| "to_base_command (ConsumerStatsResponse rid name) = CommandConsumerStatsResponse rid (Some name)"
| "to_base_command (Message cid lid eid part md pl) = CommandMessage cid (id_data lid eid part) None"
| "to_base_command (AckResponse cid rid) = CommandAckResponse cid (Some rid)"
| "to_base_command (LastMessageIdResponse rid lid eid part) =
     CommandGetLastMessageIdResponse rid (id_data lid eid part)"
| "to_base_command Ping = CommandPing"
| "to_base_command Pong = CommandPong"

definition has_payload :: "ServerCommand \<Rightarrow> bool" where
  "has_payload c = (case c of Message _ _ _ _ _ _ \<Rightarrow> True | _ \<Rightarrow> False)"

definition get_payload :: "ServerCommand \<Rightarrow> bytes option" where
  "get_payload c = (case c of Message _ _ _ _ _ pl \<Rightarrow> Some pl | _ \<Rightarrow> None)"

text \<open>The fields of \<open>MessageMetadata\<close> that the broker looks at.\<close>

record MessageMetadata =
  mm_producer_name :: string
  mm_sequence_id :: u64
  mm_publish_time :: u64
  mm_partition_key :: "string option"
  mm_ordering_key :: "bytes option"
  mm_num_messages_in_batch :: "i32 option"

record proto_ext =
  cmd_encoded_len :: "BaseCommand \<Rightarrow> usize"
  cmd_encode :: "BaseCommand \<Rightarrow> bytes result"
  meta_encoded_len :: "MessageMetadata \<Rightarrow> usize"
  meta_encode :: "MessageMetadata \<Rightarrow> bytes result"
  meta_decode :: "bytes \<Rightarrow> MessageMetadata option"

definition proto_laws :: "proto_ext \<Rightarrow> bool" where
  "proto_laws px \<longleftrightarrow>
     (\<forall>c bs. cmd_encode px c = Inr bs \<longrightarrow> length bs = cmd_encoded_len px c) \<and>
     (\<forall>m bs. meta_encode px m = Inr bs \<longrightarrow> length bs = meta_encoded_len px m)"

section \<open>Frames\<close>

definition MAGIC_NUMBER :: u16 where "MAGIC_NUMBER = 0x0e01"
definition MAX_MESSAGE_SIZE :: usize where "MAX_MESSAGE_SIZE = 5 * 1024 * 1024"

record PulsarFrameCodec =
  max_frame_size :: usize

definition PulsarFrameCodec_new :: PulsarFrameCodec where
  "PulsarFrameCodec_new = \<lparr>max_frame_size = MAX_MESSAGE_SIZE + 10 * 1024\<rparr>"

record PulsarFrame =
  pf_command :: bytes
  pf_metadata :: "bytes option"
  pf_payload :: bytes
  pf_checksum :: "u32 option"

record EncodedMessageParts =
  emp_header :: bytes
  emp_metadata :: bytes
  emp_payload :: bytes

definition message_command :: "u64 \<Rightarrow> u64 \<Rightarrow> u64 \<Rightarrow> i32 \<Rightarrow> u32 \<Rightarrow> BaseCommand" where
  "message_command cid lid eid part redelivery_count =
     CommandMessage cid (id_data lid eid part) (Some redelivery_count)"

definition default_metadata :: "u64 \<Rightarrow> MessageMetadata" where
  "default_metadata eid = \<lparr>mm_producer_name = [], mm_sequence_id = eid, mm_publish_time = 0,
     mm_partition_key = None, mm_ordering_key = None, mm_num_messages_in_batch = None\<rparr>"

definition estimate_message_parts_size ::
    "proto_ext \<Rightarrow> u64 \<Rightarrow> u64 \<Rightarrow> u64 \<Rightarrow> i32 \<Rightarrow> bytes \<Rightarrow> bytes \<Rightarrow> u32 \<Rightarrow> usize" where
  "estimate_message_parts_size px cid lid eid part metadata payload redelivery_count =
     (let cmd_len = cmd_encoded_len px (message_command cid lid eid part redelivery_count);
          metadata_len = (if metadata = [] then meta_encoded_len px (default_metadata eid) else length metadata)
      in (4 + 4 + cmd_len + 4) + metadata_len + length payload)"

text \<open>\<open>put_u32(x as u32)\<close>.\<close>

definition put_u32 :: "usize \<Rightarrow> bytes" where
  "put_u32 x = be_bytes 4 (unat (of_nat x :: u32))"

definition encode_message_parts ::
    "proto_ext \<Rightarrow> u64 \<Rightarrow> u64 \<Rightarrow> u64 \<Rightarrow> i32 \<Rightarrow> bytes \<Rightarrow> bytes \<Rightarrow> u32 \<Rightarrow> EncodedMessageParts result" where
  "encode_message_parts px cid lid eid part metadata payload redelivery_count =
     (let command = message_command cid lid eid part redelivery_count;
          cmd_len = cmd_encoded_len px command
      in and_then (if metadata = [] then meta_encode px (default_metadata eid) else Inr metadata) (\<lambda>metadata_bytes.
         let total_size = 4 + cmd_len + 4 + length metadata_bytes + length payload in
         and_then (cmd_encode px command) (\<lambda>cmd.
           Inr \<lparr>emp_header = put_u32 total_size @ put_u32 cmd_len @ cmd @ put_u32 (length metadata_bytes),
                emp_metadata = metadata_bytes, emp_payload = payload\<rparr>)))"

text \<open>\<open>encode_message\<close> and \<open>encode\<close> append to the output buffer; a failure leaves the bytes already written.\<close>

definition encode_message ::
    "proto_ext \<Rightarrow> u64 \<Rightarrow> u64 \<Rightarrow> u64 \<Rightarrow> i32 \<Rightarrow> bytes \<Rightarrow> bytes \<Rightarrow> u32 \<Rightarrow> bytes \<Rightarrow> unit result \<times> bytes" where
  "encode_message px cid lid eid part metadata payload redelivery_count dst =
     (case encode_message_parts px cid lid eid part metadata payload redelivery_count of
        Inl e \<Rightarrow> (Inl e, dst)
      | Inr parts \<Rightarrow> (Inr (), dst @ emp_header parts @ emp_metadata parts @ emp_payload parts))"

definition codec_encode :: "proto_ext \<Rightarrow> ServerCommand \<Rightarrow> bytes \<Rightarrow> unit result \<times> bytes" where
  "codec_encode px item dst =
     (case item of
        Message cid lid eid part metadata payload \<Rightarrow>
          encode_message px cid lid eid part metadata payload 0 dst
      | _ \<Rightarrow>
          let command = to_base_command item;
              cmd_len = cmd_encoded_len px command;
              total_size = 4 + cmd_len;
              dst' = dst @ put_u32 total_size @ put_u32 cmd_len
          in case cmd_encode px command of
               Inl e \<Rightarrow> (Inl e, dst')
             | Inr bs \<Rightarrow> (Inr (), dst' @ bs))"

text \<open>
  \<open>decode\<close> works on the receive buffer. It returns a frame, or nothing while the frame is
  incomplete, and the buffer that remains.
\<close>

definition decode_checksum :: "bytes \<Rightarrow> u32 option \<times> bytes" where
  "decode_checksum frame_data =
     (if 6 \<le> length frame_data \<and> be_val (take 2 frame_data) = unat MAGIC_NUMBER
      then (Some (of_nat (be_val (take 4 (drop 2 frame_data)))), drop 6 frame_data)
      else (None, frame_data))"

definition decode_metadata :: "bytes \<Rightarrow> bytes option \<times> bytes" where
  "decode_metadata remaining =
     (if 4 \<le> length remaining
      then let metadata_size = be_val (take 4 remaining);
               remaining = drop 4 remaining
           in if metadata_size \<le> length remaining
              then (Some (take metadata_size remaining), drop metadata_size remaining)
              else (None, remaining)
      else (None, remaining))"

definition codec_decode :: "PulsarFrameCodec \<Rightarrow> bytes \<Rightarrow> PulsarFrame option result \<times> bytes" where
  "codec_decode codec src =
     (if length src < 4 then (Inr None, src)
      else
      let total_size = be_val (take 4 src) in
      if max_frame_size codec < total_size then (Inl (Msg ''Frame too large''), src)
      else if length src < 4 + total_size then (Inr None, src)
      else
      let frame_data = drop 4 (take (4 + total_size) src);
          src' = drop (4 + total_size) src
      in
      if length frame_data < 4 then (Inl (Msg ''Missing command size''), src')
      else
      let cmd_size = be_val (take 4 frame_data);
          frame_data = drop 4 frame_data
      in
      if length frame_data < cmd_size then (Inl (Msg ''Incomplete command data''), src')
      else
      let command = take cmd_size frame_data;
          frame_data = drop cmd_size frame_data;
          (checksum, remaining) = decode_checksum frame_data;
          (metadata, payload) = decode_metadata remaining
      in (Inr (Some \<lparr>pf_command = command, pf_metadata = metadata, pf_payload = payload,
                     pf_checksum = checksum\<rparr>), src'))"

definition messages_in_batch :: "proto_ext \<Rightarrow> bytes \<Rightarrow> u32" where
  "messages_in_batch px metadata =
     (case meta_decode px metadata of
        None \<Rightarrow> 1
      | Some m \<Rightarrow>
          (case mm_num_messages_in_batch m of
             Some n \<Rightarrow> if 0 < n then i32_as_u32 n else 1
           | None \<Rightarrow> 1))"

section \<open>Frames survive the wire\<close>

lemma put_u32_length [simp]: "length (put_u32 n) = 4"
  by (simp add: put_u32_def)

lemma be_val_put_u32: "n < 2 ^ 32 \<Longrightarrow> be_val (put_u32 n) = n"
  by (simp add: put_u32_def be_val_be_bytes unat_of_nat)

text \<open>A length below the frame limit cannot be mistaken for the checksum magic.\<close>

lemma put_u32_not_magic:
  assumes "n < 0x0e010000"
  shows "be_val (take 2 (put_u32 n)) \<noteq> unat MAGIC_NUMBER"
proof -
  have "unat (of_nat n :: u32) = n" using assms by (simp add: unat_of_nat)
  moreover have "be_val (be_bytes 2 (n div 65536)) = n div 65536"
    using assms by (intro be_val_be_bytes) simp
  ultimately have "be_val (take 2 (put_u32 n)) = n div 65536"
    by (simp add: put_u32_def be_bytes_4_high)
  then show ?thesis using assms by (simp add: MAGIC_NUMBER_def)
qed

definition frame_bytes :: "bytes \<Rightarrow> bytes \<Rightarrow> bytes" where
  "frame_bytes cmd body = put_u32 (4 + length cmd + length body) @ put_u32 (length cmd) @ cmd @ body"

lemma decode_incomplete:
  assumes "4 + length cmd + length body \<le> max_frame_size codec" "max_frame_size codec < 2 ^ 32"
    and "n < length (frame_bytes cmd body)"
  shows "codec_decode codec (take n (frame_bytes cmd body)) = (Inr None, take n (frame_bytes cmd body))"
proof -
  let ?t = "4 + length cmd + length body"
  have t: "be_val (put_u32 ?t) = ?t" by (rule be_val_put_u32) (use assms in simp)
  show ?thesis
  proof (cases "n < 4")
    case False
    then have "take 4 (take n (frame_bytes cmd body)) = put_u32 ?t" by (simp add: frame_bytes_def min_def)
    with t False assms show ?thesis by (simp add: codec_decode_def Let_def frame_bytes_def)
  qed (simp add: codec_decode_def min_less_iff_disj)
qed

lemma decode_frame:
  assumes "4 + length cmd + length body \<le> max_frame_size codec" "max_frame_size codec < 2 ^ 32"
    and "decode_checksum body = (ck, tail)" "decode_metadata tail = (md, pl)"
  shows "codec_decode codec (frame_bytes cmd body @ rest) =
    (Inr (Some \<lparr>pf_command = cmd, pf_metadata = md, pf_payload = pl, pf_checksum = ck\<rparr>), rest)"
proof -
  let ?t = "4 + length cmd + length body"
  have t: "be_val (put_u32 ?t) = ?t" by (rule be_val_put_u32) (use assms in simp)
  have c: "be_val (put_u32 (length cmd)) = length cmd" by (rule be_val_put_u32) (use assms in simp)
  have src: "take 4 (frame_bytes cmd body @ rest) = put_u32 ?t"
    "drop 4 (take (4 + ?t) (frame_bytes cmd body @ rest)) = put_u32 (length cmd) @ cmd @ body"
    "drop (4 + ?t) (frame_bytes cmd body @ rest) = rest"
    "length (frame_bytes cmd body @ rest) = 4 + ?t + length rest"
    by (simp_all add: frame_bytes_def)
  show ?thesis
    unfolding codec_decode_def src t Let_def using assms c by simp
qed

lemma decode_metadata_put:
  assumes "length md < 2 ^ 32"
  shows "decode_metadata (put_u32 (length md) @ md @ pl) = (Some md, pl)"
  using be_val_put_u32 [OF assms] by (simp add: decode_metadata_def Let_def)

lemma decode_checksum_put:
  assumes "n < 0x0e010000"
  shows "decode_checksum (put_u32 n @ bs) = (None, put_u32 n @ bs)"
  using put_u32_not_magic [OF assms] by (simp add: decode_checksum_def)

lemma decode_checksum_empty: "decode_checksum [] = (None, [])" "decode_metadata [] = (None, [])"
  by (simp_all add: decode_checksum_def decode_metadata_def)

text \<open>C33: A message frame that fits the limit is decoded to the command, metadata and payload that
  were encoded, whatever follows it in the buffer, and every proper prefix of it is left in the
  buffer until the rest arrives. Missing metadata is replaced by default metadata carrying the entry
  id, and the size announced to the flow control is the size on the wire.\<close>

theorem message_frame_roundtrip:
  assumes laws: "proto_laws px"
    and cmd: "cmd_encode px (message_command cid lid eid part rc) = Inr cmd"
    and md: "(if metadata = [] then meta_encode px (default_metadata eid) else Inr metadata) = Inr md"
    and size: "8 + length cmd + length md + length payload \<le> max_frame_size PulsarFrameCodec_new"
  shows "\<exists>bs. encode_message px cid lid eid part metadata payload rc dst = (Inr (), dst @ bs) \<and>
    codec_decode PulsarFrameCodec_new (bs @ rest) =
      (Inr (Some \<lparr>pf_command = cmd, pf_metadata = Some md, pf_payload = payload, pf_checksum = None\<rparr>), rest) \<and>
    (\<forall>n < length bs. codec_decode PulsarFrameCodec_new (take n bs) = (Inr None, take n bs)) \<and>
    estimate_message_parts_size px cid lid eid part metadata payload rc = length bs"
proof -
  let ?body = "put_u32 (length md) @ md @ payload"
  let ?bs = "frame_bytes cmd ?body"
  have lim: "max_frame_size PulsarFrameCodec_new < 0x0e010000"
    by (simp add: PulsarFrameCodec_new_def MAX_MESSAGE_SIZE_def)
  have sz: "4 + length cmd + length ?body \<le> max_frame_size PulsarFrameCodec_new" using size by simp
  have lt: "max_frame_size PulsarFrameCodec_new < 2 ^ 32" using lim by simp
  have mdlen: "length md < 0x0e010000" using size lim by linarith
  have clen: "cmd_encoded_len px (message_command cid lid eid part rc) = length cmd"
    using laws cmd by (auto simp: proto_laws_def)
  have mlen: "(if metadata = [] then meta_encoded_len px (default_metadata eid) else length metadata) = length md"
    using laws md by (auto simp: proto_laws_def split: if_splits)
  have enc: "encode_message px cid lid eid part metadata payload rc dst = (Inr (), dst @ ?bs)"
    by (simp add: encode_message_def encode_message_parts_def Let_def md cmd clen frame_bytes_def add_ac)
  have dec: "codec_decode PulsarFrameCodec_new (?bs @ rest) =
      (Inr (Some \<lparr>pf_command = cmd, pf_metadata = Some md, pf_payload = payload, pf_checksum = None\<rparr>), rest)"
    by (rule decode_frame [OF sz lt decode_checksum_put [OF mdlen] decode_metadata_put]) (use mdlen in simp)
  have inc: "codec_decode PulsarFrameCodec_new (take n ?bs) = (Inr None, take n ?bs)" if "n < length ?bs" for n
    by (rule decode_incomplete [OF sz lt that])
  have est: "estimate_message_parts_size px cid lid eid part metadata payload rc = length ?bs"
    using mlen clen by (simp add: estimate_message_parts_size_def Let_def frame_bytes_def)
  show ?thesis using enc dec inc est by blast
qed

definition demo_proto :: proto_ext where
  "demo_proto = \<lparr>cmd_encoded_len = (\<lambda>_. 2), cmd_encode = (\<lambda>_. Inr [8, 9]), meta_encoded_len = (\<lambda>_. 1),
     meta_encode = (\<lambda>_. Inr [16]), meta_decode = (\<lambda>_. None)\<rparr>"

lemma demo_proto_laws: "proto_laws demo_proto"
  by (simp add: proto_laws_def demo_proto_def)

theorem message_frame_roundtrip_witness:
  "\<exists>bs. encode_message demo_proto 1 0 7 (- 1) [] [1, 2, 3] 0 [] = (Inr (), bs) \<and>
    codec_decode PulsarFrameCodec_new (bs @ [42]) =
      (Inr (Some \<lparr>pf_command = [8, 9], pf_metadata = Some [16], pf_payload = [1, 2, 3], pf_checksum = None\<rparr>), [42])"
  using message_frame_roundtrip [OF demo_proto_laws, of 1 0 7 "- 1" 0 "[8, 9]" "[]" "[16]" "[1, 2, 3]" "[]" "[42]"]
  by (auto simp: demo_proto_def PulsarFrameCodec_new_def MAX_MESSAGE_SIZE_def)

text \<open>Commands without payload.\<close>

lemma command_frame_roundtrip:
  assumes laws: "proto_laws px" and pl: "\<not> has_payload item"
    and cmd: "cmd_encode px (to_base_command item) = Inr cmd"
    and size: "4 + length cmd \<le> max_frame_size PulsarFrameCodec_new"
  shows "\<exists>bs. codec_encode px item dst = (Inr (), dst @ bs) \<and>
    codec_decode PulsarFrameCodec_new (bs @ rest) =
      (Inr (Some \<lparr>pf_command = cmd, pf_metadata = None, pf_payload = [], pf_checksum = None\<rparr>), rest)"
proof -
  have lt: "max_frame_size PulsarFrameCodec_new < 2 ^ 32"
    by (simp add: PulsarFrameCodec_new_def MAX_MESSAGE_SIZE_def)
  have clen: "cmd_encoded_len px (to_base_command item) = length cmd"
    using laws cmd by (auto simp: proto_laws_def)
  have "codec_encode px item dst = (Inr (), dst @ frame_bytes cmd [])"
    using pl cmd clen
    by (cases item) (simp_all add: codec_encode_def has_payload_def Let_def frame_bytes_def)
  moreover have "codec_decode PulsarFrameCodec_new (frame_bytes cmd [] @ rest) =
      (Inr (Some \<lparr>pf_command = cmd, pf_metadata = None, pf_payload = [], pf_checksum = None\<rparr>), rest)"
    by (rule decode_frame [OF _ lt decode_checksum_empty]) (use size in simp)
  ultimately show ?thesis by blast
qed

text \<open>The decoder never holds back more than one maximal frame: a buffer it leaves untouched while
  waiting is shorter than the limit plus the length field.\<close>

lemma decode_waits_bounded:
  assumes "codec_decode codec src = (Inr None, rest)"
  shows "rest = src \<and> length src < 4 + max_frame_size codec"
proof (cases "length src < 4")
  case False
  then show ?thesis
    using assms unfolding codec_decode_def
    by (auto simp: Let_def split: if_splits prod.splits)
qed (use assms in \<open>auto simp: codec_decode_def\<close>)

end
