(* ===== verification/PL_StickyKey.thy ===== *)
theory PL_StickyKey
  imports PL_Codec
begin

text \<open>
  Sticky keys (\<open>broker/dispatcher/sticky_key.rs\<close>): which bytes of a message decide its consumer,
  and the 32-bit Murmur3 hash that maps them to one of 65536 slots.
\<close>

unbundle bit_operations_syntax

section \<open>Model\<close>

definition RANGE_SIZE :: u32 where
  "RANGE_SIZE = push_bit 15 2"

definition resolve_sticky_key :: "proto_ext \<Rightarrow> bytes \<Rightarrow> bytes" where
  "resolve_sticky_key px metadata =
     (case meta_decode px metadata of
        None \<Rightarrow> []
      | Some m \<Rightarrow>
          (case mm_ordering_key m of
             Some k \<Rightarrow> k
           | None \<Rightarrow>
               (case mm_partition_key m of
                  Some k \<Rightarrow> string_bytes k
                | None \<Rightarrow>
                    if mm_producer_name m \<noteq> []
                    then string_bytes (mm_producer_name m @ ''-'' @ dec_string (unat (mm_sequence_id m)))
                    else [])))"

text \<open>\<open>as_chunks::<4>\<close>: the full chunks of four bytes, and the tail.\<close>

fun as_chunks4 :: "bytes \<Rightarrow> (u8 \<times> u8 \<times> u8 \<times> u8) list \<times> bytes" where
  "as_chunks4 (a # b # c # d # bs) = (case as_chunks4 bs of (cs, tail) \<Rightarrow> ((a, b, c, d) # cs, tail))"
| "as_chunks4 bs = ([], bs)"

definition u32_from_le :: "u8 \<times> u8 \<times> u8 \<times> u8 \<Rightarrow> u32" where
  "u32_from_le chunk = (case chunk of (a, b, c, d) \<Rightarrow>
     ucast a OR push_bit 8 (ucast b) OR push_bit 16 (ucast c) OR push_bit 24 (ucast d))"

definition murmur_mix_k :: "u32 \<Rightarrow> u32" where
  "murmur_mix_k k = word_rotl 15 (k * 0xcc9e2d51) * 0x1b873593"

definition murmur_round :: "u32 \<Rightarrow> u8 \<times> u8 \<times> u8 \<times> u8 \<Rightarrow> u32" where
  "murmur_round hash chunk = word_rotl 13 (hash XOR murmur_mix_k (u32_from_le chunk)) * 5 + 0xe6546b64"

definition murmur_tail :: "bytes \<Rightarrow> u32" where
  "murmur_tail tail =
     (if length tail = 3 then push_bit 16 (ucast (tail ! 2)) XOR push_bit 8 (ucast (tail ! 1)) XOR ucast (tail ! 0)
      else if length tail = 2 then push_bit 8 (ucast (tail ! 1)) XOR ucast (tail ! 0)
      else if length tail = 1 then ucast (tail ! 0)
      else 0)"

definition murmur_final :: "u32 \<Rightarrow> u32" where
  "murmur_final h0 =
     (let h1 = h0 XOR drop_bit 16 h0;
          h2 = h1 * 0x85ebca6b;
          h3 = h2 XOR drop_bit 13 h2;
          h4 = h3 * 0xc2b2ae35
      in h4 XOR drop_bit 16 h4)"

definition murmur3_32 :: "bytes \<Rightarrow> u32 \<Rightarrow> u32" where
  "murmur3_32 bytes seed =
     (let (chunks, tail) = as_chunks4 bytes;
          hash = foldl murmur_round seed chunks;
          hash = (if tail \<noteq> [] then hash XOR murmur_mix_k (murmur_tail tail) else hash)
      in murmur_final (hash XOR of_nat (length bytes)))"

definition sticky_key_hash :: "bytes \<Rightarrow> i32" where
  "sticky_key_hash sticky_key = u32_as_i32 (murmur3_32 sticky_key 0 mod RANGE_SIZE)"

definition sticky_key_hash_from_metadata :: "proto_ext \<Rightarrow> bytes \<Rightarrow> i32" where
  "sticky_key_hash_from_metadata px metadata = sticky_key_hash (resolve_sticky_key px metadata)"

section \<open>Range of the hash\<close>

lemma as_chunks4_tail: "length (snd (as_chunks4 bs)) < 4"
  by (induction bs rule: as_chunks4.induct) (auto split: prod.splits)

lemma as_chunks4_concat:
  "concat (map (\<lambda>(a, b, c, d). [a, b, c, d]) (fst (as_chunks4 bs))) @ snd (as_chunks4 bs) = bs"
  by (induction bs rule: as_chunks4.induct) (auto split: prod.splits)

lemma sticky_key_hash_range: "0 \<le> sticky_key_hash k \<and> sticky_key_hash k < 65536"
proof -
  let ?m = "murmur3_32 k 0 mod RANGE_SIZE"
  have r: "uint RANGE_SIZE = 65536" by (simp add: RANGE_SIZE_def push_bit_eq_mult)
  have "uint ?m = uint (murmur3_32 k 0) mod 65536" by (simp add: uint_mod r)
  then have "0 \<le> uint ?m \<and> uint ?m < 65536" by simp
  then show ?thesis using u32_as_i32_small [of ?m] by (simp add: sticky_key_hash_def)
qed

text \<open>Reference values of the hash.\<close>

lemma murmur3_32_empty: "murmur3_32 [] 0 = 0"
  by (simp add: murmur3_32_def murmur_final_def Let_def)

lemma murmur3_32_hello: "murmur3_32 [0x68, 0x65, 0x6c, 0x6c, 0x6f] 0 = 0x248bfa47"
  by code_simp

end
