(* ===== verification/PL_Consumer.thy ===== *)
theory PL_Consumer
  imports PL_Position PL_Codec
begin

text \<open>
  Consumers (\<open>broker/service/consumer.rs\<close>), the messages they have not acknowledged yet
  (\<open>pending_acks.rs\<close>) and the write state of their connection (\<open>connection_write_state.rs\<close>).

  \<^item> An \<open>Arc<Consumer>\<close> is a reference (\<open>cref\<close>) into the record \<open>world\<close>, which holds the consumers
    and the connections they write to; consumers of one connection share its channel.
  \<^item> The bounded channel to the connection (tokio's \<open>mpsc\<close>) and the protobuf codec are the fields of
    \<open>broker_ext\<close>; what is relied on is \<open>chan_laws\<close>.
  \<^item> A method runs atomically: a compare-and-exchange loop succeeds with the value it loaded. The
    dispatch time of a pending acknowledgement is written but never read and is left out.
\<close>

section \<open>Pending acknowledgements\<close>

record PendingAck =
  pa_redelivery_count :: u32
  pa_sticky_key_hash :: "i32 option"

record PendingAcksMap =
  pam_inner :: "(MessageId, PendingAck) btree_map"
  pam_closed :: bool

definition PendingAcksMap_new :: PendingAcksMap where
  "PendingAcksMap_new = \<lparr>pam_inner = [], pam_closed = False\<rparr>"

definition add_pending_ack ::
    "MessageId \<Rightarrow> u32 \<Rightarrow> i32 option \<Rightarrow> PendingAcksMap \<Rightarrow> bool \<times> PendingAcksMap" where
  "add_pending_ack mid rc h m =
     (if pam_closed m then (False, m)
      else (True, m\<lparr>pam_inner := btm_insert mid
              \<lparr>pa_redelivery_count = rc, pa_sticky_key_hash = h\<rparr> (pam_inner m)\<rparr>))"

definition pam_remove :: "MessageId \<Rightarrow> PendingAcksMap \<Rightarrow> PendingAck option \<times> PendingAcksMap" where
  "pam_remove mid m = (btm_get mid (pam_inner m), m\<lparr>pam_inner := btm_remove mid (pam_inner m)\<rparr>)"

definition pam_contains :: "MessageId \<Rightarrow> PendingAcksMap \<Rightarrow> bool" where
  "pam_contains mid m = btm_contains mid (pam_inner m)"

definition find_by_position :: "u64 \<Rightarrow> u64 \<Rightarrow> PendingAcksMap \<Rightarrow> MessageId option" where
  "find_by_position lid eid m = find (\<lambda>mid. ledger mid = lid \<and> entry mid = eid) (btm_keys (pam_inner m))"

definition pam_close :: "PendingAcksMap \<Rightarrow> PendingAcksMap" where
  "pam_close m = m\<lparr>pam_closed := True\<rparr>"

definition pam_drain :: "PendingAcksMap \<Rightarrow> (MessageId \<times> PendingAck) list \<times> PendingAcksMap" where
  "pam_drain m = (pam_inner m, m\<lparr>pam_inner := []\<rparr>)"

definition pam_len :: "PendingAcksMap \<Rightarrow> usize" where
  "pam_len m = length (pam_inner m)"

definition pam_is_empty :: "PendingAcksMap \<Rightarrow> bool" where
  "pam_is_empty m \<longleftrightarrow> pam_inner m = []"

section \<open>Write state of a connection\<close>

record ConnectionWriteState =
  ws_pending_bytes :: usize
  ws_writable :: bool
  ws_high_watermark_bytes :: usize
  ws_low_watermark_bytes :: usize
  ws_channel_pending_bytes :: u64
  ws_max_channel_bytes :: usize

definition DEFAULT_MAX_CHANNEL_BYTES :: usize where
  "DEFAULT_MAX_CHANNEL_BYTES = 64 * 1024 * 1024"

definition ConnectionWriteState_new :: "usize \<Rightarrow> usize \<Rightarrow> ConnectionWriteState result" where
  "ConnectionWriteState_new high low =
     (if high = 0 \<or> high < low then Inl Panic
      else Inr \<lparr>ws_pending_bytes = 0, ws_writable = True, ws_high_watermark_bytes = high,
                ws_low_watermark_bytes = low, ws_channel_pending_bytes = 0,
                ws_max_channel_bytes = DEFAULT_MAX_CHANNEL_BYTES\<rparr>)"

definition observe_buffered_bytes :: "usize \<Rightarrow> ConnectionWriteState \<Rightarrow> ConnectionWriteState" where
  "observe_buffered_bytes n ws =
     (let next_writable =
        (if ws_high_watermark_bytes ws \<le> n then False
         else if n \<le> ws_low_watermark_bytes ws then True
         else ws_writable ws)
      in ws\<lparr>ws_pending_bytes := n, ws_writable := next_writable\<rparr>)"

text \<open>\<open>saturating_add\<close> cannot saturate before the limit is passed; \<open>fetch_sub\<close> wraps.\<close>

definition try_reserve_channel_bytes :: "usize \<Rightarrow> ConnectionWriteState \<Rightarrow> bool \<times> ConnectionWriteState" where
  "try_reserve_channel_bytes n ws =
     (let total = unat (ws_channel_pending_bytes ws) + n in
      if ws_max_channel_bytes ws < total then (False, ws)
      else (True, ws\<lparr>ws_channel_pending_bytes := of_nat total\<rparr>))"

definition release_channel_bytes :: "usize \<Rightarrow> ConnectionWriteState \<Rightarrow> ConnectionWriteState" where
  "release_channel_bytes n ws = ws\<lparr>ws_channel_pending_bytes := ws_channel_pending_bytes ws - of_nat n\<rparr>"

definition release_bytes :: "usize \<Rightarrow> ConnectionWriteState \<Rightarrow> ConnectionWriteState" where
  "release_bytes n ws =
     (let left = ws_pending_bytes ws - n in
      ws\<lparr>ws_writable := (if left \<le> ws_low_watermark_bytes ws then True else ws_writable ws),
         ws_pending_bytes := left\<rparr>)"

section \<open>Consumers\<close>

datatype SubscriptionType = Exclusive | Shared | Failover | KeyShared

datatype KeySharedMode = AutoSplit | Sticky

record KeySharedHashRange =
  range_start :: i32
  range_end :: i32

record KeySharedPolicy =
  ksp_mode :: KeySharedMode
  ksp_ranges :: "KeySharedHashRange list"
  ksp_allow_out_of_order_delivery :: bool

record ConsumerStats =
  cs_messages_received :: u64
  cs_bytes_received :: u64
  cs_messages_acked :: u64
  cs_available_permits :: u32
  cs_active_consumer_id :: "u64 option"
  cs_is_active_consumer :: bool

record PendingMessage =
  pm_message_id :: MessageId
  pm_metadata :: bytes
  pm_payload :: bytes
  pm_redelivery_count :: u32
  pm_wire_size :: usize

record Consumer =
  consumer_id :: u64
  consumer_name :: string
  connection_id :: string
  c_stats :: ConsumerStats
  available_permits :: i32
  c_connection :: nat
  pending_acks :: PendingAcksMap
  priority_level :: i32
  key_shared_policy :: "KeySharedPolicy option"
  active_consumer_id :: int
  is_active_consumer :: bool

record 'ch broker_ext =
  bx_proto :: proto_ext
  ch_try_reserve :: "'ch \<Rightarrow> 'ch option"
  ch_send :: "'ch \<Rightarrow> u64 \<times> PendingMessage \<Rightarrow> 'ch"
  ch_release :: "'ch \<Rightarrow> 'ch"

text \<open>
  \<open>sent\<close> observes the messages handed to the channel so far: reserving a slot or giving it back
  sends nothing, and a reserved slot takes exactly one message.
\<close>

definition chan_laws :: "'ch broker_ext \<Rightarrow> ('ch \<Rightarrow> (u64 \<times> PendingMessage) list) \<Rightarrow> bool" where
  "chan_laws bx sent \<longleftrightarrow>
     (\<forall>c c'. ch_try_reserve bx c = Some c' \<longrightarrow> sent c' = sent c) \<and>
     (\<forall>c m. sent (ch_send bx c m) = sent c @ [m]) \<and>
     (\<forall>c. sent (ch_release bx c) = sent c)"

record 'ch Connection =
  cn_write_state :: ConnectionWriteState
  cn_channel :: 'ch

type_synonym cref = nat

record 'ch world =
  w_consumers :: "cref \<Rightarrow> Consumer"
  w_connections :: "nat \<Rightarrow> 'ch Connection"

definition upd_consumer :: "cref \<Rightarrow> (Consumer \<Rightarrow> Consumer) \<Rightarrow> 'ch world \<Rightarrow> 'ch world" where
  "upd_consumer r f w = w\<lparr>w_consumers := (w_consumers w)(r := f (w_consumers w r))\<rparr>"

definition upd_channel :: "cref \<Rightarrow> ('ch \<Rightarrow> 'ch) \<Rightarrow> 'ch world \<Rightarrow> 'ch world" where
  "upd_channel r f w =
     (let n = c_connection (w_consumers w r); cn = w_connections w n in
      w\<lparr>w_connections := (w_connections w)(n := cn\<lparr>cn_channel := f (cn_channel cn)\<rparr>)\<rparr>)"

definition channel_of :: "'ch world \<Rightarrow> cref \<Rightarrow> 'ch" where
  "channel_of w r = cn_channel (w_connections w (c_connection (w_consumers w r)))"

definition ConsumerStats_default :: ConsumerStats where
  "ConsumerStats_default = \<lparr>cs_messages_received = 0, cs_bytes_received = 0, cs_messages_acked = 0,
     cs_available_permits = 0, cs_active_consumer_id = None, cs_is_active_consumer = False\<rparr>"

definition Consumer_new_with_options ::
    "u64 \<Rightarrow> string \<Rightarrow> string \<Rightarrow> nat \<Rightarrow> i32 \<Rightarrow> KeySharedPolicy option \<Rightarrow> Consumer" where
  "Consumer_new_with_options cid name conn_id conn prio policy =
     \<lparr>consumer_id = cid, consumer_name = name, connection_id = conn_id, c_stats = ConsumerStats_default,
      available_permits = 0, c_connection = conn, pending_acks = PendingAcksMap_new, priority_level = prio,
      key_shared_policy = policy, active_consumer_id = - 1, is_active_consumer = False\<rparr>"

definition Consumer_eq :: "Consumer \<Rightarrow> Consumer \<Rightarrow> bool" where
  "Consumer_eq a b \<longleftrightarrow> consumer_id a = consumer_id b \<and> connection_id a = connection_id b"

subsection \<open>Permits\<close>

definition add_permits :: "u32 \<Rightarrow> Consumer \<Rightarrow> Consumer" where
  "add_permits n c = c\<lparr>available_permits := wrap_i32 (available_permits c + u32_as_i32 n)\<rparr>"

definition try_use_permits :: "u32 \<Rightarrow> Consumer \<Rightarrow> bool \<times> Consumer" where
  "try_use_permits n c =
     (if 0 < available_permits c
      then (True, c\<lparr>available_permits := wrap_i32 (available_permits c - u32_as_i32 n)\<rparr>)
      else (False, c))"

definition use_permit :: "Consumer \<Rightarrow> bool \<times> Consumer" where
  "use_permit c =
     (if 0 < available_permits c then (True, c\<lparr>available_permits := available_permits c - 1\<rparr>) else (False, c))"

definition has_permits :: "Consumer \<Rightarrow> bool" where
  "has_permits c \<longleftrightarrow> 0 < available_permits c"

text \<open>\<open>available_permits.max(0) as u32\<close>.\<close>

definition available_permits_now :: "Consumer \<Rightarrow> u32" where
  "available_permits_now c = i32_as_u32 (max 0 (available_permits c))"

subsection \<open>Statistics\<close>

definition record_message_dispatched :: "u32 \<Rightarrow> usize \<Rightarrow> Consumer \<Rightarrow> Consumer" where
  "record_message_dispatched messages message_size c =
     c\<lparr>c_stats := (c_stats c)\<lparr>cs_messages_received := cs_messages_received (c_stats c) + ucast messages,
        cs_bytes_received := cs_bytes_received (c_stats c) + of_nat message_size\<rparr>\<rparr>"

definition record_message_acked :: "Consumer \<Rightarrow> Consumer" where
  "record_message_acked c =
     c\<lparr>c_stats := (c_stats c)\<lparr>cs_messages_acked := cs_messages_acked (c_stats c) + 1\<rparr>\<rparr>"

definition get_stats :: "Consumer \<Rightarrow> ConsumerStats" where
  "get_stats c = (c_stats c)\<lparr>cs_available_permits := available_permits_now c,
     cs_active_consumer_id := (if 0 \<le> active_consumer_id c then Some (word_of_int (active_consumer_id c)) else None),
     cs_is_active_consumer := is_active_consumer c\<rparr>"

definition notify_active_consumer_change :: "u64 \<Rightarrow> Consumer \<Rightarrow> Consumer" where
  "notify_active_consumer_change cid c =
     c\<lparr>active_consumer_id := sint cid, is_active_consumer := (consumer_id c = cid)\<rparr>"

definition clear_active_consumer :: "Consumer \<Rightarrow> Consumer" where
  "clear_active_consumer c = c\<lparr>active_consumer_id := - 1, is_active_consumer := False\<rparr>"

subsection \<open>Pending acknowledgements of a consumer\<close>

definition track_message_dispatched_with_sticky_hash ::
    "MessageId \<Rightarrow> u32 \<Rightarrow> i32 option \<Rightarrow> Consumer \<Rightarrow> bool \<times> Consumer" where
  "track_message_dispatched_with_sticky_hash mid rc h c =
     (case add_pending_ack mid rc h (pending_acks c) of (ok, m) \<Rightarrow> (ok, c\<lparr>pending_acks := m\<rparr>))"

definition remove_pending_ack :: "MessageId \<Rightarrow> Consumer \<Rightarrow> bool \<times> Consumer" where
  "remove_pending_ack mid c =
     (case pam_remove mid (pending_acks c) of (r, m) \<Rightarrow> (r \<noteq> None, c\<lparr>pending_acks := m\<rparr>))"

definition take_pending_ack_for_redelivery :: "MessageId \<Rightarrow> Consumer \<Rightarrow> PendingAck option \<times> Consumer" where
  "take_pending_ack_for_redelivery mid c =
     (case pam_remove mid (pending_acks c) of (r, m) \<Rightarrow> (r, c\<lparr>pending_acks := m\<rparr>))"

definition has_pending_ack :: "MessageId \<Rightarrow> Consumer \<Rightarrow> bool" where
  "has_pending_ack mid c = pam_contains mid (pending_acks c)"

definition find_pending_ack_by_position :: "u64 \<Rightarrow> u64 \<Rightarrow> Consumer \<Rightarrow> MessageId option" where
  "find_pending_ack_by_position lid eid c = find_by_position lid eid (pending_acks c)"

definition close_pending_acks :: "Consumer \<Rightarrow> Consumer" where
  "close_pending_acks c = c\<lparr>pending_acks := pam_close (pending_acks c)\<rparr>"

definition drain_pending_acks :: "Consumer \<Rightarrow> (MessageId \<times> PendingAck) list \<times> Consumer" where
  "drain_pending_acks c =
     (case pam_drain (pending_acks c) of (l, m) \<Rightarrow> (l, c\<lparr>pending_acks := m\<rparr>))"

definition pending_ack_count :: "Consumer \<Rightarrow> usize" where
  "pending_ack_count c = pam_len (pending_acks c)"

subsection \<open>Sending\<close>

definition is_writable :: "'ch world \<Rightarrow> cref \<Rightarrow> bool" where
  "is_writable w r = ws_writable (cn_write_state (w_connections w (c_connection (w_consumers w r))))"

definition has_send_capacity :: "'ch broker_ext \<Rightarrow> 'ch world \<Rightarrow> cref \<Rightarrow> bool" where
  "has_send_capacity bx w r \<longleftrightarrow> is_writable w r \<and> ch_try_reserve bx (channel_of w r) \<noteq> None"

definition pending_message ::
    "'ch broker_ext \<Rightarrow> Consumer \<Rightarrow> MessageId \<Rightarrow> bytes \<Rightarrow> bytes \<Rightarrow> u32 \<Rightarrow> PendingMessage" where
  "pending_message bx c mid md pl rc =
     \<lparr>pm_message_id = mid, pm_metadata = md, pm_payload = pl, pm_redelivery_count = rc,
      pm_wire_size = estimate_message_parts_size (bx_proto bx) (consumer_id c) (ledger mid) (entry mid)
        (partition mid) md pl rc\<rparr>"

definition send_message_with_sticky_hash ::
    "'ch broker_ext \<Rightarrow> cref \<Rightarrow> MessageId \<Rightarrow> bytes \<Rightarrow> bytes \<Rightarrow> u32 \<Rightarrow> i32 option \<Rightarrow> 'ch world \<Rightarrow> bool \<times> 'ch world" where
  "send_message_with_sticky_hash bx r mid md pl rc h w =
     (if \<not> is_writable w r then (False, w)
      else
      let msg = pending_message bx (w_consumers w r) mid md pl rc;
          (tracked, c) = track_message_dispatched_with_sticky_hash mid rc h (w_consumers w r);
          w1 = upd_consumer r (\<lambda>_. c) w
      in
      if \<not> tracked then (False, w1)
      else
      case ch_try_reserve bx (channel_of w1 r) of
        None \<Rightarrow> (False, upd_consumer r (\<lambda>c. snd (remove_pending_ack mid c)) w1)
      | Some ch \<Rightarrow> (True, upd_channel r (\<lambda>_. ch_send bx ch (consumer_id c, msg)) w1))"

definition send_message ::
    "'ch broker_ext \<Rightarrow> cref \<Rightarrow> MessageId \<Rightarrow> bytes \<Rightarrow> bytes \<Rightarrow> u32 \<Rightarrow> 'ch world \<Rightarrow> bool \<times> 'ch world" where
  "send_message bx r mid md pl rc w = send_message_with_sticky_hash bx r mid md pl rc None w"

definition enqueue_message ::
    "'ch broker_ext \<Rightarrow> cref \<Rightarrow> MessageId \<Rightarrow> bytes \<Rightarrow> bytes \<Rightarrow> 'ch world \<Rightarrow> bool \<times> 'ch world" where
  "enqueue_message bx r mid md pl w = send_message bx r mid md pl 0 w"

fun send_messages_batch ::
    "'ch broker_ext \<Rightarrow> cref \<Rightarrow> (MessageId \<times> bytes \<times> bytes \<times> u32) list \<Rightarrow> 'ch world \<Rightarrow> usize \<times> 'ch world" where
  "send_messages_batch bx r [] w = (0, w)"
| "send_messages_batch bx r ((mid, md, pl, rc) # ms) w =
     (case send_message bx r mid md pl rc w of
        (True, w1) \<Rightarrow> (case send_messages_batch bx r ms w1 of (n, w2) \<Rightarrow> (Suc n, w2))
      | (False, w1) \<Rightarrow> (0, w1))"

text \<open>A reservation holds permits, a channel slot and a pending acknowledgement until it is sent or dropped.\<close>

record DispatchReservation =
  dr_consumer :: cref
  dr_consumer_id :: u64
  dr_message :: PendingMessage
  dr_pending_ack_message_id :: MessageId

definition try_reserve_dispatch ::
    "'ch broker_ext \<Rightarrow> cref \<Rightarrow> MessageId \<Rightarrow> bytes \<Rightarrow> bytes \<Rightarrow> u32 \<Rightarrow> u32 \<Rightarrow> 'ch world
     \<Rightarrow> DispatchReservation option \<times> 'ch world" where
  "try_reserve_dispatch bx r mid md pl rc permits w =
     (case try_use_permits permits (w_consumers w r) of
        (False, _) \<Rightarrow> (None, w)
      | (True, c1) \<Rightarrow>
          let w1 = upd_consumer r (\<lambda>_. c1) w;
              give_back = upd_consumer r (add_permits permits)
          in
          if \<not> is_writable w1 r then (None, give_back w1)
          else
          case ch_try_reserve bx (channel_of w1 r) of
            None \<Rightarrow> (None, give_back w1)
          | Some ch \<Rightarrow>
              let w2 = upd_channel r (\<lambda>_. ch) w1;
                  (tracked, c2) = track_message_dispatched_with_sticky_hash mid rc None (w_consumers w2 r);
                  w3 = upd_consumer r (\<lambda>_. c2) w2
              in
              if \<not> tracked then (None, upd_channel r (ch_release bx) (give_back w3))
              else (Some \<lparr>dr_consumer = r, dr_consumer_id = consumer_id c2,
                          dr_message = pending_message bx c2 mid md pl rc,
                          dr_pending_ack_message_id = mid\<rparr>, w3))"

definition reservation_send :: "'ch broker_ext \<Rightarrow> DispatchReservation \<Rightarrow> 'ch world \<Rightarrow> 'ch world" where
  "reservation_send bx d w =
     upd_channel (dr_consumer d) (\<lambda>ch. ch_send bx ch (dr_consumer_id d, dr_message d)) w"

text \<open>Dropping an uncommitted reservation gives back one permit, the slot and the pending acknowledgement.\<close>

definition reservation_drop :: "'ch broker_ext \<Rightarrow> DispatchReservation \<Rightarrow> 'ch world \<Rightarrow> 'ch world" where
  "reservation_drop bx d w =
     upd_consumer (dr_consumer d) (\<lambda>c. snd (remove_pending_ack (dr_pending_ack_message_id d) c))
       (upd_channel (dr_consumer d) (ch_release bx)
         (upd_consumer (dr_consumer d) (add_permits 1) w))"

section \<open>Frame conditions\<close>

lemma upd_consumer_sel [simp]:
  "w_consumers (upd_consumer r f w) r' = (if r' = r then f (w_consumers w r) else w_consumers w r')"
  "w_connections (upd_consumer r f w) = w_connections w"
  by (simp_all add: upd_consumer_def)

lemma upd_channel_consumers [simp]: "w_consumers (upd_channel r f w) = w_consumers w"
  by (simp add: upd_channel_def Let_def)

lemma upd_channel_write_state [simp]:
  "cn_write_state (w_connections (upd_channel r f w) n) = cn_write_state (w_connections w n)"
  by (simp add: upd_channel_def Let_def)

lemma channel_of_upd_channel:
  "channel_of (upd_channel r f w) r' =
     (if c_connection (w_consumers w r') = c_connection (w_consumers w r) then f (channel_of w r) else channel_of w r')"
  by (simp add: channel_of_def upd_channel_def Let_def)

lemma channel_of_upd_consumer:
  "c_connection (f (w_consumers w r)) = c_connection (w_consumers w r) \<Longrightarrow>
   channel_of (upd_consumer r f w) r' = channel_of w r'"
  by (simp add: channel_of_def)

text \<open>The unacknowledged messages of a consumer.\<close>

definition pendings :: "'ch world \<Rightarrow> cref \<Rightarrow> (MessageId, PendingAck) btree_map" where
  "pendings w r = pam_inner (pending_acks (w_consumers w r))"

lemma has_pending_ack_iff: "has_pending_ack mid (w_consumers w r) \<longleftrightarrow> btm_get mid (pendings w r) \<noteq> None"
  by (simp add: has_pending_ack_def pam_contains_def btm_contains_def pendings_def)

text \<open>What a consumer keeps when only its permits, statistics or pending messages change.\<close>

definition same_identity :: "Consumer \<Rightarrow> Consumer \<Rightarrow> bool" where
  "same_identity a b \<longleftrightarrow> consumer_id a = consumer_id b \<and> consumer_name a = consumer_name b \<and>
     connection_id a = connection_id b \<and> c_connection a = c_connection b \<and>
     priority_level a = priority_level b \<and> key_shared_policy a = key_shared_policy b"

lemma same_identity_refl [simp]: "same_identity c c"
  by (simp add: same_identity_def)

lemma same_identity_trans: "same_identity a b \<Longrightarrow> same_identity b c \<Longrightarrow> same_identity a c"
  by (simp add: same_identity_def)

definition frame_consumers :: "'ch world \<Rightarrow> 'ch world \<Rightarrow> bool" where
  "frame_consumers w w' \<longleftrightarrow> (\<forall>r. same_identity (w_consumers w r) (w_consumers w' r))"

lemma frame_consumers_refl [simp]: "frame_consumers w w"
  by (simp add: frame_consumers_def)

lemma frame_consumers_trans: "frame_consumers a b \<Longrightarrow> frame_consumers b c \<Longrightarrow> frame_consumers a c"
  unfolding frame_consumers_def using same_identity_trans by blast

lemma frame_upd_consumer [intro]:
  "same_identity (w_consumers w r) (f (w_consumers w r)) \<Longrightarrow> frame_consumers w (upd_consumer r f w)"
  by (simp add: frame_consumers_def)

lemma frame_upd_channel [simp]: "frame_consumers w (upd_channel r f w)"
  by (simp add: frame_consumers_def)

lemma same_identity_ops [simp]:
  "same_identity c (add_permits n c)"
  "same_identity c (snd (use_permit c))"
  "same_identity c (snd (try_use_permits n c))"
  "same_identity c (record_message_dispatched k sz c)"
  "same_identity c (record_message_acked c)"
  "same_identity c (snd (track_message_dispatched_with_sticky_hash mid rc h c))"
  "same_identity c (snd (remove_pending_ack mid c))"
  "same_identity c (close_pending_acks c)"
  "same_identity c (snd (drain_pending_acks c))"
  "same_identity c (notify_active_consumer_change cid c)"
  "same_identity c (clear_active_consumer c)"
  by (simp_all add: same_identity_def add_permits_def use_permit_def try_use_permits_def record_message_dispatched_def
      record_message_acked_def track_message_dispatched_with_sticky_hash_def add_pending_ack_def remove_pending_ack_def
      pam_remove_def close_pending_acks_def drain_pending_acks_def pam_drain_def notify_active_consumer_change_def
      clear_active_consumer_def)

section \<open>Sending\<close>

lemma send_message_cases:
  assumes "send_message_with_sticky_hash bx r mid md pl rc h w = (ok, w')"
  obtains (Refused) "\<not> ok" "w' = w"
  | (Full) "\<not> ok" "w' = upd_consumer r (\<lambda>c. c\<lparr>pending_acks := (pending_acks c)\<lparr>pam_inner := btm_remove mid (pendings w r)\<rparr>\<rparr>) w"
  | (Sent) ch where "ok" "is_writable w r" "ch_try_reserve bx (channel_of w r) = Some ch"
      "\<not> pam_closed (pending_acks (w_consumers w r))"
      "w' = upd_channel r (\<lambda>_. ch_send bx ch (consumer_id (w_consumers w r), pending_message bx (w_consumers w r) mid md pl rc))
        (upd_consumer r (\<lambda>c. c\<lparr>pending_acks := (pending_acks c)
          \<lparr>pam_inner := btm_insert mid \<lparr>pa_redelivery_count = rc, pa_sticky_key_hash = h\<rparr> (pendings w r)\<rparr>\<rparr>) w)"
proof (cases "is_writable w r \<and> \<not> pam_closed (pending_acks (w_consumers w r))")
  case False
  then have "\<not> ok" "w' = w"
    using assms by (auto simp: send_message_with_sticky_hash_def Let_def track_message_dispatched_with_sticky_hash_def
        add_pending_ack_def upd_consumer_def split: if_splits)
  then show ?thesis by (rule Refused)
next
  case True
  let ?c = "w_consumers w r"
  let ?c1 = "?c\<lparr>pending_acks := (pending_acks ?c)
      \<lparr>pam_inner := btm_insert mid \<lparr>pa_redelivery_count = rc, pa_sticky_key_hash = h\<rparr> (pendings w r)\<rparr>\<rparr>"
  have track: "track_message_dispatched_with_sticky_hash mid rc h ?c = (True, ?c1)"
    using True by (simp add: track_message_dispatched_with_sticky_hash_def add_pending_ack_def pendings_def)
  let ?w1 = "upd_consumer r (\<lambda>_. ?c1) w"
  have ch: "channel_of ?w1 r = channel_of w r" by (rule channel_of_upd_consumer) simp
  have run: "(case ch_try_reserve bx (channel_of w r) of
        None \<Rightarrow> (False, upd_consumer r (\<lambda>c. snd (remove_pending_ack mid c)) ?w1)
      | Some ch \<Rightarrow> (True, upd_channel r (\<lambda>_. ch_send bx ch (consumer_id ?c1, pending_message bx ?c mid md pl rc)) ?w1)) = (ok, w')"
    using assms True by (simp add: send_message_with_sticky_hash_def Let_def track ch)
  have w1: "?w1 = upd_consumer r (\<lambda>c. c\<lparr>pending_acks := (pending_acks c)
      \<lparr>pam_inner := btm_insert mid \<lparr>pa_redelivery_count = rc, pa_sticky_key_hash = h\<rparr> (pendings w r)\<rparr>\<rparr>) w"
    by (simp add: upd_consumer_def)
  have w2: "upd_consumer r (\<lambda>c. snd (remove_pending_ack mid c)) ?w1 =
      upd_consumer r (\<lambda>c. c\<lparr>pending_acks := (pending_acks c)\<lparr>pam_inner := btm_remove mid (pendings w r)\<rparr>\<rparr>) w"
    by (simp add: upd_consumer_def remove_pending_ack_def pam_remove_def)
  show ?thesis
  proof (cases "ch_try_reserve bx (channel_of w r)")
    case None
    with run have "\<not> ok" "w' = upd_consumer r (\<lambda>c. snd (remove_pending_ack mid c)) ?w1" by auto
    then show ?thesis unfolding w2 by (rule Full)
  next
    case (Some c')
    with run have "ok" "w' = upd_channel r (\<lambda>_. ch_send bx c' (consumer_id ?c, pending_message bx ?c mid md pl rc)) ?w1"
      by auto
    with True Some Sent show ?thesis unfolding w1 by simp
  qed
qed

lemma send_message_frame:
  assumes "send_message_with_sticky_hash bx r mid md pl rc h w = (ok, w')"
  shows "frame_consumers w w'" "available_permits (w_consumers w' r') = available_permits (w_consumers w r')"
    "cn_write_state (w_connections w' n) = cn_write_state (w_connections w n)"
  using assms by (cases rule: send_message_cases; auto simp: frame_consumers_def same_identity_def)+

lemma send_message_pendings:
  assumes "send_message_with_sticky_hash bx r mid md pl rc h w = (ok, w')"
  shows "r' \<noteq> r \<Longrightarrow> pendings w' r' = pendings w r'"
    "ok \<Longrightarrow> pendings w' r = btm_insert mid \<lparr>pa_redelivery_count = rc, pa_sticky_key_hash = h\<rparr> (pendings w r)"
    "\<not> ok \<Longrightarrow> pendings w' r = pendings w r \<or> pendings w' r = btm_remove mid (pendings w r)"
  using assms by (cases rule: send_message_cases; simp add: pendings_def)+


section \<open>A reference channel\<close>

text \<open>A bounded queue: the messages sent, the slots reserved and the capacity.\<close>

record ref_chan =
  rch_sent :: "(u64 \<times> PendingMessage) list"
  rch_reserved :: nat
  rch_capacity :: nat

definition ref_bx :: "proto_ext \<Rightarrow> ref_chan broker_ext" where
  "ref_bx px = \<lparr>bx_proto = px,
     ch_try_reserve = (\<lambda>c. if length (rch_sent c) + rch_reserved c < rch_capacity c
                           then Some (c\<lparr>rch_reserved := rch_reserved c + 1\<rparr>) else None),
     ch_send = (\<lambda>c m. c\<lparr>rch_sent := rch_sent c @ [m], rch_reserved := rch_reserved c - 1\<rparr>),
     ch_release = (\<lambda>c. c\<lparr>rch_reserved := rch_reserved c - 1\<rparr>)\<rparr>"

lemma ref_chan_laws: "chan_laws (ref_bx px) rch_sent"
  by (auto simp: chan_laws_def ref_bx_def split: if_splits)

definition demo_connection :: "ref_chan Connection" where
  "demo_connection = \<lparr>cn_write_state = \<lparr>ws_pending_bytes = 0, ws_writable = True, ws_high_watermark_bytes = 65536,
     ws_low_watermark_bytes = 32768, ws_channel_pending_bytes = 0, ws_max_channel_bytes = 1000\<rparr>,
     cn_channel = \<lparr>rch_sent = [], rch_reserved = 0, rch_capacity = 100\<rparr>\<rparr>"

text \<open>Every reference holds a fresh consumer of its own connection.\<close>

definition demo_world :: "ref_chan world" where
  "demo_world = \<lparr>w_consumers = (\<lambda>r. Consumer_new_with_options (of_nat r) ''c'' ''conn'' r 0 None),
     w_connections = (\<lambda>_. demo_connection)\<rparr>"


section \<open>Reservations\<close>

text \<open>A dispatch reservation that is dropped instead of sent gives back a single permit,
  whatever number it took: reserving an entry of \<open>n\<close> messages and dropping it costs the consumer
  \<open>n - 1\<close> permits.\<close>

lemma reservation_drop_loses_permits:
  assumes run: "try_reserve_dispatch bx r mid md pl rc n w = (Some d, w')"
    and bnd: "0 \<le> available_permits (w_consumers w r) - u32_as_i32 n" "available_permits (w_consumers w r) < 2147483647"
      "0 \<le> u32_as_i32 n"
  shows "available_permits (w_consumers (reservation_drop bx d w') r) =
    available_permits (w_consumers w r) - u32_as_i32 n + 1"
proof -
  let ?p = "available_permits (w_consumers w r)"
  have pos: "0 < ?p" using run by (auto simp: try_reserve_dispatch_def try_use_permits_def split: if_splits)
  have w1: "wrap_i32 (?p - u32_as_i32 n) = ?p - u32_as_i32 n"
    by (rule wrap_i32_id) (use bnd in linarith)+
  have "available_permits (w_consumers w' r) = ?p - u32_as_i32 n" "dr_consumer d = r"
    using run pos w1
    by (auto simp: try_reserve_dispatch_def try_use_permits_def Let_def track_message_dispatched_with_sticky_hash_def
        add_pending_ack_def split: if_splits option.splits)
  moreover have "u32_as_i32 1 = 1" by (simp add: u32_as_i32_def)
  moreover have "wrap_i32 (?p - u32_as_i32 n + 1) = ?p - u32_as_i32 n + 1"
    by (rule wrap_i32_id) (use bnd in linarith)+
  ultimately show ?thesis
    by (simp add: reservation_drop_def add_permits_def remove_pending_ack_def pam_remove_def)
qed

lemma reservation_drop_loses_permits_witness:
  "\<exists>d w'. try_reserve_dispatch (ref_bx demo_proto) 0 (MessageId 0 0 (- 1)) [] [1] 0 10
       (upd_consumer 0 (add_permits 100) demo_world) = (Some d, w') \<and>
     available_permits (w_consumers (reservation_drop (ref_bx demo_proto) d w') 0) = 91"
proof -
  let ?w = "upd_consumer 0 (add_permits 100) demo_world"
  let ?run = "try_reserve_dispatch (ref_bx demo_proto) 0 (MessageId 0 0 (- 1)) [] [1] 0 10 ?w"
  have n: "u32_as_i32 100 = 100" "u32_as_i32 10 = 10" by (simp_all add: u32_as_i32_small)
  have p: "available_permits (w_consumers ?w 0) = 100"
    by (simp add: add_permits_def demo_world_def Consumer_new_with_options_def n wrap_i32_id)
  obtain d w' where run: "?run = (Some d, w')"
  proof (cases ?run)
    case (Pair a b)
    have "a \<noteq> None"
      using Pair by (auto simp: try_reserve_dispatch_def try_use_permits_def p Let_def is_writable_def channel_of_def
          track_message_dispatched_with_sticky_hash_def add_pending_ack_def demo_world_def demo_connection_def
          Consumer_new_with_options_def PendingAcksMap_new_def ref_bx_def add_permits_def upd_channel_def
          n wrap_i32_id)
    then obtain d where "a = Some d" by auto
    with Pair that show ?thesis by simp
  qed
  then show ?thesis using reservation_drop_loses_permits [OF run] p n by simp
qed

section \<open>Back-pressure\<close>



end
