(* ===== verification/PL_Redelivery.thy ===== *)
theory PL_Redelivery
  imports PL_Position
begin

text \<open>
  The redelivery queue of the Shared and Key\_Shared dispatchers
  (\<open>broker/dispatcher/redelivery_controller.rs\<close>). \<open>in_flight_hashes\<close> is a \<open>HashMap\<close> whose iteration
  order is never observed; it is kept as a list of entries like the \<open>BTreeMap\<close> of the queue.
\<close>

section \<open>Model\<close>

record RedeliveryEntry =
  re_message_id :: MessageId
  re_redelivery_count :: u32
  re_sticky_key_hash :: "i32 option"

record RedeliveryController =
  rd_entries :: "(MessageId, RedeliveryEntry) btree_map"
  rd_in_flight_hashes :: "(MessageId, i32) btree_map"
  rd_blocked_hashes :: "i32 \<rightharpoonup> usize"
  rd_block_hashes :: bool

definition RedeliveryController_new :: "bool \<Rightarrow> RedeliveryController" where
  "RedeliveryController_new block_hashes = \<lparr>rd_entries = [], rd_in_flight_hashes = [],
     rd_blocked_hashes = Map.empty, rd_block_hashes = block_hashes\<rparr>"

definition increment_hash :: "i32 option \<Rightarrow> RedeliveryController \<Rightarrow> RedeliveryController" where
  "increment_hash h c =
     (if \<not> rd_block_hashes c then c
      else case h of
        None \<Rightarrow> c
      | Some hash \<Rightarrow> c\<lparr>rd_blocked_hashes := (rd_blocked_hashes c)
          (hash \<mapsto> (case rd_blocked_hashes c hash of Some n \<Rightarrow> n | None \<Rightarrow> 0) + 1)\<rparr>)"

definition decrement_hash :: "i32 option \<Rightarrow> RedeliveryController \<Rightarrow> RedeliveryController" where
  "decrement_hash h c =
     (if \<not> rd_block_hashes c then c
      else case h of
        None \<Rightarrow> c
      | Some hash \<Rightarrow>
          (case rd_blocked_hashes c hash of
             None \<Rightarrow> c
           | Some count \<Rightarrow>
               c\<lparr>rd_blocked_hashes := (rd_blocked_hashes c)
                   (hash := (if count - 1 = 0 then None else Some (count - 1)))\<rparr>))"

definition release_in_flight_hash :: "MessageId \<Rightarrow> RedeliveryController \<Rightarrow> RedeliveryController" where
  "release_in_flight_hash mid c =
     (case btm_get mid (rd_in_flight_hashes c) of
        None \<Rightarrow> c
      | Some hash \<Rightarrow>
          decrement_hash (Some hash) (c\<lparr>rd_in_flight_hashes := btm_remove mid (rd_in_flight_hashes c)\<rparr>))"

definition rd_add :: "RedeliveryEntry \<Rightarrow> RedeliveryController \<Rightarrow> RedeliveryController" where
  "rd_add e c =
     (case btm_get (re_message_id e) (rd_entries c) of
        Some existing \<Rightarrow>
          let existing1 = existing\<lparr>re_redelivery_count := max (re_redelivery_count existing) (re_redelivery_count e)\<rparr> in
          if re_sticky_key_hash existing = None
          then increment_hash (re_sticky_key_hash e)
                 (c\<lparr>rd_entries := btm_insert (re_message_id e)
                      (existing1\<lparr>re_sticky_key_hash := re_sticky_key_hash e\<rparr>) (rd_entries c)\<rparr>)
          else c\<lparr>rd_entries := btm_insert (re_message_id e) existing1 (rd_entries c)\<rparr>
      | None \<Rightarrow>
          let c1 = increment_hash (re_sticky_key_hash e) c in
          c1\<lparr>rd_entries := btm_insert (re_message_id e) e (rd_entries c1)\<rparr>)"

definition rd_pop_next :: "RedeliveryController \<Rightarrow> RedeliveryEntry option \<times> RedeliveryController" where
  "rd_pop_next c =
     (case rd_entries c of
        [] \<Rightarrow> (None, c)
      | (mid, e) # rest \<Rightarrow> (Some e, decrement_hash (re_sticky_key_hash e) (c\<lparr>rd_entries := rest\<rparr>)))"

definition rd_take_for_delivery_with_hash ::
    "MessageId \<Rightarrow> i32 option \<Rightarrow> RedeliveryController \<Rightarrow> RedeliveryEntry option \<times> RedeliveryController" where
  "rd_take_for_delivery_with_hash mid h c =
     (case btm_get mid (rd_entries c) of
        None \<Rightarrow> (None, c)
      | Some e0 \<Rightarrow>
          let c1 = c\<lparr>rd_entries := btm_remove mid (rd_entries c)\<rparr>;
              supplied = (re_sticky_key_hash e0 = None \<and> h \<noteq> None);
              e = (if supplied then e0\<lparr>re_sticky_key_hash := h\<rparr> else e0)
          in (Some e,
              if rd_block_hashes c1
              then case re_sticky_key_hash e of
                     None \<Rightarrow> c1
                   | Some hash \<Rightarrow>
                       let c2 = (if supplied then increment_hash (Some hash) c1 else c1) in
                       c2\<lparr>rd_in_flight_hashes := btm_insert (re_message_id e) hash (rd_in_flight_hashes c2)\<rparr>
              else decrement_hash (re_sticky_key_hash e) c1))"

definition rd_take_for_delivery ::
    "MessageId \<Rightarrow> RedeliveryController \<Rightarrow> RedeliveryEntry option \<times> RedeliveryController" where
  "rd_take_for_delivery mid c = rd_take_for_delivery_with_hash mid None c"

definition rd_restore :: "RedeliveryEntry \<Rightarrow> RedeliveryController \<Rightarrow> RedeliveryController" where
  "rd_restore e c = rd_add e (release_in_flight_hash (re_message_id e) c)"

definition rd_remove :: "MessageId \<Rightarrow> RedeliveryController \<Rightarrow> RedeliveryEntry option \<times> RedeliveryController" where
  "rd_remove mid c =
     (let c1 = release_in_flight_hash mid c in
      case btm_get mid (rd_entries c1) of
        None \<Rightarrow> (None, c1)
      | Some removed \<Rightarrow>
          (Some removed, decrement_hash (re_sticky_key_hash removed)
             (c1\<lparr>rd_entries := btm_remove mid (rd_entries c1)\<rparr>)))"

definition rd_len :: "RedeliveryController \<Rightarrow> usize" where
  "rd_len c = length (rd_entries c)"

definition rd_is_empty :: "RedeliveryController \<Rightarrow> bool" where
  "rd_is_empty c \<longleftrightarrow> rd_entries c = []"

definition queued_message_ids :: "RedeliveryController \<Rightarrow> MessageId list" where
  "queued_message_ids c = btm_keys (rd_entries c)"

definition queued_entries :: "RedeliveryController \<Rightarrow> RedeliveryEntry list" where
  "queued_entries c = btm_values (rd_entries c)"

definition is_hash_blocked :: "i32 \<Rightarrow> RedeliveryController \<Rightarrow> bool" where
  "is_hash_blocked h c \<longleftrightarrow> rd_blocked_hashes c h \<noteq> None"

definition has_in_flight_hash :: "i32 \<Rightarrow> RedeliveryController \<Rightarrow> bool" where
  "has_in_flight_hash h c \<longleftrightarrow> list_ex (\<lambda>hash. hash = h) (btm_values (rd_in_flight_hashes c))"

definition rd_clear :: "RedeliveryController \<Rightarrow> RedeliveryController" where
  "rd_clear c = c\<lparr>rd_entries := [], rd_in_flight_hashes := [], rd_blocked_hashes := Map.empty\<rparr>"

section \<open>Invariant\<close>

text \<open>
  The queue is keyed by the ids of its entries, no queued message is in flight, and the blocking
  counter of a hash is the number of queued and in-flight messages that have it.
\<close>

definition hash_count :: "RedeliveryController \<Rightarrow> i32 \<Rightarrow> nat" where
  "hash_count c h = btm_count (\<lambda>p. re_sticky_key_hash (snd p) = Some h) (rd_entries c) +
     btm_count (\<lambda>p. snd p = h) (rd_in_flight_hashes c)"

definition counter_of :: "nat \<Rightarrow> usize option" where
  "counter_of n = (if n = 0 then None else Some n)"

definition rd_wf :: "RedeliveryController \<Rightarrow> bool" where
  "rd_wf c \<longleftrightarrow> btm_ok (rd_entries c) \<and> btm_ok (rd_in_flight_hashes c) \<and>
     (\<forall>(k, e) \<in> set (rd_entries c). re_message_id e = k) \<and>
     (\<forall>mid \<in> fst ` set (rd_entries c). btm_get mid (rd_in_flight_hashes c) = None)"

definition rd_inv :: "RedeliveryController \<Rightarrow> bool" where
  "rd_inv c \<longleftrightarrow> rd_wf c \<and>
     (if rd_block_hashes c then \<forall>h. rd_blocked_hashes c h = counter_of (hash_count c h)
      else rd_blocked_hashes c = Map.empty \<and> rd_in_flight_hashes c = [])"

lemma increment_hash_sel [simp]:
  "rd_entries (increment_hash h c) = rd_entries c"
  "rd_in_flight_hashes (increment_hash h c) = rd_in_flight_hashes c"
  "rd_block_hashes (increment_hash h c) = rd_block_hashes c"
  by (simp_all add: increment_hash_def split: option.splits)

lemma decrement_hash_sel [simp]:
  "rd_entries (decrement_hash h c) = rd_entries c"
  "rd_in_flight_hashes (decrement_hash h c) = rd_in_flight_hashes c"
  "rd_block_hashes (decrement_hash h c) = rd_block_hashes c"
  by (simp_all add: decrement_hash_def split: option.splits)

text \<open>Counting one more or one fewer message with a hash.\<close>

lemma increment_hash_counts:
  assumes "rd_block_hashes c" "\<And>h. rd_blocked_hashes c h = counter_of (f h)"
  shows "rd_blocked_hashes (increment_hash ho c) h = counter_of (f h + (if ho = Some h then 1 else 0))"
  using assms by (auto simp: increment_hash_def counter_of_def split: option.splits)

lemma decrement_hash_counts:
  assumes "rd_block_hashes c" "\<And>h. rd_blocked_hashes c h = counter_of (f h + (if ho = Some h then 1 else 0))"
  shows "rd_blocked_hashes (decrement_hash ho c) h = counter_of (f h)"
  using assms by (auto simp: decrement_hash_def counter_of_def split: option.splits)

lemma rd_inv_new [wf_intros]: "rd_inv (RedeliveryController_new b)"
  by (simp add: rd_inv_def rd_wf_def RedeliveryController_new_def hash_count_def counter_of_def)

lemma rd_inv_clear [wf_intros]: "rd_inv (rd_clear c)"
  by (simp add: rd_inv_def rd_wf_def rd_clear_def hash_count_def counter_of_def)

lemma rd_get_id: "rd_wf c \<Longrightarrow> btm_get mid (rd_entries c) = Some e \<Longrightarrow> re_message_id e = mid"
  by (auto simp: rd_wf_def btm_get_Some_iff)

lemma hash_None [simp]: "increment_hash None c = c" "decrement_hash None c = c"
  by (simp_all add: increment_hash_def decrement_hash_def)

lemma rd_wf_insert:
  assumes "rd_wf c" "re_message_id e = mid" "btm_get mid (rd_in_flight_hashes c) = None"
  shows "rd_wf (c\<lparr>rd_entries := btm_insert mid e (rd_entries c)\<rparr>)"
proof -
  have ok: "btm_ok (rd_entries c)" using assms(1) by (simp add: rd_wf_def)
  have "re_message_id e' = k" if "(k, e') \<in> set (btm_insert mid e (rd_entries c))" for k e'
    using that assms btm_get_Some_iff [OF btm_ok_insert [OF ok]] btm_get_insert [OF ok, of k mid e]
      rd_get_id [OF assms(1)] by (metis option.inject)
  then show ?thesis using assms ok by (auto simp: rd_wf_def btm_ok_insert)
qed

lemma rd_wf_remove: "rd_wf c \<Longrightarrow> rd_wf (c\<lparr>rd_entries := btm_remove mid (rd_entries c)\<rparr>)"
  by (auto simp: rd_wf_def btm_ok_remove set_btm_remove)

lemma rd_wf_blocked [simp]: "rd_wf (c\<lparr>rd_blocked_hashes := f\<rparr>) = rd_wf c"
  by (simp add: rd_wf_def)

lemma rd_wf_increment [simp]: "rd_wf (increment_hash h c) = rd_wf c"
  by (simp add: rd_wf_def)

lemma rd_wf_decrement [simp]: "rd_wf (decrement_hash h c) = rd_wf c"
  by (simp add: rd_wf_def)

lemma hash_count_increment [simp]: "hash_count (increment_hash ho c) h = hash_count c h"
  by (simp add: hash_count_def)

lemma hash_count_decrement [simp]: "hash_count (decrement_hash ho c) h = hash_count c h"
  by (simp add: hash_count_def)

text \<open>Without hash blocking the counters are never touched.\<close>

lemma no_block_increment [simp]: "\<not> rd_block_hashes c \<Longrightarrow> increment_hash h c = c"
  by (simp add: increment_hash_def)

lemma no_block_decrement [simp]: "\<not> rd_block_hashes c \<Longrightarrow> decrement_hash h c = c"
  by (simp add: decrement_hash_def)

text \<open>The two ways an operation can change the queue and the counters together.\<close>

lemma rd_inv_gain:
  assumes "rd_inv c" "rd_wf c'" "rd_block_hashes c' = rd_block_hashes c" "rd_blocked_hashes c' = rd_blocked_hashes c"
    and "rd_block_hashes c \<Longrightarrow> \<forall>h. hash_count c' h = hash_count c h + (if ho = Some h then 1 else 0)"
    and "\<not> rd_block_hashes c \<Longrightarrow> rd_in_flight_hashes c' = []"
  shows "rd_inv (increment_hash ho c')"
proof (cases "rd_block_hashes c")
  case True
  have "rd_blocked_hashes (increment_hash ho c') h = counter_of (hash_count c h + (if ho = Some h then 1 else 0))" for h
    by (rule increment_hash_counts) (use assms True in \<open>auto simp: rd_inv_def\<close>)
  with True assms show ?thesis by (simp add: rd_inv_def)
qed (use assms in \<open>simp add: rd_inv_def\<close>)

lemma rd_inv_lose:
  assumes "rd_inv c" "rd_wf c'" "rd_block_hashes c' = rd_block_hashes c" "rd_blocked_hashes c' = rd_blocked_hashes c"
    and "rd_block_hashes c \<Longrightarrow> \<forall>h. hash_count c h = hash_count c' h + (if ho = Some h then 1 else 0)"
    and "\<not> rd_block_hashes c \<Longrightarrow> rd_in_flight_hashes c' = []"
  shows "rd_inv (decrement_hash ho c')"
proof (cases "rd_block_hashes c")
  case True
  have "rd_blocked_hashes (decrement_hash ho c') h = counter_of (hash_count c' h)" for h
    by (rule decrement_hash_counts) (use assms True in \<open>auto simp: rd_inv_def\<close>)
  with True assms show ?thesis by (simp add: rd_inv_def)
qed (use assms in \<open>simp add: rd_inv_def\<close>)

lemma rd_inv_release:
  assumes "rd_inv c"
  shows "rd_inv (release_in_flight_hash mid c)"
    "btm_get mid (rd_in_flight_hashes (release_in_flight_hash mid c)) = None"
proof -
  show "rd_inv (release_in_flight_hash mid c)"
  proof (cases "btm_get mid (rd_in_flight_hashes c)")
    case (Some hash)
    have ok: "btm_ok (rd_in_flight_hashes c)" using assms by (simp add: rd_inv_def rd_wf_def)
    have "rd_inv (decrement_hash (Some hash) (c\<lparr>rd_in_flight_hashes := btm_remove mid (rd_in_flight_hashes c)\<rparr>))"
    proof (rule rd_inv_lose [OF assms])
      show "\<forall>h. hash_count c h =
          hash_count (c\<lparr>rd_in_flight_hashes := btm_remove mid (rd_in_flight_hashes c)\<rparr>) h +
          (if Some hash = Some h then 1 else 0)"
        using btm_count_remove [OF ok Some] by (auto simp: hash_count_def)
    qed (use assms Some in \<open>auto simp: rd_inv_def rd_wf_def btm_ok_remove\<close>)
    then show ?thesis by (simp add: release_in_flight_hash_def Some)
  qed (use assms in \<open>simp add: release_in_flight_hash_def\<close>)
  show "btm_get mid (rd_in_flight_hashes (release_in_flight_hash mid c)) = None"
    by (simp add: release_in_flight_hash_def split: option.splits)
qed

lemma rd_inv_add:
  assumes inv: "rd_inv c" and nf: "btm_get (re_message_id e) (rd_in_flight_hashes c) = None"
  shows "rd_inv (rd_add e c)"
proof (cases "btm_get (re_message_id e) (rd_entries c)")
  case None
  let ?c = "c\<lparr>rd_entries := btm_insert (re_message_id e) e (rd_entries c)\<rparr>"
  have "rd_inv (increment_hash (re_sticky_key_hash e) ?c)"
  proof (rule rd_inv_gain [OF inv])
    show "rd_wf ?c" by (rule rd_wf_insert) (use inv nf in \<open>simp_all add: rd_inv_def\<close>)
    show "\<forall>h. hash_count ?c h = hash_count c h + (if re_sticky_key_hash e = Some h then 1 else 0)"
      using btm_count_insert_new [OF None] by (simp add: hash_count_def)
  qed (use inv in \<open>auto simp: rd_inv_def\<close>)
  moreover have "rd_add e c = increment_hash (re_sticky_key_hash e) ?c"
    by (simp add: rd_add_def None Let_def increment_hash_def split: option.splits)
  ultimately show ?thesis by simp
next
  case (Some old)
  have ok: "btm_ok (rd_entries c)" using inv by (simp add: rd_inv_def rd_wf_def)
  have id: "re_message_id old = re_message_id e" using rd_get_id [OF _ Some] inv by (simp add: rd_inv_def)
  define new where "new = old\<lparr>re_redelivery_count := max (re_redelivery_count old) (re_redelivery_count e)\<rparr>"
  define ho where "ho = (if re_sticky_key_hash old = None then re_sticky_key_hash e else None)"
  define new' where "new' = (if re_sticky_key_hash old = None then new\<lparr>re_sticky_key_hash := re_sticky_key_hash e\<rparr> else new)"
  let ?c = "c\<lparr>rd_entries := btm_insert (re_message_id e) new' (rd_entries c)\<rparr>"
  have "rd_inv (increment_hash ho ?c)"
  proof (rule rd_inv_gain [OF inv])
    show "rd_wf ?c" by (rule rd_wf_insert) (use inv nf id in \<open>simp_all add: rd_inv_def new'_def new_def\<close>)
    show "\<forall>h. hash_count ?c h = hash_count c h + (if ho = Some h then 1 else 0)"
    proof
      fix h
      show "hash_count ?c h = hash_count c h + (if ho = Some h then 1 else 0)"
        using btm_count_insert_old [OF ok Some, of "\<lambda>p. re_sticky_key_hash (snd p) = Some h" new']
        by (auto simp: hash_count_def new'_def new_def ho_def split: if_splits)
    qed
  qed (use inv in \<open>auto simp: rd_inv_def\<close>)
  moreover have "rd_add e c = increment_hash ho ?c"
    by (simp add: rd_add_def Some Let_def ho_def new'_def new_def)
  ultimately show ?thesis by simp
qed

lemma rd_inv_restore [wf_intros]: "rd_inv c \<Longrightarrow> rd_inv (rd_restore e c)"
  unfolding rd_restore_def by (rule rd_inv_add) (simp_all add: rd_inv_release)

lemma rd_inv_drop_entry:
  assumes "rd_inv c" "btm_get mid (rd_entries c) = Some e"
  shows "rd_inv (decrement_hash (re_sticky_key_hash e) (c\<lparr>rd_entries := btm_remove mid (rd_entries c)\<rparr>))"
proof (rule rd_inv_lose [OF assms(1)])
  let ?c = "c\<lparr>rd_entries := btm_remove mid (rd_entries c)\<rparr>"
  have ok: "btm_ok (rd_entries c)" using assms(1) by (simp add: rd_inv_def rd_wf_def)
  show "\<forall>h. hash_count c h = hash_count ?c h + (if re_sticky_key_hash e = Some h then 1 else 0)"
    using btm_count_remove [OF ok assms(2)] by (simp add: hash_count_def)
qed (use assms in \<open>auto simp: rd_inv_def rd_wf_remove\<close>)

lemma rd_inv_remove [wf_intros]: "rd_inv c \<Longrightarrow> rd_inv (snd (rd_remove mid c))"
  using rd_inv_release(1) [of c mid] rd_inv_drop_entry [of "release_in_flight_hash mid c" mid]
  by (simp add: rd_remove_def Let_def split: option.splits)

lemma rd_inv_pop [wf_intros]:
  assumes "rd_inv c"
  shows "rd_inv (snd (rd_pop_next c))"
proof (cases "rd_entries c")
  case (Cons p rest)
  have "btm_ok (p # rest)" using assms Cons by (simp add: rd_inv_def rd_wf_def)
  then have "btm_remove (fst p) (rd_entries c) = rest"
    using btm_remove_absent [OF btm_get_Cons_same] by (simp add: Cons btm_remove_def)
  moreover have "btm_get (fst p) (rd_entries c) = Some (snd p)" by (simp add: Cons btm_get_Cons)
  ultimately show ?thesis
    using rd_inv_drop_entry [OF assms, of "fst p" "snd p"] by (cases p) (simp add: rd_pop_next_def Cons)
qed (use assms in \<open>simp add: rd_pop_next_def\<close>)

lemma rd_inv_take [wf_intros]:
  assumes inv: "rd_inv c"
  shows "rd_inv (snd (rd_take_for_delivery_with_hash mid ho c))"
proof (cases "btm_get mid (rd_entries c)")
  case (Some e0)
  have wf: "rd_wf c" and ok: "btm_ok (rd_entries c)" using inv by (auto simp: rd_inv_def rd_wf_def)
  have id: "re_message_id e0 = mid" by (rule rd_get_id [OF wf Some])
  have nf: "btm_get mid (rd_in_flight_hashes c) = None"
    using wf Some btm_get_None_iff [of mid "rd_entries c"] by (auto simp: rd_wf_def)
  let ?c1 = "c\<lparr>rd_entries := btm_remove mid (rd_entries c)\<rparr>"
  define supplied where "supplied = (re_sticky_key_hash e0 = None \<and> ho \<noteq> None)"
  define e where "e = (if supplied then e0\<lparr>re_sticky_key_hash := ho\<rparr> else e0)"
  show ?thesis
  proof (cases "rd_block_hashes c")
    case False
    then show ?thesis using rd_inv_drop_entry [OF inv Some]
      by (simp add: rd_take_for_delivery_with_hash_def Some Let_def)
  next
    case True
    show ?thesis
    proof (cases "re_sticky_key_hash e")
      case None
      then have "re_sticky_key_hash e0 = None" by (auto simp: e_def supplied_def split: if_splits)
      then have "rd_inv ?c1" using rd_inv_drop_entry [OF inv Some] by (simp add: decrement_hash_def split: if_splits)
      with None True show ?thesis
        by (auto simp: rd_take_for_delivery_with_hash_def Some Let_def e_def supplied_def split: if_splits)
    next
      case (Some hash)
      let ?c2 = "?c1\<lparr>rd_in_flight_hashes := btm_insert mid hash (rd_in_flight_hashes c)\<rparr>"
      have cnt: "hash_count ?c2 h = hash_count c h + (if supplied \<and> hash = h then 1 else 0)" for h
      proof -
        have "btm_count (\<lambda>p. re_sticky_key_hash (snd p) = Some h) (rd_entries c) =
          btm_count (\<lambda>p. re_sticky_key_hash (snd p) = Some h) (btm_remove mid (rd_entries c)) +
          (if re_sticky_key_hash e0 = Some h then 1 else 0)"
          using btm_count_remove [OF ok \<open>btm_get mid (rd_entries c) = Some e0\<close>] by simp
        moreover have "btm_count (\<lambda>p. snd p = h) (btm_insert mid hash (rd_in_flight_hashes c)) =
          (if hash = h then 1 else 0) + btm_count (\<lambda>p. snd p = h) (rd_in_flight_hashes c)"
          using btm_count_insert_new [OF nf] by simp
        ultimately show ?thesis using Some by (auto simp: hash_count_def e_def supplied_def split: if_splits)
      qed
      have wf2: "rd_wf ?c2"
        using wf by (auto simp: rd_wf_def btm_ok_remove btm_ok_insert set_btm_remove)
      have "rd_inv (increment_hash (if supplied then Some hash else None) ?c2)"
        by (rule rd_inv_gain [OF inv wf2]) (use True cnt in auto)
      moreover have "snd (rd_take_for_delivery_with_hash mid ho c) =
          increment_hash (if supplied then Some hash else None) ?c2"
        using True Some id \<open>btm_get mid (rd_entries c) = Some e0\<close>
        by (auto simp: rd_take_for_delivery_with_hash_def Let_def e_def supplied_def increment_hash_def split: if_splits)
      ultimately show ?thesis by simp
    qed
  qed
qed (use inv in \<open>simp add: rd_take_for_delivery_with_hash_def\<close>)

section \<open>Runs\<close>

text \<open>
  The calls a dispatcher makes. A message that is in flight may be put back with \<open>restore\<close>; \<open>add\<close>
  is for messages that are not.
\<close>

inductive rd_step :: "RedeliveryController \<Rightarrow> RedeliveryController \<Rightarrow> bool" where
  Add: "btm_get (re_message_id e) (rd_in_flight_hashes c) = None \<Longrightarrow> rd_step c (rd_add e c)"
| Pop: "rd_step c (snd (rd_pop_next c))"
| Take: "rd_step c (snd (rd_take_for_delivery_with_hash mid h c))"
| Restore: "rd_step c (rd_restore e c)"
| Remove: "rd_step c (snd (rd_remove mid c))"
| Clear: "rd_step c (rd_clear c)"

lemma rd_inv_step: "rd_step c c' \<Longrightarrow> rd_inv c \<Longrightarrow> rd_inv c'"
  by (induction rule: rd_step.induct) (auto intro: wf_intros rd_inv_add)

lemma rd_block_hashes_fixed: "rd_step c c' \<Longrightarrow> rd_block_hashes c' = rd_block_hashes c"
  by (induction rule: rd_step.induct)
     (auto simp: rd_add_def rd_pop_next_def rd_take_for_delivery_with_hash_def rd_restore_def rd_remove_def
        rd_clear_def release_in_flight_hash_def Let_def split: option.splits list.splits prod.splits if_splits)

lemma rd_reachable: "rd_step\<^sup>*\<^sup>* (RedeliveryController_new b) c \<Longrightarrow> rd_inv c \<and> rd_block_hashes c = b"
proof (induction rule: rtranclp_induct)
  case base
  then show ?case by (simp add: rd_inv_new) (simp add: RedeliveryController_new_def)
qed (auto simp: rd_inv_step rd_block_hashes_fixed)

lemma hash_blocked_iff:
  assumes "rd_inv c" "rd_block_hashes c"
  shows "is_hash_blocked h c \<longleftrightarrow>
    (\<exists>e \<in> set (queued_entries c). re_sticky_key_hash e = Some h) \<or> has_in_flight_hash h c"
proof -
  have "is_hash_blocked h c \<longleftrightarrow> hash_count c h \<noteq> 0"
    using assms by (auto simp: is_hash_blocked_def rd_inv_def counter_of_def)
  also have "\<dots> \<longleftrightarrow> (\<exists>p \<in> set (rd_entries c). re_sticky_key_hash (snd p) = Some h) \<or>
      (\<exists>p \<in> set (rd_in_flight_hashes c). snd p = h)"
    by (auto simp: hash_count_def btm_count_zero_iff)
  finally show ?thesis
    by (auto simp: queued_entries_def has_in_flight_hash_def btm_values_def list_ex_iff)
qed


definition demo_redelivery :: RedeliveryEntry where
  "demo_redelivery = \<lparr>re_message_id = MessageId 0 5 (- 1), re_redelivery_count = 1, re_sticky_key_hash = Some 33\<rparr>"


text \<open>
  \<open>add\<close> on a message that is in flight leaves it both queued and in flight: its hash stays marked as
  in flight although nobody is working on it.
\<close>

lemma add_in_flight_keeps_hash:
  "has_in_flight_hash h c \<Longrightarrow> has_in_flight_hash h (rd_add e c)"
  by (auto simp: rd_add_def has_in_flight_hash_def Let_def split: option.splits)

end
