(* ===== verification/PL_Shared.thy ===== *)
theory PL_Shared
  imports PL_ReadPosition PL_Consumer PL_Redelivery
begin

text \<open>
  The Shared dispatcher (\<open>broker/dispatcher/shared.rs\<close>): priority-aware round robin over the
  consumers of a subscription, redelivery before new messages, and the unacknowledged-message budget.
  Storage is only read while dispatching; it is the pair of a storage record \<open>st\<close> and its state \<open>s\<close>.
  Loops that are not bounded by their data are partial functions; that they return is proved.
  A \<open>HashMap\<close> of consumers is kept as a list of entries; where the sources iterate over it, the order
  is immaterial. The merge of concurrent triggers is modelled step by step at the end of the theory.
\<close>

section \<open>State\<close>

definition DISPATCHER_MAX_ROUND_ROBIN_BATCH_SIZE :: u32 where
  "DISPATCHER_MAX_ROUND_ROBIN_BATCH_SIZE = 20"

definition DEFAULT_MAX_UNACKED_MESSAGES_PER_CONSUMER :: usize where
  "DEFAULT_MAX_UNACKED_MESSAGES_PER_CONSUMER = 50000"

record SharedDispatcher =
  sd_consumers :: "(u64, cref) btree_map"
  sd_consumer_order :: "u64 list"
  sd_round_robin_index :: usize
  sd_total_available_permits :: i32
  sd_dispatch_in_progress :: bool
  sd_should_reschedule :: bool
  sd_max_unacked_messages :: usize
  sd_redelivery_controller :: RedeliveryController
  sd_read_position :: read_position

definition SharedDispatcher_new :: SharedDispatcher where
  "SharedDispatcher_new = \<lparr>sd_consumers = [], sd_consumer_order = [], sd_round_robin_index = 0,
     sd_total_available_permits = 0, sd_dispatch_in_progress = False, sd_should_reschedule = False,
     sd_max_unacked_messages = DEFAULT_MAX_UNACKED_MESSAGES_PER_CONSUMER,
     sd_redelivery_controller = RedeliveryController_new False, sd_read_position = None\<rparr>"

definition ordered_consumers :: "SharedDispatcher \<Rightarrow> cref list" where
  "ordered_consumers d = List.map_filter (\<lambda>cid. btm_get cid (sd_consumers d)) (sd_consumer_order d)"

section \<open>Choosing a consumer\<close>

text \<open>The searches run over the consumers in dispatch order and return an index.\<close>

fun index_where :: "('a \<Rightarrow> bool) \<Rightarrow> 'a list \<Rightarrow> nat \<Rightarrow> nat option" where
  "index_where P [] i = None"
| "index_where P (x # xs) i = (if P x then Some i else index_where P xs (Suc i))"

definition first_consumer_index_of_priority :: "Consumer list \<Rightarrow> i32 \<Rightarrow> nat option" where
  "first_consumer_index_of_priority cs target = index_where (\<lambda>c. priority_level c = target) cs 0"

fun higher_priority_loop :: "Consumer list \<Rightarrow> i32 \<Rightarrow> nat \<Rightarrow> nat option" where
  "higher_priority_loop [] target i = None"
| "higher_priority_loop (c # cs) target i =
     (if target \<le> priority_level c then None
      else if 0 < available_permits c then Some i
      else higher_priority_loop cs target (Suc i))"

definition find_available_consumer_from_higher_priority ::
    "Consumer list \<Rightarrow> nat \<Rightarrow> i32 \<Rightarrow> nat option" where
  "find_available_consumer_from_higher_priority cs current_index target =
     higher_priority_loop (take current_index cs) target 0"

text \<open>The scan of the current priority level ends with a consumer, after a full turn (with the index
  where the level ends), or because the level has no consumer.\<close>

datatype scan_result = Scan_found nat | Scan_wrapped nat | Scan_no_level

partial_function (option) same_priority_scan ::
    "Consumer list \<Rightarrow> nat \<Rightarrow> i32 \<Rightarrow> nat \<Rightarrow> nat \<Rightarrow> scan_result option" where
  "same_priority_scan cs current_index target scan_index end_index =
     (if scan_index < length cs \<and> priority_level (cs ! scan_index) = target
      then if 0 < available_permits (cs ! scan_index) then Some (Scan_found scan_index)
           else if Suc scan_index = current_index then Some (Scan_wrapped end_index)
           else same_priority_scan cs current_index target (Suc scan_index) end_index
      else case first_consumer_index_of_priority cs target of
             None \<Rightarrow> Some Scan_no_level
           | Some first \<Rightarrow>
               if first = current_index then Some (Scan_wrapped scan_index)
               else same_priority_scan cs current_index target first scan_index)"

definition find_available_consumer_from_same_or_lower_priority ::
    "Consumer list \<Rightarrow> nat \<Rightarrow> nat option option" where
  "find_available_consumer_from_same_or_lower_priority cs current_index =
     (if 0 < available_permits (cs ! current_index) then Some (Some current_index)
      else case same_priority_scan cs current_index (priority_level (cs ! current_index))
                  (Suc current_index) current_index of
             None \<Rightarrow> None
           | Some (Scan_found i) \<Rightarrow> Some (Some i)
           | Some Scan_no_level \<Rightarrow> Some None
           | Some (Scan_wrapped end_index) \<Rightarrow>
               Some (index_where (\<lambda>c. 0 < available_permits c) (drop end_index cs) end_index))"

definition get_next_available_consumer ::
    "'ch world \<Rightarrow> SharedDispatcher \<Rightarrow> (cref option \<times> SharedDispatcher) option" where
  "get_next_available_consumer w d =
     (if sd_consumers d = [] then Some (None, d)
      else
      let refs = ordered_consumers d; cs = map (w_consumers w) refs in
      if refs = [] then Some (None, d)
      else
      let current_index = sd_round_robin_index d mod length refs;
          current_priority = priority_level (cs ! current_index);
          chosen = (\<lambda>i. (Some (refs ! i), d\<lparr>sd_round_robin_index := (i + 1) mod length refs\<rparr>))
      in
      case (if current_priority \<noteq> 0
            then find_available_consumer_from_higher_priority cs current_index current_priority else None) of
        Some i \<Rightarrow> Some (chosen i)
      | None \<Rightarrow>
          (case find_available_consumer_from_same_or_lower_priority cs current_index of
             None \<Rightarrow> None
           | Some (Some i) \<Rightarrow> Some (chosen i)
           | Some None \<Rightarrow> Some (None, d)))"

section \<open>Membership\<close>

text \<open>The insertion point: before the first consumer of a numerically larger priority level.\<close>

definition insert_consumer_order :: "'ch world \<Rightarrow> u64 \<Rightarrow> i32 \<Rightarrow> SharedDispatcher \<Rightarrow> SharedDispatcher" where
  "insert_consumer_order w cid prio d =
     (let larger = (\<lambda>id. case btm_get id (sd_consumers d) of Some r \<Rightarrow> prio < priority_level (w_consumers w r) | None \<Rightarrow> False);
          insert_at = (case index_where larger (sd_consumer_order d) 0 of
                         Some i \<Rightarrow> i | None \<Rightarrow> length (sd_consumer_order d))
      in d\<lparr>sd_consumer_order := take insert_at (sd_consumer_order d) @ cid # drop insert_at (sd_consumer_order d)\<rparr>)"

definition remove_consumer_order :: "u64 \<Rightarrow> SharedDispatcher \<Rightarrow> SharedDispatcher" where
  "remove_consumer_order cid d =
     (case index_where (\<lambda>id. id = cid) (sd_consumer_order d) 0 of
        None \<Rightarrow> d
      | Some i \<Rightarrow>
          let order = take i (sd_consumer_order d) @ drop (Suc i) (sd_consumer_order d);
              len = length order;
              current = sd_round_robin_index d
          in d\<lparr>sd_consumer_order := order,
               sd_round_robin_index :=
                 (if len = 0 then 0 else if i < current then current - 1
                  else if len \<le> current then current mod len else current)\<rparr>)"

definition subtract_total_permits :: "u32 \<Rightarrow> SharedDispatcher \<Rightarrow> SharedDispatcher" where
  "subtract_total_permits n d =
     d\<lparr>sd_total_available_permits := i32_saturating_sub (sd_total_available_permits d) (u32_as_i32 n)\<rparr>"

definition shared_add_consumer ::
    "'ch world \<Rightarrow> cref \<Rightarrow> SharedDispatcher \<Rightarrow> unit result \<times> SharedDispatcher" where
  "shared_add_consumer w r d =
     (let c = w_consumers w r in
      if btm_contains (consumer_id c) (sd_consumers d) then (Inl (Msg ''Consumer already exists''), d)
      else (Inr (), insert_consumer_order w (consumer_id c) (priority_level c)
              (d\<lparr>sd_consumers := btm_insert (consumer_id c) r (sd_consumers d)\<rparr>)))"

definition shared_remove_consumer ::
    "'ch world \<Rightarrow> u64 \<Rightarrow> SharedDispatcher \<Rightarrow> cref option \<times> SharedDispatcher" where
  "shared_remove_consumer w cid d =
     (case btm_get cid (sd_consumers d) of
        None \<Rightarrow> (None, d)
      | Some r \<Rightarrow>
          (Some r, subtract_total_permits (available_permits_now (w_consumers w r))
             (remove_consumer_order cid (d\<lparr>sd_consumers := btm_remove cid (sd_consumers d)\<rparr>))))"

definition shared_is_consumer_connected :: "SharedDispatcher \<Rightarrow> bool" where
  "shared_is_consumer_connected d \<longleftrightarrow> sd_consumers d \<noteq> []"

definition shared_init_read_position :: "read_position \<Rightarrow> SharedDispatcher \<Rightarrow> SharedDispatcher" where
  "shared_init_read_position pos d = d\<lparr>sd_read_position := pos\<rparr>"

definition shared_reset_after_seek :: "read_position \<Rightarrow> SharedDispatcher \<Rightarrow> SharedDispatcher" where
  "shared_reset_after_seek pos d =
     (shared_init_read_position pos d)\<lparr>sd_redelivery_controller := rd_clear (sd_redelivery_controller d)\<rparr>"

definition shared_consumer_flow :: "u64 \<Rightarrow> u32 \<Rightarrow> SharedDispatcher \<Rightarrow> SharedDispatcher" where
  "shared_consumer_flow cid n d =
     d\<lparr>sd_total_available_permits := wrap_i32 (sd_total_available_permits d + u32_as_i32 n)\<rparr>"

section \<open>Redelivery queue\<close>

definition shared_add_redelivery_entries :: "RedeliveryEntry list \<Rightarrow> SharedDispatcher \<Rightarrow> SharedDispatcher" where
  "shared_add_redelivery_entries es d =
     d\<lparr>sd_redelivery_controller := fold rd_add es (sd_redelivery_controller d)\<rparr>"

definition shared_add_to_redelivery_queue :: "(MessageId \<times> u32) list \<Rightarrow> SharedDispatcher \<Rightarrow> SharedDispatcher" where
  "shared_add_to_redelivery_queue ids d =
     shared_add_redelivery_entries
       (map (\<lambda>(mid, rc). \<lparr>re_message_id = mid, re_redelivery_count = rc, re_sticky_key_hash = None\<rparr>) ids) d"

definition shared_pop_redelivery_message :: "SharedDispatcher \<Rightarrow> RedeliveryEntry option \<times> SharedDispatcher" where
  "shared_pop_redelivery_message d =
     (case rd_pop_next (sd_redelivery_controller d) of (e, c) \<Rightarrow> (e, d\<lparr>sd_redelivery_controller := c\<rparr>))"

definition shared_restore_redelivery_message :: "RedeliveryEntry \<Rightarrow> SharedDispatcher \<Rightarrow> SharedDispatcher" where
  "shared_restore_redelivery_message e d =
     d\<lparr>sd_redelivery_controller := rd_restore e (sd_redelivery_controller d)\<rparr>"

definition shared_on_message_acknowledged :: "MessageId \<Rightarrow> SharedDispatcher \<Rightarrow> SharedDispatcher" where
  "shared_on_message_acknowledged mid d =
     d\<lparr>sd_redelivery_controller := snd (rd_remove mid (sd_redelivery_controller d))\<rparr>"

definition get_redelivery_queue_size :: "SharedDispatcher \<Rightarrow> usize" where
  "get_redelivery_queue_size d = rd_len (sd_redelivery_controller d)"

text \<open>The ids among \<open>mids\<close> that are acknowledged; a storage error ends the loop.\<close>

fun filter_acknowledged ::
    "'s ManagedLedgerStorage \<Rightarrow> 's \<Rightarrow> string \<Rightarrow> string \<Rightarrow> MessageId list \<Rightarrow> MessageId list result" where
  "filter_acknowledged st s topic sub [] = Inr []"
| "filter_acknowledged st s topic sub (mid # mids) =
     and_then (is_acknowledged st s topic sub mid) (\<lambda>acked.
     and_then (filter_acknowledged st s topic sub mids) (\<lambda>rest.
       Inr (if acked then mid # rest else rest)))"

text \<open>How the read position follows the first unacknowledged position after an acknowledgement.\<close>

definition advanced_read_position :: "read_position \<Rightarrow> read_position \<Rightarrow> read_position" where
  "advanced_read_position rp fu =
     (case (rp, fu) of
        (Some current, Some first) \<Rightarrow> if current < first then Some first else Some current
      | (Some current, None) \<Rightarrow> None
      | (None, _) \<Rightarrow> None)"

definition shared_on_ack_state_updated ::
    "'s ManagedLedgerStorage \<Rightarrow> 's \<Rightarrow> string \<Rightarrow> string \<Rightarrow> SharedDispatcher \<Rightarrow> unit result \<times> SharedDispatcher" where
  "shared_on_ack_state_updated st s topic sub d =
     (case and_then (filter_acknowledged st s topic sub (queued_message_ids (sd_redelivery_controller d)))
             (\<lambda>ids. and_then (first_unacked_position st s topic sub) (\<lambda>fu. Inr (ids, fu))) of
        Inl e \<Rightarrow> (Inl e, d)
      | Inr (ids, fu) \<Rightarrow>
          (Inr (), d\<lparr>sd_redelivery_controller := fold (\<lambda>mid c. snd (rd_remove mid c)) ids (sd_redelivery_controller d),
                     sd_read_position := advanced_read_position (sd_read_position d) fu\<rparr>))"

definition shared_remove_consumer_with_recovery ::
    "u64 \<Rightarrow> 'ch world \<Rightarrow> SharedDispatcher \<Rightarrow> cref option \<times> 'ch world \<times> SharedDispatcher" where
  "shared_remove_consumer_with_recovery cid w d =
     (case btm_get cid (sd_consumers d) of
        None \<Rightarrow> (None, w, d)
      | Some r \<Rightarrow>
          let d1 = subtract_total_permits (available_permits_now (w_consumers w r))
                     (remove_consumer_order cid (d\<lparr>sd_consumers := btm_remove cid (sd_consumers d)\<rparr>));
              (pending, c) = drain_pending_acks (close_pending_acks (w_consumers w r));
              recovered = map (\<lambda>(mid, pa). (mid, pa_redelivery_count pa + 1)) pending
          in (Some r, upd_consumer r (\<lambda>_. c) w, shared_add_to_redelivery_queue recovered d1))"

section \<open>Dispatching\<close>

definition is_message_pending :: "'ch world \<Rightarrow> cref list \<Rightarrow> MessageId \<Rightarrow> bool" where
  "is_message_pending w refs mid \<longleftrightarrow> list_ex (\<lambda>r. has_pending_ack mid (w_consumers w r)) refs"

text \<open>Shared with the Key\_Shared dispatcher, which checks its own consumers \<open>refs\<close>.\<close>

partial_function (option) next_dispatchable_message ::
    "'s ManagedLedgerStorage \<Rightarrow> 's \<Rightarrow> string \<Rightarrow> string \<Rightarrow> (MessageId \<Rightarrow> bool) \<Rightarrow> read_position
     \<Rightarrow> (ReadCandidate option result \<times> read_position) option" where
  "next_dispatchable_message st s topic sub pending rp =
     (case next_unacked_candidate st s topic sub rp of
        None \<Rightarrow> None
      | Some (Inl e, rp1) \<Rightarrow> Some (Inl e, rp1)
      | Some (Inr None, rp1) \<Rightarrow> Some (Inr None, rp1)
      | Some (Inr (Some c), rp1) \<Rightarrow>
          if pending (rc_message_id c)
          then next_dispatchable_message st s topic sub pending (commit_read_position rp1 (rc_next_position c))
          else Some (Inr (Some c), rp1))"

text \<open>How one turn of the batch loop ends: go on (having sent a message or not), stop, or fail.\<close>

datatype turn = Next bool | Stop | Fail error

definition shared_redeliver ::
    "'ch broker_ext \<Rightarrow> 's ManagedLedgerStorage \<Rightarrow> 's \<Rightarrow> string \<Rightarrow> string \<Rightarrow> cref \<Rightarrow> RedeliveryEntry
     \<Rightarrow> 'ch world \<Rightarrow> SharedDispatcher \<Rightarrow> turn \<times> 'ch world \<times> SharedDispatcher" where
  "shared_redeliver bx st s topic sub r redelivery w d =
     (let mid = re_message_id redelivery; rc = re_redelivery_count redelivery in
      case is_acknowledged st s topic sub mid of
        Inl e \<Rightarrow> (Fail e, w, d)
      | Inr True \<Rightarrow> (Next False, w, d)
      | Inr False \<Rightarrow>
          (case get_message_entry_by_id st s topic mid of
             None \<Rightarrow> (Next False, w, d)
           | Some e \<Rightarrow>
               let batch_count = messages_in_batch (bx_proto bx) (sm_metadata e) in
               (case try_use_permits batch_count (w_consumers w r) of
                  (False, _) \<Rightarrow>
                    (Stop, w, shared_restore_redelivery_message
                       \<lparr>re_message_id = sm_message_id e, re_redelivery_count = rc,
                        re_sticky_key_hash = re_sticky_key_hash redelivery\<rparr> d)
                | (True, c) \<Rightarrow>
                    let w1 = upd_consumer r (\<lambda>_. c) w;
                        d1 = d\<lparr>sd_total_available_permits :=
                               wrap_i32 (sd_total_available_permits d - u32_as_i32 batch_count)\<rparr>
                    in case send_message bx r (sm_message_id e) (sm_metadata e) (sm_payload e) rc w1 of
                         (True, w2) \<Rightarrow>
                           (Next True, upd_consumer r (record_message_dispatched batch_count (length (sm_payload e))) w2, d1)
                       | (False, w2) \<Rightarrow>
                           (Stop, upd_consumer r (add_permits batch_count) w2,
                            (shared_restore_redelivery_message
                               \<lparr>re_message_id = sm_message_id e, re_redelivery_count = rc + 1, re_sticky_key_hash = None\<rparr> d1)
                            \<lparr>sd_total_available_permits :=
                               wrap_i32 (sd_total_available_permits d1 + u32_as_i32 batch_count)\<rparr>))))"

definition shared_dispatch_new ::
    "'ch broker_ext \<Rightarrow> 's ManagedLedgerStorage \<Rightarrow> 's \<Rightarrow> string \<Rightarrow> string \<Rightarrow> cref
     \<Rightarrow> 'ch world \<Rightarrow> SharedDispatcher \<Rightarrow> (turn \<times> 'ch world \<times> SharedDispatcher) option" where
  "shared_dispatch_new bx st s topic sub r w d =
     (case next_dispatchable_message st s topic sub (is_message_pending w (ordered_consumers d)) (sd_read_position d) of
        None \<Rightarrow> None
      | Some (Inl e, rp) \<Rightarrow> Some (Fail e, w, d\<lparr>sd_read_position := rp\<rparr>)
      | Some (Inr None, rp) \<Rightarrow> Some (Stop, w, d\<lparr>sd_read_position := rp\<rparr>)
      | Some (Inr (Some c), rp) \<Rightarrow>
          let d0 = d\<lparr>sd_read_position := rp\<rparr>;
              batch_count = messages_in_batch (bx_proto bx) (rc_metadata c)
          in case try_use_permits batch_count (w_consumers w r) of
               (False, _) \<Rightarrow> Some (Stop, w, d0)
             | (True, c1) \<Rightarrow>
                 let w1 = upd_consumer r (\<lambda>_. c1) w;
                     d1 = d0\<lparr>sd_total_available_permits :=
                            wrap_i32 (sd_total_available_permits d0 - u32_as_i32 batch_count)\<rparr>;
                     committed = commit_read_position rp (rc_next_position c)
                 in case send_message bx r (rc_message_id c) (rc_metadata c) (rc_payload c) 0 w1 of
                      (True, w2) \<Rightarrow>
                        Some (Next True,
                          upd_consumer r (record_message_dispatched batch_count (length (rc_payload c))) w2,
                          d1\<lparr>sd_read_position := committed\<rparr>)
                    | (False, w2) \<Rightarrow>
                        Some (Stop, upd_consumer r (add_permits batch_count) w2,
                          (shared_add_to_redelivery_queue [(rc_message_id c, 1)] d1)
                          \<lparr>sd_read_position := committed,
                           sd_total_available_permits :=
                             wrap_i32 (sd_total_available_permits d1 + u32_as_i32 batch_count)\<rparr>))"

definition shared_turn ::
    "'ch broker_ext \<Rightarrow> 's ManagedLedgerStorage \<Rightarrow> 's \<Rightarrow> string \<Rightarrow> string
     \<Rightarrow> 'ch world \<Rightarrow> SharedDispatcher \<Rightarrow> (turn \<times> 'ch world \<times> SharedDispatcher) option" where
  "shared_turn bx st s topic sub w d =
     (case get_next_available_consumer w d of
        None \<Rightarrow> None
      | Some (None, d1) \<Rightarrow> Some (Stop, w, d1)
      | Some (Some r, d1) \<Rightarrow>
          if sd_max_unacked_messages d1 \<le> pending_ack_count (w_consumers w r) then Some (Stop, w, d1)
          else case shared_pop_redelivery_message d1 of
                 (Some redelivery, d2) \<Rightarrow> Some (shared_redeliver bx st s topic sub r redelivery w d2)
               | (None, d2) \<Rightarrow> shared_dispatch_new bx st s topic sub r w d2)"

fun shared_batch_loop ::
    "'ch broker_ext \<Rightarrow> 's ManagedLedgerStorage \<Rightarrow> 's \<Rightarrow> string \<Rightarrow> string \<Rightarrow> nat \<Rightarrow> u32
     \<Rightarrow> 'ch world \<Rightarrow> SharedDispatcher \<Rightarrow> (u32 result \<times> 'ch world \<times> SharedDispatcher) option" where
  "shared_batch_loop bx st s topic sub 0 dispatched w d = Some (Inr dispatched, w, d)"
| "shared_batch_loop bx st s topic sub (Suc n) dispatched w d =
     (case shared_turn bx st s topic sub w d of
        None \<Rightarrow> None
      | Some (Fail e, w1, d1) \<Rightarrow> Some (Inl e, w1, d1)
      | Some (Stop, w1, d1) \<Rightarrow> Some (Inr dispatched, w1, d1)
      | Some (Next sent, w1, d1) \<Rightarrow>
          shared_batch_loop bx st s topic sub n (if sent then dispatched + 1 else dispatched) w1 d1)"

definition shared_dispatch_messages_batch ::
    "'ch broker_ext \<Rightarrow> 's ManagedLedgerStorage \<Rightarrow> 's \<Rightarrow> string \<Rightarrow> string
     \<Rightarrow> 'ch world \<Rightarrow> SharedDispatcher \<Rightarrow> (u32 result \<times> 'ch world \<times> SharedDispatcher) option" where
  "shared_dispatch_messages_batch bx st s topic sub w d =
     (if sd_total_available_permits d \<le> 0 then Some (Inr 0, w, d)
      else shared_batch_loop bx st s topic sub
             (nat (min (sd_total_available_permits d) (u32_as_i32 DISPATCHER_MAX_ROUND_ROBIN_BATCH_SIZE))) 0 w d)"

text \<open>One pass: batches while they make progress and permits remain.\<close>

partial_function (option) shared_pass ::
    "'ch broker_ext \<Rightarrow> 's ManagedLedgerStorage \<Rightarrow> 's \<Rightarrow> string \<Rightarrow> string
     \<Rightarrow> 'ch world \<Rightarrow> SharedDispatcher \<Rightarrow> (unit result \<times> 'ch world \<times> SharedDispatcher) option" where
  "shared_pass bx st s topic sub w d =
     (case shared_dispatch_messages_batch bx st s topic sub w d of
        None \<Rightarrow> None
      | Some (Inl e, w1, d1) \<Rightarrow> Some (Inl e, w1, d1)
      | Some (Inr n, w1, d1) \<Rightarrow>
          if n = 0 \<or> sd_total_available_permits d1 = 0 then Some (Inr (), w1, d1)
          else shared_pass bx st s topic sub w1 d1)"

partial_function (option) shared_pass_loop ::
    "'ch broker_ext \<Rightarrow> 's ManagedLedgerStorage \<Rightarrow> 's \<Rightarrow> string \<Rightarrow> string
     \<Rightarrow> 'ch world \<Rightarrow> SharedDispatcher \<Rightarrow> (unit result \<times> 'ch world \<times> SharedDispatcher) option" where
  "shared_pass_loop bx st s topic sub w d =
     (case shared_pass bx st s topic sub w d of
        None \<Rightarrow> None
      | Some (Inl e, w1, d1) \<Rightarrow> Some (Inl e, w1, d1\<lparr>sd_dispatch_in_progress := False\<rparr>)
      | Some (Inr _, w1, d1) \<Rightarrow>
          if \<not> sd_should_reschedule d1
          then Some (Inr (), w1, d1\<lparr>sd_dispatch_in_progress := False\<rparr>)
          else shared_pass_loop bx st s topic sub w1 (d1\<lparr>sd_should_reschedule := False, sd_dispatch_in_progress := True\<rparr>))"

definition shared_dispatch_messages ::
    "'ch broker_ext \<Rightarrow> 's ManagedLedgerStorage \<Rightarrow> 's \<Rightarrow> string \<Rightarrow> string
     \<Rightarrow> 'ch world \<Rightarrow> SharedDispatcher \<Rightarrow> (unit result \<times> 'ch world \<times> SharedDispatcher) option" where
  "shared_dispatch_messages bx st s topic sub w d =
     (if sd_dispatch_in_progress d then Some (Inr (), w, d\<lparr>sd_should_reschedule := True\<rparr>)
      else shared_pass_loop bx st s topic sub w (d\<lparr>sd_dispatch_in_progress := True\<rparr>))"

section \<open>The round robin\<close>

lemma index_where_Some_iff:
  "index_where P xs i = Some j \<longleftrightarrow>
     i \<le> j \<and> j - i < length xs \<and> P (xs ! (j - i)) \<and> (\<forall>k < j - i. \<not> P (xs ! k))"
proof (induction xs arbitrary: i)
  case (Cons x xs)
  show ?case
  proof (cases "P x")
    case True
    then show ?thesis by (cases "j - i") auto
  next
    case False
    have "index_where P (x # xs) i = Some j \<longleftrightarrow>
        Suc i \<le> j \<and> j - Suc i < length xs \<and> P (xs ! (j - Suc i)) \<and> (\<forall>k < j - Suc i. \<not> P (xs ! k))"
      using False Cons.IH [of "Suc i"] by simp
    also have "\<dots> \<longleftrightarrow> i \<le> j \<and> j - i < length (x # xs) \<and> P ((x # xs) ! (j - i)) \<and> (\<forall>k < j - i. \<not> P ((x # xs) ! k))"
    proof (cases "Suc i \<le> j")
      case True
      then obtain n where n: "j - i = Suc n" "n = j - Suc i" by (metis Suc_diff_Suc Suc_le_lessD)
      show ?thesis using True False unfolding n(1) n(2) [symmetric] by (auto simp: All_less_Suc2)
    qed (use False in \<open>cases "j = i"; auto\<close>)
    finally show ?thesis .
  qed
qed simp

lemma index_where_cong:
  "(\<And>x. x \<in> set xs \<Longrightarrow> P x \<longleftrightarrow> Q x) \<Longrightarrow> index_where P xs i = index_where Q xs i"
  by (induction xs arbitrary: i) auto

lemma index_where_None_iff: "index_where P xs i = None \<longleftrightarrow> (\<forall>x \<in> set xs. \<not> P x)"
  by (induction xs arbitrary: i) auto

text \<open>Consumers listed by priority level, and whether a consumer can take messages.\<close>

definition by_priority :: "Consumer list \<Rightarrow> bool" where
  "by_priority cs \<longleftrightarrow> sorted (map priority_level cs)"

abbreviation free :: "Consumer \<Rightarrow> bool" where
  "free c \<equiv> 0 < available_permits c"

lemma by_priority_nth: "by_priority cs \<Longrightarrow> i \<le> j \<Longrightarrow> j < length cs \<Longrightarrow> priority_level (cs ! i) \<le> priority_level (cs ! j)"
  using sorted_nth_mono [of "map priority_level cs" i j] by (simp add: by_priority_def)

lemma higher_priority_loop_spec:
  assumes "by_priority cs"
  shows "case higher_priority_loop cs t i of
      None \<Rightarrow> \<forall>k < length cs. priority_level (cs ! k) < t \<longrightarrow> \<not> free (cs ! k)
    | Some j \<Rightarrow> i \<le> j \<and> j - i < length cs \<and> priority_level (cs ! (j - i)) < t \<and> free (cs ! (j - i)) \<and>
        (\<forall>k < j - i. \<not> free (cs ! k))"
  using assms
proof (induction cs arbitrary: i)
  case (Cons c cs)
  have sorted: "by_priority cs" "\<forall>x \<in> set cs. priority_level c \<le> priority_level x"
    using Cons.prems by (auto simp: by_priority_def)
  show ?case
  proof (cases "t \<le> priority_level c \<or> free c")
    case True
    have "priority_level c \<le> priority_level ((c # cs) ! k)" if "k < length (c # cs)" for k
      using by_priority_nth [OF Cons.prems, of 0 k] that by simp
    with True show ?thesis by fastforce
  next
    case False
    with Cons.IH [OF sorted(1), of "Suc i"] show ?thesis
      by (auto simp: nth_Cons' split: option.splits dest: Suc_diff_le)
  qed
qed simp

text \<open>Second half of the scan: from \<open>k\<close> up to the current index, inside the level.\<close>

lemma scan_below:
  assumes "k < cur" "\<And>j. k \<le> j \<Longrightarrow> j < cur \<Longrightarrow> j < length cs \<and> priority_level (cs ! j) = t"
  shows "(\<exists>i. k \<le> i \<and> i < cur \<and> free (cs ! i) \<and> (\<forall>j. k \<le> j \<and> j < i \<longrightarrow> \<not> free (cs ! j)) \<and>
        same_priority_scan cs cur t k e = Some (Scan_found i)) \<or>
    (\<forall>j. k \<le> j \<and> j < cur \<longrightarrow> \<not> free (cs ! j)) \<and> same_priority_scan cs cur t k e = Some (Scan_wrapped e)"
  using assms
proof (induction "cur - k" arbitrary: k)
  case (Suc n)
  have k: "k < length cs" "priority_level (cs ! k) = t" using Suc.prems by auto
  show ?case
  proof (cases "free (cs ! k)")
    case True
    then have "same_priority_scan cs cur t k e = Some (Scan_found k)"
      by (subst same_priority_scan.simps) (simp add: k)
    with True Suc.prems show ?thesis by (intro disjI1 exI [of _ k]) auto
  next
    case False
    show ?thesis
    proof (cases "Suc k = cur")
      case True
      then have "same_priority_scan cs cur t k e = Some (Scan_wrapped e)"
        using False by (subst same_priority_scan.simps) (simp add: k)
      with False True show ?thesis by (auto simp: less_Suc_eq_le dest!: le_antisym)
    next
      case ne: False
      have step: "same_priority_scan cs cur t k e = same_priority_scan cs cur t (Suc k) e"
        using False ne by (subst same_priority_scan.simps) (simp add: k)
      have IH: "(\<exists>i. Suc k \<le> i \<and> i < cur \<and> free (cs ! i) \<and> (\<forall>j. Suc k \<le> j \<and> j < i \<longrightarrow> \<not> free (cs ! j)) \<and>
            same_priority_scan cs cur t (Suc k) e = Some (Scan_found i)) \<or>
          (\<forall>j. Suc k \<le> j \<and> j < cur \<longrightarrow> \<not> free (cs ! j)) \<and> same_priority_scan cs cur t (Suc k) e = Some (Scan_wrapped e)"
        by (rule Suc.hyps) (use Suc.prems Suc.hyps(2) ne in auto)
      have ext: "(\<forall>j. k \<le> j \<and> j < m \<longrightarrow> \<not> free (cs ! j)) \<longleftrightarrow> (\<forall>j. Suc k \<le> j \<and> j < m \<longrightarrow> \<not> free (cs ! j))" for m
        using False by (metis Suc_leI le_less less_or_eq_imp_le Suc_leD)
      from IH show ?thesis unfolding step ext by (auto dest: Suc_leD)
    qed
  qed
qed simp

text \<open>The first index of a level, in a list sorted by level.\<close>

lemma first_of_level:
  assumes "by_priority cs" "cur < length cs"
  obtains lo where "first_consumer_index_of_priority cs (priority_level (cs ! cur)) = Some lo" "lo \<le> cur"
    "\<And>j. lo \<le> j \<Longrightarrow> j \<le> cur \<Longrightarrow> priority_level (cs ! j) = priority_level (cs ! cur)"
    "\<And>j. j < lo \<Longrightarrow> priority_level (cs ! j) \<noteq> priority_level (cs ! cur)"
proof -
  let ?t = "priority_level (cs ! cur)"
  have "first_consumer_index_of_priority cs ?t \<noteq> None"
    using assms(2) by (auto simp: first_consumer_index_of_priority_def index_where_None_iff)
  then obtain lo where lo: "first_consumer_index_of_priority cs ?t = Some lo" by auto
  have lo': "lo < length cs" "priority_level (cs ! lo) = ?t" "\<And>k. k < lo \<Longrightarrow> priority_level (cs ! k) \<noteq> ?t"
    using lo by (auto simp: first_consumer_index_of_priority_def index_where_Some_iff)
  have le: "lo \<le> cur" using lo'(3) [of cur] by (meson not_le)
  moreover have "priority_level (cs ! j) = ?t" if "lo \<le> j" "j \<le> cur" for j
    using by_priority_nth [OF assms(1) that(1)] by_priority_nth [OF assms(1) that(2) assms(2)] that assms(2) lo'(2)
    by fastforce
  ultimately show ?thesis using lo lo'(3) that by blast
qed

text \<open>What the scan of level \<open>t\<close> promises when it has passed the indices from \<open>cur\<close> to \<open>k\<close>.\<close>

definition scan_ok :: "Consumer list \<Rightarrow> nat \<Rightarrow> i32 \<Rightarrow> nat \<Rightarrow> scan_result \<Rightarrow> bool" where
  "scan_ok cs cur t k res = (case res of
     Scan_found i \<Rightarrow> i < length cs \<and> priority_level (cs ! i) = t \<and> free (cs ! i) \<and>
       (k \<le> i \<and> (\<forall>j. k \<le> j \<and> j < i \<longrightarrow> \<not> free (cs ! j)) \<or>
        i < cur \<and> (\<forall>j. (k \<le> j \<or> j < i) \<and> j < length cs \<and> priority_level (cs ! j) = t \<longrightarrow> \<not> free (cs ! j)))
   | Scan_wrapped e \<Rightarrow>
       (\<forall>j. (k \<le> j \<or> j < cur) \<and> j < length cs \<and> priority_level (cs ! j) = t \<longrightarrow> \<not> free (cs ! j)) \<and>
       (\<forall>j < length cs. e \<le> j \<longleftrightarrow> t < priority_level (cs ! j))
   | Scan_no_level \<Rightarrow> False)"

lemma scan_above:
  assumes sorted: "by_priority cs" and cur: "cur < length cs" and t: "t = priority_level (cs ! cur)"
    and k: "cur < k" "k \<le> length cs" and lvl: "\<And>j. cur \<le> j \<Longrightarrow> j < k \<Longrightarrow> priority_level (cs ! j) = t"
  shows "\<exists>res. same_priority_scan cs cur t k e = Some res \<and> scan_ok cs cur t k res"
  using k lvl
proof (induction "length cs - k" arbitrary: k rule: less_induct)
  case less
  show ?case
  proof (cases "k < length cs \<and> priority_level (cs ! k) = t")
    case True
    show ?thesis
    proof (cases "free (cs ! k)")
      case free: True
      then have "same_priority_scan cs cur t k e = Some (Scan_found k)"
        using True by (subst same_priority_scan.simps) simp
      moreover have "scan_ok cs cur t k (Scan_found k)" using True free by (simp add: scan_ok_def)
      ultimately show ?thesis by blast
    next
      case busy: False
      have step: "same_priority_scan cs cur t k e = same_priority_scan cs cur t (Suc k) e"
        using True busy less.prems(1) by (subst same_priority_scan.simps) simp
      have "\<exists>res. same_priority_scan cs cur t (Suc k) e = Some res \<and> scan_ok cs cur t (Suc k) res"
        by (rule less.hyps) (use True less.prems in \<open>auto simp: less_Suc_eq\<close>)
      then obtain res where res: "same_priority_scan cs cur t (Suc k) e = Some res" "scan_ok cs cur t (Suc k) res" by blast
      have sk: "Suc k \<le> j" if "k \<le> j" "free (cs ! j)" for j
        using that busy by (metis Suc_leI le_neq_implies_less)
      have "scan_ok cs cur t k res"
        using res(2) sk by (cases res) (simp add: scan_ok_def; metis Suc_leD)+
      with res(1) step show ?thesis by auto
    qed
  next
    case False
    obtain lo where lo: "first_consumer_index_of_priority cs t = Some lo" "lo \<le> cur"
      "\<And>j. lo \<le> j \<Longrightarrow> j \<le> cur \<Longrightarrow> priority_level (cs ! j) = t" "\<And>j. j < lo \<Longrightarrow> priority_level (cs ! j) \<noteq> t"
      using first_of_level [OF sorted cur] unfolding t by metis
    have above: "k \<le> j \<longleftrightarrow> t < priority_level (cs ! j)" if "j < length cs" for j
    proof
      assume kj: "k \<le> j"
      with that False have "priority_level (cs ! k) \<noteq> t" by simp
      moreover have "t \<le> priority_level (cs ! k)" "priority_level (cs ! k) \<le> priority_level (cs ! j)"
        using by_priority_nth [OF sorted, of cur k] by_priority_nth [OF sorted kj] less.prems(1) kj that t by auto
      ultimately show "t < priority_level (cs ! j)" by simp
    next
      assume lt: "t < priority_level (cs ! j)"
      show "k \<le> j"
      proof (rule ccontr)
        assume "\<not> k \<le> j"
        then have "priority_level (cs ! j) \<le> priority_level (cs ! (k - 1))"
          using by_priority_nth [OF sorted, of j "k - 1"] less.prems by auto
        moreover have "priority_level (cs ! (k - 1)) = t" using less.prems by auto
        ultimately show False using lt by simp
      qed
    qed
    have unfold: "same_priority_scan cs cur t k e =
        (if lo = cur then Some (Scan_wrapped k) else same_priority_scan cs cur t lo k)"
      by (subst same_priority_scan.simps, subst if_not_P [OF False]) (simp add: lo(1))
    have none_above: "\<not> (k \<le> j \<and> j < length cs \<and> priority_level (cs ! j) = t)" for j using above by fastforce
    have not_below: "lo \<le> j" if "priority_level (cs ! j) = t" for j using lo(4) [of j] that by (meson not_le)
    show ?thesis
    proof (cases "lo = cur")
      case True
      then have "scan_ok cs cur t k (Scan_wrapped k)"
        using above none_above not_below by (fastforce simp: scan_ok_def)
      with True unfold show ?thesis by auto
    next
      case ne: False
      have "(\<exists>i. lo \<le> i \<and> i < cur \<and> free (cs ! i) \<and> (\<forall>j. lo \<le> j \<and> j < i \<longrightarrow> \<not> free (cs ! j)) \<and>
            same_priority_scan cs cur t lo k = Some (Scan_found i)) \<or>
          (\<forall>j. lo \<le> j \<and> j < cur \<longrightarrow> \<not> free (cs ! j)) \<and> same_priority_scan cs cur t lo k = Some (Scan_wrapped k)"
        by (rule scan_below) (use lo ne cur in auto)
      then show ?thesis
      proof
        assume "\<exists>i. lo \<le> i \<and> i < cur \<and> free (cs ! i) \<and> (\<forall>j. lo \<le> j \<and> j < i \<longrightarrow> \<not> free (cs ! j)) \<and>
            same_priority_scan cs cur t lo k = Some (Scan_found i)"
        then obtain i where i: "lo \<le> i" "i < cur" "free (cs ! i)" "\<forall>j. lo \<le> j \<and> j < i \<longrightarrow> \<not> free (cs ! j)"
          "same_priority_scan cs cur t lo k = Some (Scan_found i)" by blast
        have "scan_ok cs cur t k (Scan_found i)"
          using i lo(3) cur none_above not_below by (auto simp: scan_ok_def)
        with i(5) unfold ne show ?thesis by auto
      next
        assume w: "(\<forall>j. lo \<le> j \<and> j < cur \<longrightarrow> \<not> free (cs ! j)) \<and> same_priority_scan cs cur t lo k = Some (Scan_wrapped k)"
        then have "scan_ok cs cur t k (Scan_wrapped k)"
          using above none_above not_below by (auto simp: scan_ok_def)
        with w unfold ne show ?thesis by auto
      qed
    qed
  qed
qed

text \<open>
  The search from \<open>cur\<close> for the same or a lower level returns. It finds a free consumer exactly if
  there is one at such a level, at the best such level, and the next one in turn within the level.
\<close>

lemma same_or_lower_spec:
  assumes sorted: "by_priority cs" and cur: "cur < length cs"
  shows "\<exists>res. find_available_consumer_from_same_or_lower_priority cs cur = Some res \<and>
    (case res of
       None \<Rightarrow> \<forall>j < length cs. priority_level (cs ! cur) \<le> priority_level (cs ! j) \<longrightarrow> \<not> free (cs ! j)
     | Some i \<Rightarrow> i < length cs \<and> free (cs ! i) \<and> priority_level (cs ! cur) \<le> priority_level (cs ! i) \<and>
         (\<forall>j < length cs. free (cs ! j) \<and> priority_level (cs ! cur) \<le> priority_level (cs ! j) \<longrightarrow>
            priority_level (cs ! i) \<le> priority_level (cs ! j)))"
proof (cases "free (cs ! cur)")
  case True
  with cur show ?thesis by (simp add: find_available_consumer_from_same_or_lower_priority_def)
next
  case busy: False
  let ?t = "priority_level (cs ! cur)"
  obtain res where res: "same_priority_scan cs cur ?t (Suc cur) cur = Some res" "scan_ok cs cur ?t (Suc cur) res"
    using scan_above [OF sorted cur refl, of "Suc cur" cur] cur by (auto simp: less_Suc_eq)
  show ?thesis
  proof (cases res)
    case (Scan_found i)
    with res busy show ?thesis
      by (auto simp: find_available_consumer_from_same_or_lower_priority_def scan_ok_def)
  next
    case (Scan_wrapped e)
    have lvl: "\<not> free (cs ! j)" if "j < length cs" "priority_level (cs ! j) = ?t" for j
      using res(2) Scan_wrapped busy that nat_neq_iff [of j cur] by (cases "j = cur") (auto simp: scan_ok_def Suc_le_eq)
    have above: "e \<le> j \<longleftrightarrow> ?t < priority_level (cs ! j)" if "j < length cs" for j
      using res(2) Scan_wrapped that by (auto simp: scan_ok_def)
    have run: "find_available_consumer_from_same_or_lower_priority cs cur = Some (index_where free (drop e cs) e)"
      using res(1) Scan_wrapped busy by (simp add: find_available_consumer_from_same_or_lower_priority_def)
    show ?thesis
    proof (cases "index_where free (drop e cs) e")
      case None
      have "\<not> free (cs ! j)" if "j < length cs" "?t \<le> priority_level (cs ! j)" for j
      proof (cases "e \<le> j")
        case True
        then have "drop e cs ! (j - e) = cs ! j" "j - e < length (drop e cs)" using that by auto
        then have "cs ! j \<in> set (drop e cs)" by (metis nth_mem)
        then show ?thesis using None by (auto simp: index_where_None_iff)
      qed (use lvl above that in fastforce)
      with run None show ?thesis by auto
    next
      case (Some i)
      then have i: "e \<le> i" "i < length cs" "free (cs ! i)" "\<And>k. k < i - e \<Longrightarrow> \<not> free (cs ! (e + k))"
        by (auto simp: index_where_Some_iff)
      have "priority_level (cs ! i) \<le> priority_level (cs ! j)"
        if "j < length cs" "free (cs ! j)" "?t \<le> priority_level (cs ! j)" for j
      proof -
        have "?t < priority_level (cs ! j)" using lvl that by fastforce
        then have "e \<le> j" using above that by simp
        then have "i \<le> j" using i(4) [of "j - e"] that(2) by (metis diff_less_mono le_add_diff_inverse not_le)
        then show ?thesis by (rule by_priority_nth [OF sorted _ that(1)])
      qed
      with run Some i above show ?thesis by (auto intro: less_imp_le)
    qed
  qed (use res in \<open>simp add: scan_ok_def\<close>)
qed

section \<open>Consumers of a dispatcher\<close>

definition shared_wf :: "'ch world \<Rightarrow> SharedDispatcher \<Rightarrow> bool" where
  "shared_wf w d \<longleftrightarrow> btm_ok (sd_consumers d) \<and> distinct (sd_consumer_order d) \<and>
     set (sd_consumer_order d) = fst ` set (sd_consumers d) \<and>
     (\<forall>(cid, r) \<in> set (sd_consumers d). consumer_id (w_consumers w r) = cid \<and> 0 \<le> priority_level (w_consumers w r)) \<and>
     by_priority (map (w_consumers w) (ordered_consumers d))"

text \<open>The consumers a dispatcher manages.\<close>

definition members :: "SharedDispatcher \<Rightarrow> cref set" where
  "members d = snd ` set (sd_consumers d)"

definition ref_of :: "SharedDispatcher \<Rightarrow> u64 \<Rightarrow> cref" where
  "ref_of d cid = the (btm_get cid (sd_consumers d))"

lemma ordered_consumers_map:
  assumes "set order \<subseteq> fst ` set (sd_consumers d)"
  shows "List.map_filter (\<lambda>cid. btm_get cid (sd_consumers d)) order = map (ref_of d) order"
  using assms
proof (induction order)
  case (Cons cid order)
  then obtain r where "btm_get cid (sd_consumers d) = Some r"
    using btm_get_None_iff [of cid "sd_consumers d"] by auto
  with Cons show ?case by (simp add: List.map_filter_simps ref_of_def)
qed (simp add: List.map_filter_simps)

lemma shared_wf_ordered: "shared_wf w d \<Longrightarrow> ordered_consumers d = map (ref_of d) (sd_consumer_order d)"
  by (simp add: ordered_consumers_def shared_wf_def ordered_consumers_map)

lemma shared_wf_members: "shared_wf w d \<Longrightarrow> set (ordered_consumers d) = members d"
proof -
  assume wf: "shared_wf w d"
  then have ok: "btm_ok (sd_consumers d)" and keys: "set (sd_consumer_order d) = fst ` set (sd_consumers d)"
    by (auto simp: shared_wf_def)
  have "ref_of d (fst p) = snd p" if "p \<in> set (sd_consumers d)" for p
    using btm_get_Some_iff [OF ok, of "fst p" "snd p"] that by (simp add: ref_of_def)
  then show ?thesis unfolding shared_wf_ordered [OF wf] members_def set_map keys image_image by (rule image_cong [OF refl])
qed

lemma shared_wf_empty_iff: "shared_wf w d \<Longrightarrow> ordered_consumers d = [] \<longleftrightarrow> sd_consumers d = []"
  using shared_wf_members [of w d] by (auto simp: members_def)

lemma same_ids_distinct_refs:
  assumes "shared_wf w d" "(cid, r) \<in> set (sd_consumers d)" "(cid', r) \<in> set (sd_consumers d)"
  shows "cid = cid'"
proof -
  have *: "consumer_id (w_consumers w (snd p)) = fst p" if "p \<in> set (sd_consumers d)" for p
    using assms(1) that by (auto simp: shared_wf_def)
  show ?thesis using * [OF assms(2)] * [OF assms(3)] by simp
qed

text \<open>What choosing a consumer leaves unchanged.\<close>

lemma get_next_frame:
  assumes "get_next_available_consumer w d = Some (res, d')"
  shows "\<exists>i. d' = d\<lparr>sd_round_robin_index := i\<rparr>"
  using assms by (auto simp: get_next_available_consumer_def Let_def split: if_splits option.splits)
    (metis (mono_tags) SharedDispatcher.surjective SharedDispatcher.update_convs(3))+

text \<open>The index the dispatcher chooses among its consumers, and what makes it the right one.\<close>

definition next_index :: "Consumer list \<Rightarrow> nat \<Rightarrow> nat option option" where
  "next_index cs cur =
     (case (if priority_level (cs ! cur) \<noteq> 0
            then find_available_consumer_from_higher_priority cs cur (priority_level (cs ! cur)) else None) of
        Some i \<Rightarrow> Some (Some i)
      | None \<Rightarrow> find_available_consumer_from_same_or_lower_priority cs cur)"

definition best_index :: "Consumer list \<Rightarrow> nat option \<Rightarrow> bool" where
  "best_index cs res \<longleftrightarrow>
     (case res of
        None \<Rightarrow> \<forall>j < length cs. \<not> free (cs ! j)
      | Some i \<Rightarrow> i < length cs \<and> free (cs ! i) \<and>
          (\<forall>j < length cs. free (cs ! j) \<longrightarrow> priority_level (cs ! i) \<le> priority_level (cs ! j)))"

lemma get_next_eq:
  assumes "sd_consumers d \<noteq> []" "ordered_consumers d \<noteq> []"
  shows "get_next_available_consumer w d =
    (case next_index (map (w_consumers w) (ordered_consumers d)) (sd_round_robin_index d mod length (ordered_consumers d)) of
       None \<Rightarrow> None
     | Some None \<Rightarrow> Some (None, d)
     | Some (Some i) \<Rightarrow> Some (Some (ordered_consumers d ! i),
         d\<lparr>sd_round_robin_index := (i + 1) mod length (ordered_consumers d)\<rparr>))"
  using assms by (simp add: get_next_available_consumer_def next_index_def Let_def split: option.split)

lemma higher_priority_found:
  assumes sorted: "by_priority cs" and cur: "cur < length cs"
    and found: "find_available_consumer_from_higher_priority cs cur (priority_level (cs ! cur)) = Some i"
  shows "best_index cs (Some i)"
proof -
  have take_sorted: "by_priority (take cur cs)" using sorted by (simp add: by_priority_def sorted_wrt_take flip: take_map)
  have i: "i < cur" "free (cs ! i)" "\<forall>k < i. \<not> free (cs ! k)"
    using found higher_priority_loop_spec [OF take_sorted, of "priority_level (cs ! cur)" 0] cur
    by (auto simp: find_available_consumer_from_higher_priority_def)
  have "priority_level (cs ! i) \<le> priority_level (cs ! j)" if "j < length cs" "free (cs ! j)" for j
    by (rule by_priority_nth [OF sorted _ that(1)]) (use i(3) that(2) in \<open>meson not_le\<close>)
  then show ?thesis using i cur by (simp add: best_index_def)
qed

lemma higher_priority_none:
  assumes sorted: "by_priority cs" and j: "j < length cs" "priority_level (cs ! j) < priority_level (cs ! cur)"
    and none: "find_available_consumer_from_higher_priority cs cur (priority_level (cs ! cur)) = None"
    and cur: "cur < length cs"
  shows "\<not> free (cs ! j)"
proof -
  have take_sorted: "by_priority (take cur cs)" using sorted by (simp add: by_priority_def sorted_wrt_take flip: take_map)
  have "j < cur" using by_priority_nth [OF sorted, of cur j] j by (meson leD leI)
  then show ?thesis
    using none higher_priority_loop_spec [OF take_sorted, of "priority_level (cs ! cur)" 0] j
    by (auto simp: find_available_consumer_from_higher_priority_def)
qed

lemma next_index_best:
  assumes sorted: "by_priority cs" and cur: "cur < length cs" and nonneg: "\<forall>c \<in> set cs. 0 \<le> priority_level c"
  shows "\<exists>res. next_index cs cur = Some res \<and> best_index cs res"
proof (cases "\<exists>i. priority_level (cs ! cur) \<noteq> 0 \<and>
    find_available_consumer_from_higher_priority cs cur (priority_level (cs ! cur)) = Some i")
  case True
  then show ?thesis using higher_priority_found [OF sorted cur] by (auto simp: next_index_def)
next
  case False
  then have none: "priority_level (cs ! cur) = 0 \<or>
      find_available_consumer_from_higher_priority cs cur (priority_level (cs ! cur)) = None" by auto
  have low: "\<not> free (cs ! j)" if "j < length cs" "priority_level (cs ! j) < priority_level (cs ! cur)" for j
    using none
  proof
    assume "priority_level (cs ! cur) = 0"
    with bspec [OF nonneg nth_mem [OF that(1)]] that(2) show ?thesis by linarith
  qed (rule higher_priority_none [OF sorted that _ cur])
  obtain res where res: "find_available_consumer_from_same_or_lower_priority cs cur = Some res"
    and spec: "case res of
       None \<Rightarrow> \<forall>j < length cs. priority_level (cs ! cur) \<le> priority_level (cs ! j) \<longrightarrow> \<not> free (cs ! j)
     | Some i \<Rightarrow> i < length cs \<and> free (cs ! i) \<and> priority_level (cs ! cur) \<le> priority_level (cs ! i) \<and>
         (\<forall>j < length cs. free (cs ! j) \<and> priority_level (cs ! cur) \<le> priority_level (cs ! j) \<longrightarrow>
            priority_level (cs ! i) \<le> priority_level (cs ! j))"
    using same_or_lower_spec [OF sorted cur] by blast
  have free_high: "priority_level (cs ! cur) \<le> priority_level (cs ! j)" if "j < length cs" "free (cs ! j)" for j
    using low [OF that(1)] that(2) by linarith
  have "best_index cs res"
    using spec free_high by (cases res) (fastforce simp: best_index_def)+
  moreover have "next_index cs cur = Some res" using none res by (auto simp: next_index_def)
  ultimately show ?thesis by blast
qed

lemma get_next_best:
  assumes wf: "shared_wf w d"
  shows "\<exists>res i. get_next_available_consumer w d = Some (res, d\<lparr>sd_round_robin_index := i\<rparr>) \<and>
    (case res of
       None \<Rightarrow> \<forall>r \<in> members d. available_permits (w_consumers w r) \<le> 0
     | Some r \<Rightarrow> r \<in> members d \<and> 0 < available_permits (w_consumers w r) \<and>
         (\<forall>r' \<in> members d. 0 < available_permits (w_consumers w r') \<longrightarrow>
            priority_level (w_consumers w r) \<le> priority_level (w_consumers w r')))"
proof (cases "sd_consumers d = []")
  case True
  then have "get_next_available_consumer w d = Some (None, d\<lparr>sd_round_robin_index := sd_round_robin_index d\<rparr>)"
    by (simp add: get_next_available_consumer_def)
  with True show ?thesis unfolding members_def
    by (intro exI [of _ None] exI [of _ "sd_round_robin_index d"]) simp
next
  case False
  let ?refs = "ordered_consumers d" and ?cs = "map (w_consumers w) (ordered_consumers d)"
  let ?cur = "sd_round_robin_index d mod length (ordered_consumers d)"
  have ne: "?refs \<noteq> []" using False shared_wf_empty_iff [OF wf] by simp
  have mem: "set ?refs = members d" by (rule shared_wf_members [OF wf])
  have "by_priority ?cs" "\<forall>c \<in> set ?cs. 0 \<le> priority_level c"
    using wf mem by (auto simp: shared_wf_def members_def)
  then obtain res where res: "next_index ?cs ?cur = Some res" and best: "best_index ?cs res"
    using next_index_best [of ?cs ?cur] ne by auto
  show ?thesis
  proof (cases res)
    case None
    have "\<forall>r \<in> set ?refs. available_permits (w_consumers w r) \<le> 0"
      using best None by (auto simp: best_index_def in_set_conv_nth not_less)
    moreover have "get_next_available_consumer w d = Some (None, d\<lparr>sd_round_robin_index := sd_round_robin_index d\<rparr>)"
      using res None by (simp add: get_next_eq [OF False ne])
    ultimately show ?thesis unfolding mem
      by (intro exI [of _ None] exI [of _ "sd_round_robin_index d"]) simp
  next
    case (Some i)
    have "?refs ! i \<in> members d" "0 < available_permits (w_consumers w (?refs ! i))"
      using best Some nth_mem [of i ?refs] mem by (auto simp: best_index_def)
    moreover have "\<forall>r' \<in> set ?refs. 0 < available_permits (w_consumers w r') \<longrightarrow>
        priority_level (w_consumers w (?refs ! i)) \<le> priority_level (w_consumers w r')"
      using best Some by (auto simp: best_index_def in_set_conv_nth)
    moreover have "get_next_available_consumer w d =
        Some (Some (?refs ! i), d\<lparr>sd_round_robin_index := (i + 1) mod length ?refs\<rparr>)"
      using res Some by (simp add: get_next_eq [OF False ne])
    ultimately show ?thesis unfolding mem by auto
  qed
qed

text \<open>C35: In a dispatcher with its consumers in priority order, choosing the next consumer always
  terminates. It fails only if no consumer has a permit left, and otherwise picks a consumer with
  permits such that no consumer with permits has a better (numerically smaller) priority level.\<close>

theorem shared_next_consumer_best:
  assumes wf: "shared_wf w d"
  shows "\<exists>res i. get_next_available_consumer w d = Some (res, d\<lparr>sd_round_robin_index := i\<rparr>) \<and>
    (case res of
       None \<Rightarrow> \<forall>r \<in> members d. available_permits (w_consumers w r) \<le> 0
     | Some r \<Rightarrow> r \<in> members d \<and> 0 < available_permits (w_consumers w r) \<and>
         (\<forall>r' \<in> members d. 0 < available_permits (w_consumers w r') \<longrightarrow>
            priority_level (w_consumers w r) \<le> priority_level (w_consumers w r')))"
  by (rule get_next_best [OF wf])

text \<open>A dispatcher with two consumers, the second of which has permits.\<close>

definition demo_shared :: SharedDispatcher where
  "demo_shared = snd (shared_add_consumer demo_world 2 (snd (shared_add_consumer demo_world 1 SharedDispatcher_new)))"

definition demo_permits :: "ref_chan world" where
  "demo_permits = upd_consumer 2 (add_permits 5) demo_world"

lemma demo_shared_eq:
  "demo_shared = SharedDispatcher_new\<lparr>sd_consumers := [(1, 1), (2, 2)], sd_consumer_order := [1, 2]\<rparr>"
  by (simp add: demo_shared_def shared_add_consumer_def SharedDispatcher_new_def Let_def demo_world_def
      Consumer_new_with_options_def btm_contains_def insert_consumer_order_def btm_get_Cons)

lemma demo_permits_consumers:
  "w_consumers demo_permits r = (let c = Consumer_new_with_options (of_nat r) ''c'' ''conn'' r 0 None in
     if r = 2 then c\<lparr>available_permits := 5\<rparr> else c)"
  by (simp add: demo_permits_def demo_world_def add_permits_def Consumer_new_with_options_def u32_as_i32_small wrap_i32_id)

lemma demo_shared_wf: "shared_wf demo_permits demo_shared"
  by (simp add: shared_wf_def demo_shared_eq demo_permits_consumers Consumer_new_with_options_def Let_def btm_ok_Cons
      ordered_consumers_def btm_get_Cons List.map_filter_simps by_priority_def)

theorem shared_next_consumer_best_witness:
  "\<exists>i. get_next_available_consumer demo_permits demo_shared = Some (Some 2, demo_shared\<lparr>sd_round_robin_index := i\<rparr>)"
proof -
  have m: "members demo_shared = {1, 2}" by (simp add: members_def demo_shared_eq)
  have p: "available_permits (w_consumers demo_permits (Suc 0)) = 0" "available_permits (w_consumers demo_permits 2) = 5"
    by (simp_all add: demo_permits_consumers Let_def Consumer_new_with_options_def)
  from shared_next_consumer_best [OF demo_shared_wf] obtain res i where
    run: "get_next_available_consumer demo_permits demo_shared = Some (res, demo_shared\<lparr>sd_round_robin_index := i\<rparr>)"
    and "case res of None \<Rightarrow> False | Some r \<Rightarrow> r = 2" by (auto simp: m p split: option.splits)
  then have "res = Some 2" by (simp split: option.splits)
  with run show ?thesis by blast
qed

end
