(* ===== verification/PL_SharedDispatch.thy ===== *)
theory PL_SharedDispatch
  imports PL_Shared
begin

text \<open>
  What the Shared dispatcher guarantees. Under the laws of the storage (locale \<open>storage_entries\<close>) a
  dispatch returns; it keeps every message with at most one owner (a consumer that has not acknowledged
  it, or the redelivery queue) and the aggregate permit count in step with the consumers; and it goes on
  as long as there is something to send and a consumer to send it to. The theory ends with the
  interleaving of concurrent dispatch triggers.
\<close>

section \<open>The next message to dispatch\<close>

definition todo :: "(MessageId \<Rightarrow> bool) \<Rightarrow> (MessageId \<Rightarrow> bool) \<Rightarrow> StoredMessage list \<Rightarrow> StoredMessage list" where
  "todo fin pending l = filter (\<lambda>m. \<not> fin (sm_message_id m) \<and> \<not> pending (sm_message_id m)) l"

lemma todo_simps [simp]:
  "todo A P [] = []"
  "todo A P (m # l) = (if A (sm_message_id m) \<or> P (sm_message_id m) then todo A P l else m # todo A P l)"
  "todo A P (l @ l') = todo A P l @ todo A P l'"
  by (simp_all add: todo_def)

lemma todo_done: "\<forall>m \<in> set l. A (sm_message_id m) \<Longrightarrow> todo A P l = []"
  by (simp add: todo_def filter_empty_conv)

context storage_entries
begin

text \<open>From any read position the search returns and offers the first entry that is neither
  acknowledged nor held by a consumer.\<close>

lemma next_dispatchable:
  assumes "inv s"
  shows "\<exists>q c. next_dispatchable_message st s topic sub P rp = Some (Inr c, q) \<and>
    length (to_read (log s topic) q) \<le> length (to_read (log s topic) rp) \<and>
    todo (ackd s topic sub) P (to_read (log s topic) q) = todo (ackd s topic sub) P (to_read (log s topic) rp) \<and>
    (case todo (ackd s topic sub) P (to_read (log s topic) rp) of
       [] \<Rightarrow> c = None
     | m # ms \<Rightarrow> \<exists>np. c = Some (candidate_of m np) \<and> todo (ackd s topic sub) P (log_from (log s topic) np) = ms \<and>
         length (log_from (log s topic) np) < length (to_read (log s topic) rp))"
proof (induction "length (to_read (log s topic) rp)" arbitrary: rp rule: less_induct)
  case less
  let ?l = "log s topic" and ?A = "ackd s topic sub"
  from next_candidate [OF assms, of topic sub rp] obtain q c pre where
    run: "next_unacked_candidate st s topic sub rp = Some (Inr c, q)" and
    pre: "to_read ?l rp = pre @ to_read ?l q" "\<forall>m \<in> set pre. ?A (sm_message_id m)" and
    c: "case c of
       None \<Rightarrow> \<forall>m \<in> set (to_read ?l q). ?A (sm_message_id m)
     | Some c \<Rightarrow> \<exists>m np ms. to_read ?l q = m # ms \<and> c = candidate_of m np \<and> \<not> ?A (sm_message_id m) \<and>
         log_from ?l np = ms" by blast
  have eq: "todo ?A P (to_read ?l rp) = todo ?A P (to_read ?l q)" by (simp add: pre todo_done [OF pre(2)])
  show ?case
  proof (cases c)
    case None
    with c have "todo ?A P (to_read ?l q) = []" by (simp add: todo_done)
    with run None eq pre(1) show ?thesis by (subst next_dispatchable_message.simps) simp
  next
    case (Some cand)
    with c obtain m np where m: "to_read ?l q = m # log_from ?l np" "cand = candidate_of m np" "\<not> ?A (sm_message_id m)"
      by auto
    show ?thesis
    proof (cases "P (sm_message_id m)")
      case True
      have shorter: "length (to_read ?l (Some np)) < length (to_read ?l rp)" by (simp add: pre(1) m(1))
      have "next_dispatchable_message st s topic sub P rp = next_dispatchable_message st s topic sub P (Some np)"
        using run Some m True
        by (subst next_dispatchable_message.simps) (simp add: candidate_of_def commit_read_position_def)
      moreover have "todo ?A P (to_read ?l rp) = todo ?A P (to_read ?l (Some np))" using eq m True by simp
      ultimately show ?thesis using less [OF shorter] shorter
        by (cases "todo ?A P (to_read ?l (Some np))") fastforce+
    next
      case False
      with run Some m eq pre(1) show ?thesis
        by (subst next_dispatchable_message.simps) (auto simp: candidate_of_def)
    qed
  qed
qed

end

section \<open>Invariant\<close>

text \<open>The messages a consumer holds, the queued messages, and who may own a message.\<close>

definition held :: "'ch world \<Rightarrow> cref \<Rightarrow> MessageId set" where
  "held w r = fst ` set (pendings w r)"

definition queued :: "SharedDispatcher \<Rightarrow> MessageId set" where
  "queued d = fst ` set (rd_entries (sd_redelivery_controller d))"

definition owned :: "'ch world \<Rightarrow> SharedDispatcher \<Rightarrow> bool" where
  "owned w d \<longleftrightarrow> rd_inv (sd_redelivery_controller d) \<and> \<not> rd_block_hashes (sd_redelivery_controller d) \<and>
     (\<forall>r \<in> members d. btm_ok (pendings w r) \<and> held w r \<inter> queued d = {}) \<and>
     (\<forall>r \<in> members d. \<forall>r' \<in> members d. r \<noteq> r' \<longrightarrow> held w r \<inter> held w r' = {})"

text \<open>The aggregate count is the sum of the consumers' permits, modulo the width of the counter.\<close>

definition permits_agree :: "'ch world \<Rightarrow> SharedDispatcher \<Rightarrow> bool" where
  "permits_agree w d \<longleftrightarrow>
     sd_total_available_permits d = wrap_i32 (\<Sum>r \<in> members d. available_permits (w_consumers w r))"

definition shared_inv :: "'ch world \<Rightarrow> SharedDispatcher \<Rightarrow> bool" where
  "shared_inv w d \<longleftrightarrow> shared_wf w d \<and> owned w d \<and> permits_agree w d"

lemma finite_members [simp]: "finite (members d)"
  by (simp add: members_def)

lemma members_cong: "sd_consumers d' = sd_consumers d \<Longrightarrow> members d' = members d"
  by (simp add: members_def)

lemma shared_wf_frame:
  assumes "shared_wf w d" "frame_consumers w w'" "sd_consumers d' = sd_consumers d" "sd_consumer_order d' = sd_consumer_order d"
  shows "shared_wf w' d'"
proof -
  have "map priority_level (map (w_consumers w') (ordered_consumers d)) =
      map priority_level (map (w_consumers w) (ordered_consumers d))"
    unfolding map_map using assms(2) by (simp add: frame_consumers_def same_identity_def)
  moreover have "ordered_consumers d' = ordered_consumers d" by (simp add: ordered_consumers_def assms(3,4))
  ultimately have "by_priority (map (w_consumers w') (ordered_consumers d'))"
    using assms(1) unfolding shared_wf_def by_priority_def by metis
  then show ?thesis using assms by (auto simp: shared_wf_def frame_consumers_def same_identity_def)
qed

lemma permits_agree_shift:
  assumes "permits_agree w d" "members d' = members d" "r \<in> members d"
    and "\<And>r'. r' \<noteq> r \<Longrightarrow> available_permits (w_consumers w' r') = available_permits (w_consumers w r')"
    and "available_permits (w_consumers w' r) = wrap_i32 (available_permits (w_consumers w r) + k)"
    and "sd_total_available_permits d' = wrap_i32 (sd_total_available_permits d + k)"
  shows "permits_agree w' d'"
proof -
  let ?p = "\<lambda>w r. available_permits (w_consumers w r)"
  have "(\<Sum>x \<in> members d - {r}. ?p w' x) = (\<Sum>x \<in> members d - {r}. ?p w x)"
    using assms(4) by (intro sum.cong) auto
  then have "sum (?p w') (members d) = wrap_i32 (?p w r + k) + (\<Sum>x \<in> members d - {r}. ?p w x)"
    by (simp add: sum.remove [OF finite_members assms(3)] assms(5))
  moreover have "sum (?p w) (members d) + k = ?p w r + k + (\<Sum>x \<in> members d - {r}. ?p w x)"
    by (simp add: sum.remove [OF finite_members assms(3)])
  ultimately show ?thesis using assms(1,2,6) by (simp add: permits_agree_def add_ac)
qed

section \<open>Joining\<close>

lemma ref_of_insert:
  "btm_ok (sd_consumers d) \<Longrightarrow> sd_consumers d' = btm_insert cid r (sd_consumers d) \<Longrightarrow>
   ref_of d' k = (if k = cid then r else ref_of d k)"
  by (simp add: ref_of_def)

lemma ref_of_remove: "sd_consumers d' = btm_remove cid (sd_consumers d) \<Longrightarrow> k \<noteq> cid \<Longrightarrow> ref_of d' k = ref_of d k"
  by (simp add: ref_of_def)

text \<open>Well-formedness in terms of the order alone.\<close>

lemma shared_wf_iff:
  "shared_wf w d \<longleftrightarrow> btm_ok (sd_consumers d) \<and> distinct (sd_consumer_order d) \<and>
     set (sd_consumer_order d) = fst ` set (sd_consumers d) \<and>
     (\<forall>(cid, r) \<in> set (sd_consumers d). consumer_id (w_consumers w r) = cid \<and> 0 \<le> priority_level (w_consumers w r)) \<and>
     sorted (map (\<lambda>k. priority_level (w_consumers w (ref_of d k))) (sd_consumer_order d))"
proof -
  have "set (sd_consumer_order d) = fst ` set (sd_consumers d) \<Longrightarrow>
      map priority_level (map (w_consumers w) (ordered_consumers d)) =
      map (\<lambda>k. priority_level (w_consumers w (ref_of d k))) (sd_consumer_order d)"
    by (simp add: ordered_consumers_def ordered_consumers_map comp_def)
  then show ?thesis by (auto simp: shared_wf_def by_priority_def)
qed

text \<open>Inserting before the first larger element keeps a list sorted.\<close>

lemma sorted_insert_at:
  fixes f :: "'a \<Rightarrow> int"
  assumes "sorted (map f xs)"
    and i: "i = (case index_where (\<lambda>y. f x < f y) xs 0 of Some i \<Rightarrow> i | None \<Rightarrow> length xs)"
  shows "sorted (map f (take i xs @ x # drop i xs))"
proof -
  have low: "f y \<le> f x" if "y \<in> set (take i xs)" for y
  proof (cases "index_where (\<lambda>y. f x < f y) xs 0")
    case None
    with that show ?thesis by (auto simp: index_where_None_iff not_less dest: in_set_takeD)
  next
    case (Some j)
    with that i show ?thesis using index_where_Some_iff [of "\<lambda>y. f x < f y" xs 0 j] by (auto simp: in_set_conv_nth not_less)
  qed
  have high: "f x \<le> f y" if y: "y \<in> set (drop i xs)" for y
  proof (cases "index_where (\<lambda>y. f x < f y) xs 0")
    case None
    with y i show ?thesis by simp
  next
    case (Some j)
    then have "i < length xs" "f x < f (xs ! i)" using i index_where_Some_iff [of "\<lambda>y. f x < f y" xs 0 j] by auto
    moreover from y obtain j' where "j' < length (drop i xs)" "y = drop i xs ! j'" unfolding in_set_conv_nth by blast
    then have "i + j' < length xs" "y = xs ! (i + j')" by auto
    moreover have "f (xs ! i) \<le> f (xs ! (i + j'))"
      using sorted_nth_mono [OF assms(1), of i "i + j'"] \<open>i + j' < length xs\<close> by simp
    ultimately show ?thesis using \<open>y = xs ! (i + j')\<close> by simp
  qed
  have "sorted (map f (take i xs))" "sorted (map f (drop i xs))"
    using assms(1) by (simp_all add: sorted_wrt_take sorted_wrt_drop flip: take_map drop_map)
  with low high show ?thesis by (fastforce simp: sorted_append)
qed

lemma shared_wf_add:
  assumes wf: "shared_wf w d" and prio: "0 \<le> priority_level (w_consumers w r)"
    and run: "shared_add_consumer w r d = (Inr (), d')"
  shows "shared_wf w d'" "members d' = insert r (members d)" "r \<notin> members d"
    "sd_redelivery_controller d' = sd_redelivery_controller d" "sd_total_available_permits d' = sd_total_available_permits d"
proof -
  let ?cid = "consumer_id (w_consumers w r)" and ?p = "priority_level (w_consumers w r)"
  define cs where "cs = btm_insert ?cid r (sd_consumers d)"
  define larger where "larger k = (case btm_get k cs of Some r' \<Rightarrow> ?p < priority_level (w_consumers w r') | None \<Rightarrow> False)" for k
  define i where "i = (case index_where larger (sd_consumer_order d) 0 of Some i \<Rightarrow> i | None \<Rightarrow> length (sd_consumer_order d))"
  have new: "?cid \<notin> fst ` set (sd_consumers d)"
    using run by (auto simp: shared_add_consumer_def Let_def btm_contains_def btm_get_None_iff split: if_splits)
  then have "\<not> btm_contains ?cid (sd_consumers d)" by (simp add: btm_contains_def btm_get_None_iff)
  with run have "d' = insert_consumer_order w ?cid ?p (d\<lparr>sd_consumers := cs\<rparr>)"
    by (simp add: shared_add_consumer_def Let_def cs_def)
  then have d': "d' = d\<lparr>sd_consumers := cs, sd_consumer_order := take i (sd_consumer_order d) @ ?cid # drop i (sd_consumer_order d)\<rparr>"
    unfolding insert_consumer_order_def Let_def i_def larger_def by (simp split: option.split)
  have ok: "btm_ok (sd_consumers d)" and keys: "set (sd_consumer_order d) = fst ` set (sd_consumers d)"
    and sorted: "sorted (map (\<lambda>k. priority_level (w_consumers w (ref_of d k))) (sd_consumer_order d))"
    and ids: "\<forall>(cid, r) \<in> set (sd_consumers d). consumer_id (w_consumers w r) = cid \<and> 0 \<le> priority_level (w_consumers w r)"
    and dist: "distinct (sd_consumer_order d)" using wf by (simp_all add: shared_wf_iff)
  have notin: "?cid \<notin> set (sd_consumer_order d)" using keys new by simp
  let ?f = "\<lambda>k. priority_level (w_consumers w (ref_of d' k))"
  have ref: "ref_of d' k = (if k = ?cid then r else ref_of d k)" for k
    by (rule ref_of_insert [OF ok]) (simp add: d' cs_def)
  have "larger k \<longleftrightarrow> ?f ?cid < ?f k" if "k \<in> set (sd_consumer_order d)" for k
  proof -
    from that keys new have "btm_get k (sd_consumers d) \<noteq> None" "k \<noteq> ?cid" unfolding btm_get_None_iff by metis+
    then show ?thesis using ok ref by (auto simp: larger_def cs_def ref_of_def)
  qed
  then have "index_where larger (sd_consumer_order d) 0 = index_where (\<lambda>k. ?f ?cid < ?f k) (sd_consumer_order d) 0"
    by (rule index_where_cong)
  then have at: "i = (case index_where (\<lambda>k. ?f ?cid < ?f k) (sd_consumer_order d) 0 of Some i \<Rightarrow> i | None \<Rightarrow> length (sd_consumer_order d))"
    unfolding i_def by (rule arg_cong)
  have order: "sd_consumer_order d' = take i (sd_consumer_order d) @ ?cid # drop i (sd_consumer_order d)" by (simp add: d')
  have "map ?f (sd_consumer_order d) = map (\<lambda>k. priority_level (w_consumers w (ref_of d k))) (sd_consumer_order d)"
    using notin ref by (intro map_cong) auto
  with sorted have "sorted (map ?f (sd_consumer_order d))" by metis
  then have "sorted (map ?f (sd_consumer_order d'))"
    unfolding order by (rule sorted_insert_at [OF _ at])
  moreover have "set (sd_consumer_order d') = insert ?cid (set (sd_consumer_order d))"
    using set_append [of "take i (sd_consumer_order d)" "drop i (sd_consumer_order d)"] by (simp add: d')
  moreover have "distinct (sd_consumer_order d')"
    using dist new keys distinct_append [of "take i (sd_consumer_order d)" "drop i (sd_consumer_order d)"]
    by (auto simp: d' dest: in_set_takeD in_set_dropD)
  moreover have set_cs: "set cs = insert (?cid, r) (set (sd_consumers d))"
    using ok new by (simp add: cs_def set_btm_insert_new)
  ultimately show "shared_wf w d'" unfolding shared_wf_iff using ok keys ids prio by (auto simp: d' cs_def btm_ok_insert)
  show "members d' = insert r (members d)" by (simp add: members_def d' set_cs)
  show "r \<notin> members d" using ids new by (force simp: members_def)
  show "sd_redelivery_controller d' = sd_redelivery_controller d" "sd_total_available_permits d' = sd_total_available_permits d"
    by (simp_all add: d')
qed

section \<open>Leaving\<close>

lemma index_where_remove:
  assumes "distinct xs" "index_where (\<lambda>y. y = x) xs 0 = Some i"
  shows "take i xs @ drop (Suc i) xs = filter (\<lambda>y. y \<noteq> x) xs"
proof -
  have i: "i < length xs" "xs ! i = x" using assms(2) index_where_Some_iff [of "\<lambda>y. y = x" xs 0 i] by auto
  obtain ys zs where split: "take i xs = ys" "drop (Suc i) xs = zs" by blast
  have xs: "xs = ys @ x # zs" using id_take_nth_drop [OF i(1)] i(2) split by simp
  with assms(1) have "x \<notin> set ys" "x \<notin> set zs" by auto
  then have "filter (\<lambda>y. y \<noteq> x) ys = ys" "filter (\<lambda>y. y \<noteq> x) zs = zs" by (auto intro!: filter_True)
  then show ?thesis unfolding split by (simp add: xs)
qed

lemma remove_consumer_order_eq:
  assumes "distinct (sd_consumer_order d)"
  shows "\<exists>i. remove_consumer_order cid d =
    d\<lparr>sd_consumer_order := filter (\<lambda>y. y \<noteq> cid) (sd_consumer_order d), sd_round_robin_index := i\<rparr>"
proof (cases "index_where (\<lambda>k. k = cid) (sd_consumer_order d) 0")
  case None
  then have "filter (\<lambda>y. y \<noteq> cid) (sd_consumer_order d) = sd_consumer_order d"
    by (auto simp: index_where_None_iff intro!: filter_True)
  then have "remove_consumer_order cid d =
      d\<lparr>sd_consumer_order := filter (\<lambda>y. y \<noteq> cid) (sd_consumer_order d), sd_round_robin_index := sd_round_robin_index d\<rparr>"
    by (simp add: remove_consumer_order_def None)
  then show ?thesis by blast
next
  case (Some i)
  show ?thesis unfolding remove_consumer_order_def Some option.case Let_def index_where_remove [OF assms Some] by blast
qed

text \<open>What removing a consumer does to the membership, whichever way it is removed.\<close>

lemma shared_wf_remove:
  assumes wf: "shared_wf w d" and r: "btm_get cid (sd_consumers d) = Some r"
    and d': "sd_consumers d' = btm_remove cid (sd_consumers d)"
      "sd_consumer_order d' = filter (\<lambda>y. y \<noteq> cid) (sd_consumer_order d)"
  shows "shared_wf w d'" "members d' = members d - {r}" "r \<in> members d"
proof -
  have ok: "btm_ok (sd_consumers d)" and keys: "set (sd_consumer_order d) = fst ` set (sd_consumers d)"
    and sorted: "sorted (map (\<lambda>k. priority_level (w_consumers w (ref_of d k))) (sd_consumer_order d))"
    and ids: "\<forall>(cid, r) \<in> set (sd_consumers d). consumer_id (w_consumers w r) = cid \<and> 0 \<le> priority_level (w_consumers w r)"
    and dist: "distinct (sd_consumer_order d)" using wf by (simp_all add: shared_wf_iff)
  have "map (\<lambda>k. priority_level (w_consumers w (ref_of d' k))) (sd_consumer_order d') =
      map (\<lambda>k. priority_level (w_consumers w (ref_of d k))) (filter (\<lambda>y. y \<noteq> cid) (sd_consumer_order d))"
    unfolding d'(2) by (intro map_cong) (simp_all add: ref_of_remove [OF d'(1)])
  moreover have "sorted (map (\<lambda>k. priority_level (w_consumers w (ref_of d k))) (filter (\<lambda>y. y \<noteq> cid) (sd_consumer_order d)))"
    using sorted by (rule sorted_filter)
  ultimately have "sorted (map (\<lambda>k. priority_level (w_consumers w (ref_of d' k))) (sd_consumer_order d'))" by metis
  then show "shared_wf w d'" unfolding shared_wf_iff
    using ok keys ids dist by (auto simp: d' btm_ok_remove set_btm_remove)
  have rin: "(cid, r) \<in> set (sd_consumers d)" using r ok by (simp add: btm_get_Some_iff)
  then show "r \<in> members d" by (force simp: members_def)
  have "fst p = cid \<longleftrightarrow> snd p = r" if "p \<in> set (sd_consumers d)" for p
  proof -
    have "consumer_id (w_consumers w (snd q)) = fst q" if "q \<in> set (sd_consumers d)" for q using that ids by auto
    from this [OF that] this [OF rin] have "snd p = r \<Longrightarrow> fst p = cid" by simp
    moreover have "fst p = cid \<Longrightarrow> snd p = r" using that btm_get_Some_iff [OF ok, of "fst p" "snd p"] r by (cases p) auto
    ultimately show ?thesis by blast
  qed
  then show "members d' = members d - {r}" by (auto simp: members_def d' set_btm_remove)
qed

section \<open>One delivery\<close>

lemma is_message_pending_iff:
  "is_message_pending w refs mid \<longleftrightarrow> (\<exists>r \<in> set refs. mid \<in> held w r)"
  by (auto simp: is_message_pending_def list_ex_iff has_pending_ack_iff held_def btm_get_None_iff)

lemma rd_entries_release [simp]: "rd_entries (release_in_flight_hash mid c) = rd_entries c"
  by (simp add: release_in_flight_hash_def split: option.splits)

lemma rd_block_release [simp]: "rd_block_hashes (release_in_flight_hash mid c) = rd_block_hashes c"
  by (simp add: release_in_flight_hash_def split: option.splits)

lemma rd_add_keys: "fst ` set (rd_entries (rd_add e c)) = insert (re_message_id e) (fst ` set (rd_entries c))"
  by (simp add: rd_add_def Let_def split: option.split)

lemma rd_block_add [simp]: "rd_block_hashes (rd_add e c) = rd_block_hashes c"
  by (simp add: rd_add_def Let_def split: option.split)

lemma rd_len_add:
  assumes "rd_inv c"
  shows "rd_len (rd_add e c) = (if re_message_id e \<in> fst ` set (rd_entries c) then rd_len c else Suc (rd_len c))"
proof -
  have "btm_ok (rd_entries c)" using assms by (simp add: rd_inv_def rd_wf_def)
  then show ?thesis using btm_get_None_iff [of "re_message_id e" "rd_entries c"]
    by (auto simp: rd_add_def rd_len_def Let_def length_btm_insert split: option.split)
qed

lemma no_block_in_flight: "rd_inv c \<Longrightarrow> \<not> rd_block_hashes c \<Longrightarrow> rd_in_flight_hashes c = []"
  by (simp add: rd_inv_def)

lemma rd_restore_no_block: "rd_inv c \<Longrightarrow> \<not> rd_block_hashes c \<Longrightarrow> rd_restore e c = rd_add e c"
  by (simp add: rd_restore_def release_in_flight_hash_def no_block_in_flight)

lemma rd_inv_add_no_block: "rd_inv c \<Longrightarrow> \<not> rd_block_hashes c \<Longrightarrow> rd_inv (rd_add e c)"
  by (rule rd_inv_add) (simp_all add: no_block_in_flight)

lemma rd_pop_facts:
  assumes "rd_inv c" "rd_pop_next c = (Some e, c')"
  shows "rd_inv c'" "rd_block_hashes c' = rd_block_hashes c" "rd_len c = Suc (rd_len c')"
    "fst ` set (rd_entries c) = insert (re_message_id e) (fst ` set (rd_entries c'))"
    "re_message_id e \<notin> fst ` set (rd_entries c')"
proof -
  obtain mid rest where c: "rd_entries c = (mid, e) # rest" "c' = decrement_hash (re_sticky_key_hash e) (c\<lparr>rd_entries := rest\<rparr>)"
    using assms(2) by (auto simp: rd_pop_next_def split: list.splits)
  have mid: "re_message_id e = mid" "btm_ok ((mid, e) # rest)" using assms(1) c(1) by (auto simp: rd_inv_def rd_wf_def)
  show "rd_inv c'" using rd_inv_pop [OF assms(1)] assms(2) by simp
  show "rd_block_hashes c' = rd_block_hashes c" "rd_len c = Suc (rd_len c')"
    "fst ` set (rd_entries c) = insert (re_message_id e) (fst ` set (rd_entries c'))"
    by (simp_all add: c mid rd_len_def)
  show "re_message_id e \<notin> fst ` set (rd_entries c')" using mid by (auto simp: c(2) btm_ok_Cons)
qed

lemma rd_pop_None: "rd_pop_next c = (None, c') \<Longrightarrow> rd_entries c = [] \<and> c' = c"
  by (auto simp: rd_pop_next_def split: list.splits)

lemma owned_enqueue:
  assumes "owned w d" "members d' = members d" "sd_redelivery_controller d' = rd_add e (sd_redelivery_controller d)"
    and "\<And>r. r \<in> members d \<Longrightarrow> pendings w' r = pendings w r" "\<And>r. r \<in> members d \<Longrightarrow> re_message_id e \<notin> held w r"
  shows "owned w' d'" "queued d' = insert (re_message_id e) (queued d)"
  using assms by (auto simp: owned_def queued_def held_def rd_add_keys rd_inv_add_no_block)

lemma owned_cong:
  assumes "owned w d" "members d' = members d" "sd_redelivery_controller d' = sd_redelivery_controller d"
    and "\<And>r. r \<in> members d \<Longrightarrow> pendings w' r = pendings w r"
  shows "owned w' d'"
  using assms by (auto simp: owned_def queued_def held_def)

text \<open>A message without owner is sent to a consumer.\<close>

lemma owned_send:
  assumes "owned w d" "members d' = members d" "sd_redelivery_controller d' = sd_redelivery_controller d"
    and "mid \<notin> queued d" "\<And>r. r \<in> members d \<Longrightarrow> mid \<notin> held w r"
    and "pendings w' r = btm_insert mid pa (pendings w r)" "\<And>r'. r' \<noteq> r \<Longrightarrow> pendings w' r' = pendings w r'"
  shows "owned w' d'"
proof -
  have held: "held w' x = (if x = r then insert mid (held w r) else held w x)" for x
    using assms(6,7) by (simp add: held_def)
  have "btm_ok (pendings w' x)" if "x \<in> members d" for x
    using that assms(1,6,7) by (cases "x = r") (auto simp: owned_def btm_ok_insert)
  moreover have "queued d' = queued d" by (simp add: queued_def assms(3))
  ultimately show ?thesis using assms(1-5) by (auto simp: owned_def held)
qed

lemma pendings_upd_consumer:
  "pendings (upd_consumer r f w) r' = (if r' = r then pam_inner (pending_acks (f (w_consumers w r))) else pendings w r')"
  by (simp add: pendings_def)

lemma pending_acks_ops [simp]:
  "pending_acks (add_permits n c) = pending_acks c"
  "pending_acks (record_message_dispatched k sz c) = pending_acks c"
  by (simp_all add: add_permits_def record_message_dispatched_def)

text \<open>A consumer that cannot take a message now.\<close>

definition blocked :: "'ch broker_ext \<Rightarrow> 'ch world \<Rightarrow> cref \<Rightarrow> bool" where
  "blocked bx w r \<longleftrightarrow> \<not> is_writable w r \<or> pam_closed (pending_acks (w_consumers w r)) \<or>
     ch_try_reserve bx (channel_of w r) = None"

lemma send_message_failed:
  assumes "send_message_with_sticky_hash bx r mid md pl rc h w = (False, w')"
  shows "blocked bx w r"
  using assms
  by (auto simp: send_message_with_sticky_hash_def blocked_def Let_def track_message_dispatched_with_sticky_hash_def
      add_pending_ack_def channel_of_def split: if_splits option.splits)

lemma blocked_cong:
  assumes "blocked bx w r" "w_connections w' = w_connections w"
    "c_connection (w_consumers w' r) = c_connection (w_consumers w r)"
    "pam_closed (pending_acks (w_consumers w' r)) = pam_closed (pending_acks (w_consumers w r))"
  shows "blocked bx w' r"
  using assms by (simp add: blocked_def is_writable_def channel_of_def)

lemma send_failed_world:
  assumes "send_message_with_sticky_hash bx r mid md pl rc h w = (False, w')" "btm_get mid (pendings w r) = None"
  shows "w_connections w' = w_connections w"
    "pam_closed (pending_acks (w_consumers w' r)) = pam_closed (pending_acks (w_consumers w r))"
    "pendings w' x = pendings w x"
  using assms(1)
  by (cases rule: send_message_cases; auto simp: pendings_def btm_remove_absent [OF assms(2) [unfolded pendings_def]])+

text \<open>The steps of a delivery: take the permits, send, and either record the delivery or give back.\<close>

definition charge :: "cref \<Rightarrow> u32 \<Rightarrow> 'ch world \<Rightarrow> 'ch world" where
  "charge r n w = upd_consumer r (\<lambda>_. snd (try_use_permits n (w_consumers w r))) w"

lemma charge_facts:
  "frame_consumers w (charge r n w)" "w_connections (charge r n w) = w_connections w"
  "pendings (charge r n w) x = pendings w x"
  "0 < available_permits (w_consumers w r) \<Longrightarrow>
     available_permits (w_consumers (charge r n w) x) =
       (if x = r then wrap_i32 (available_permits (w_consumers w r) - u32_as_i32 n) else available_permits (w_consumers w x))"
proof -
  show "frame_consumers w (charge r n w)" unfolding charge_def by (intro frame_upd_consumer same_identity_ops)
qed (auto simp: charge_def pendings_def try_use_permits_def)

lemma deliver_sent:
  assumes inv: "shared_inv w d" and r: "r \<in> members d" "0 < available_permits (w_consumers w r)"
    and new: "mid \<notin> queued d" "\<And>r. r \<in> members d \<Longrightarrow> mid \<notin> held w r"
    and send: "send_message bx r mid md pl rc (charge r n w) = (True, w2)"
    and d': "sd_consumers d' = sd_consumers d" "sd_consumer_order d' = sd_consumer_order d"
      "sd_redelivery_controller d' = sd_redelivery_controller d"
      "sd_total_available_permits d' = wrap_i32 (sd_total_available_permits d - u32_as_i32 n)"
  shows "shared_inv (upd_consumer r (record_message_dispatched n sz) w2) d'"
proof -
  let ?w3 = "upd_consumer r (record_message_dispatched n sz) w2"
  note send' = send [unfolded send_message_def]
  have mem: "members d' = members d" by (rule members_cong [OF d'(1)])
  have permits: "available_permits (w_consumers ?w3 x) =
      (if x = r then wrap_i32 (available_permits (w_consumers w r) - u32_as_i32 n) else available_permits (w_consumers w x))" for x
    using send_message_frame(2) [OF send', of x] charge_facts(4) [OF r(2), of n x] by (auto simp: record_message_dispatched_def)
  have frame: "frame_consumers w ?w3"
    by (rule frame_consumers_trans [OF frame_consumers_trans [OF charge_facts(1) send_message_frame(1) [OF send']]]) auto
  have "pendings ?w3 r = btm_insert mid \<lparr>pa_redelivery_count = rc, pa_sticky_key_hash = None\<rparr> (pendings w r)"
    using send_message_pendings(2) [OF send'] by (simp add: pendings_upd_consumer charge_facts(3)) (simp add: pendings_def)
  moreover have "pendings ?w3 x = pendings w x" if "x \<noteq> r" for x
    using send_message_pendings(1) [OF send' that] that by (simp add: pendings_upd_consumer charge_facts(3))
  ultimately have "owned ?w3 d'"
    using inv new mem d' by (intro owned_send [of w d d' mid]) (auto simp: shared_inv_def)
  moreover have "permits_agree ?w3 d'"
    by (rule permits_agree_shift [of w d d' r ?w3 "- u32_as_i32 n"])
       (use inv mem r d'(4) in \<open>simp_all add: shared_inv_def permits del: upd_consumer_sel\<close>)
  ultimately show ?thesis using inv frame d' by (auto simp: shared_inv_def intro: shared_wf_frame)
qed

lemma deliver_failed:
  assumes inv: "shared_inv w d" and r: "r \<in> members d" "0 < available_permits (w_consumers w r)"
    and new: "\<And>r. r \<in> members d \<Longrightarrow> mid \<notin> held w r"
    and send: "send_message bx r mid md pl rc (charge r n w) = (False, w2)"
  defines "w3 \<equiv> upd_consumer r (add_permits n) w2"
  shows "frame_consumers w w3" "pendings w3 x = pendings w x" "blocked bx w3 r"
    "sd_consumers d' = sd_consumers d \<Longrightarrow> sd_total_available_permits d' = sd_total_available_permits d \<Longrightarrow> permits_agree w3 d'"
proof -
  note send' = send [unfolded send_message_def]
  have "btm_get mid (pendings (charge r n w) r) = None"
    using new [OF r(1)] by (simp add: charge_facts(3) btm_get_None_iff held_def)
  note same = send_failed_world [OF send' this]
  show frame: "frame_consumers w w3" unfolding w3_def
    by (rule frame_consumers_trans [OF frame_consumers_trans [OF charge_facts(1) send_message_frame(1) [OF send']]]) auto
  show "pendings w3 x = pendings w x"
    using same(3) [of x] by (auto simp: w3_def pendings_upd_consumer charge_facts(3)) (auto simp: pendings_def)
  have "c_connection (w_consumers w3 r) = c_connection (w_consumers (charge r n w) r)"
    using frame charge_facts(1) [of w r n] by (auto simp: frame_consumers_def same_identity_def)
  with same show "blocked bx w3 r"
    by (intro blocked_cong [OF send_message_failed [OF send']]) (auto simp: w3_def)
  assume d': "sd_consumers d' = sd_consumers d" "sd_total_available_permits d' = sd_total_available_permits d"
  have total: "wrap_i32 (sd_total_available_permits d) = sd_total_available_permits d"
    using inv by (simp add: shared_inv_def permits_agree_def)
  have permits: "available_permits (w_consumers w2 x) = available_permits (w_consumers (charge r n w) x)" for x
    by (rule send_message_frame(2) [OF send'])
  show "permits_agree w3 d'"
    by (rule permits_agree_shift [of w d d' r w3 0])
       (use inv r d' total permits charge_facts(4) [OF r(2), of n] members_cong [OF d'(1)]
        in \<open>auto simp: shared_inv_def w3_def add_permits_def\<close>)
qed

section \<open>One turn of the batch loop\<close>

definition work :: "StoredMessage list \<Rightarrow> SharedDispatcher \<Rightarrow> nat" where
  "work l d = rd_len (sd_redelivery_controller d) + length (to_read l (sd_read_position d))"

text \<open>No queued message has been acknowledged or is missing from the log.\<close>

definition queue_fresh :: "StoredMessage list \<Rightarrow> (MessageId \<Rightarrow> bool) \<Rightarrow> SharedDispatcher \<Rightarrow> bool" where
  "queue_fresh l A d \<longleftrightarrow> (\<forall>mid \<in> queued d. \<not> A mid \<and> mid \<in> sm_message_id ` set l)"

text \<open>Why a dispatcher cannot go on: no permits, a consumer over its budget of unacknowledged
  messages, a consumer that cannot take messages, or nothing left to send.\<close>

definition exhausted ::
    "StoredMessage list \<Rightarrow> (MessageId \<Rightarrow> bool) \<Rightarrow> 'ch broker_ext \<Rightarrow> 'ch world \<Rightarrow> SharedDispatcher \<Rightarrow> bool" where
  "exhausted l A bx w d \<longleftrightarrow>
     (\<forall>r \<in> members d. available_permits (w_consumers w r) \<le> 0) \<or>
     (\<exists>r \<in> members d. sd_max_unacked_messages d \<le> pending_ack_count (w_consumers w r)) \<or>
     (\<exists>r \<in> members d. blocked bx w r) \<or>
     (queued d = {} \<and> todo A (\<lambda>mid. \<exists>r \<in> members d. mid \<in> held w r) (to_read l (sd_read_position d)) = [])"

definition same_config :: "SharedDispatcher \<Rightarrow> SharedDispatcher \<Rightarrow> bool" where
  "same_config d d' \<longleftrightarrow> sd_consumers d' = sd_consumers d \<and> sd_consumer_order d' = sd_consumer_order d \<and>
     sd_dispatch_in_progress d' = sd_dispatch_in_progress d \<and> sd_should_reschedule d' = sd_should_reschedule d \<and>
     sd_max_unacked_messages d' = sd_max_unacked_messages d"

definition turn_effect ::
    "StoredMessage list \<Rightarrow> (MessageId \<Rightarrow> bool) \<Rightarrow> 'ch broker_ext \<Rightarrow> SharedDispatcher \<Rightarrow> turn \<Rightarrow> 'ch world \<Rightarrow> SharedDispatcher \<Rightarrow> bool" where
  "turn_effect l A bx d t w' d' \<longleftrightarrow> same_config d d' \<and>
     (case t of Next _ \<Rightarrow> work l d' < work l d | Stop \<Rightarrow> work l d' \<le> work l d | Fail _ \<Rightarrow> False) \<and>
     (queue_fresh l A d \<longrightarrow> queue_fresh l A d' \<and> t \<noteq> Next False \<and> (t = Stop \<longrightarrow> exhausted l A bx w' d'))"

lemma same_config_refl [simp]: "same_config d d"
  by (simp add: same_config_def)

lemma same_config_members: "same_config d d' \<Longrightarrow> members d' = members d"
  by (simp add: same_config_def members_def)

lemma same_config_trans: "same_config d d' \<Longrightarrow> same_config d' d'' \<Longrightarrow> same_config d d''"
  by (simp add: same_config_def)

lemma shared_inv_round_robin [simp]: "shared_inv w (d\<lparr>sd_round_robin_index := i\<rparr>) = shared_inv w d"
  by (simp add: shared_inv_def shared_wf_def owned_def permits_agree_def members_def queued_def ordered_consumers_def)

lemma round_robin_irrelevant [simp]:
  "work l (d\<lparr>sd_round_robin_index := i\<rparr>) = work l d"
  "queued (d\<lparr>sd_round_robin_index := i\<rparr>) = queued d"
  "queue_fresh l A (d\<lparr>sd_round_robin_index := i\<rparr>) = queue_fresh l A d"
  by (simp_all add: work_def queue_fresh_def queued_def)

lemma turn_effect_round_robin [simp]:
  "turn_effect l A bx (d\<lparr>sd_round_robin_index := i\<rparr>) t w' d' = turn_effect l A bx d t w' d'"
  by (cases t) (simp_all add: turn_effect_def same_config_def)

lemma owned_pop:
  assumes "owned w d" "rd_pop_next (sd_redelivery_controller d) = (Some e, c)"
    and d': "members d' = members d" "sd_redelivery_controller d' = c"
  shows "owned w d'" "re_message_id e \<notin> queued d'" "\<And>r. r \<in> members d' \<Longrightarrow> re_message_id e \<notin> held w r"
  using assms(1) rd_pop_facts [OF _ assms(2)] by (auto simp: owned_def queued_def d')

lemma flags_irrelevant [simp]:
  "shared_inv w (d\<lparr>sd_dispatch_in_progress := b\<rparr>) = shared_inv w d"
  "shared_inv w (d\<lparr>sd_should_reschedule := b\<rparr>) = shared_inv w d"
  "queue_fresh l A (d\<lparr>sd_dispatch_in_progress := b\<rparr>) = queue_fresh l A d"
  "queue_fresh l A (d\<lparr>sd_should_reschedule := b\<rparr>) = queue_fresh l A d"
  "exhausted l A bx w (d\<lparr>sd_dispatch_in_progress := b\<rparr>) = exhausted l A bx w d"
  by (simp_all add: shared_inv_def shared_wf_def owned_def permits_agree_def members_def queued_def
      ordered_consumers_def queue_fresh_def exhausted_def)

context storage_entries
begin

text \<open>The message of a popped entry is in the log and not acknowledged: it is sent, or queued again.\<close>

lemma redeliver_found:
  assumes s: "inv s" and inv: "shared_inv w d" and r: "r \<in> members d" "0 < available_permits (w_consumers w r)"
    and mid: "re_message_id e \<notin> queued d" "\<And>r. r \<in> members d \<Longrightarrow> re_message_id e \<notin> held w r"
    and d0: "same_config d0 d" "work (log s topic) d0 = Suc (work (log s topic) d)"
      "queued d0 = insert (re_message_id e) (queued d)"
    and found: "\<not> ackd s topic sub (re_message_id e)" "get_message_entry_by_id st s topic (re_message_id e) = Some m"
  shows "\<exists>t w' d'. shared_redeliver bx st s topic sub r e w d = (t, w', d') \<and> shared_inv w' d' \<and>
    turn_effect (log s topic) (ackd s topic sub) bx d0 t w' d'"
proof -
  let ?mid = "re_message_id e" and ?l = "log s topic" and ?A = "ackd s topic sub"
  have rd: "rd_inv (sd_redelivery_controller d)" "\<not> rd_block_hashes (sd_redelivery_controller d)"
    and total: "wrap_i32 (sd_total_available_permits d) = sd_total_available_permits d"
    using inv by (auto simp: shared_inv_def owned_def permits_agree_def)
  have m: "sm_message_id m = ?mid" using entry_id [OF s found(2)] by simp
  define n where "n = messages_in_batch (bx_proto bx) (sm_metadata m)"
  obtain c1 where use: "try_use_permits n (w_consumers w r) = (True, c1)" using r(2) by (simp add: try_use_permits_def)
  have charged: "upd_consumer r (\<lambda>_. c1) w = charge r n w" by (simp add: charge_def use)
  note run = shared_redeliver_def acked_law [OF s] Let_def m n_def [symmetric] use charged
  obtain ok w2 where send: "send_message bx r ?mid (sm_metadata m) (sm_payload m) (re_redelivery_count e) (charge r n w) = (ok, w2)"
    by (cases "send_message bx r ?mid (sm_metadata m) (sm_payload m) (re_redelivery_count e) (charge r n w)")
  show ?thesis
  proof (cases ok)
    case True
    let ?w3 = "upd_consumer r (record_message_dispatched n (length (sm_payload m))) w2"
    define d1 where "d1 = d\<lparr>sd_total_available_permits := wrap_i32 (sd_total_available_permits d - u32_as_i32 n)\<rparr>"
    from send True have sent: "send_message bx r ?mid (sm_metadata m) (sm_payload m) (re_redelivery_count e) (charge r n w) = (True, w2)"
      by simp
    have "shared_inv ?w3 d1" by (rule deliver_sent [OF inv r mid sent]) (simp_all add: d1_def)
    moreover have "turn_effect ?l ?A bx d0 (Next True) ?w3 d1"
      using d0 by (auto simp: turn_effect_def d1_def same_config_def work_def queue_fresh_def queued_def)
    moreover have "shared_redeliver bx st s topic sub r e w d = (Next True, ?w3, d1)"
      using found sent by (simp add: run d1_def)
    ultimately show ?thesis by blast
  next
    case False
    let ?e = "\<lparr>re_message_id = ?mid, re_redelivery_count = re_redelivery_count e + 1, re_sticky_key_hash = None\<rparr>"
    let ?w3 = "upd_consumer r (add_permits n) w2"
    define d2 where "d2 = d\<lparr>sd_redelivery_controller := rd_add ?e (sd_redelivery_controller d)\<rparr>"
    from send False have notsent: "send_message bx r ?mid (sm_metadata m) (sm_payload m) (re_redelivery_count e) (charge r n w) = (False, w2)"
      by simp
    note failed = deliver_failed [OF inv r mid(2) notsent]
    have own: "owned ?w3 d2" "queued d2 = insert ?mid (queued d)"
      using owned_enqueue [of w d d2 ?e ?w3] inv failed(2) mid(2) by (auto simp: shared_inv_def d2_def members_def)
    have "shared_inv ?w3 d2"
      using inv failed(1) failed(4) [of d2] own(1) by (auto simp: shared_inv_def d2_def intro: shared_wf_frame)
    moreover have "work ?l d2 = work ?l d0"
      using d0(2) mid(1) by (simp add: work_def d2_def rd_len_add [OF rd(1)] queued_def)
    moreover have "exhausted ?l ?A bx ?w3 d2" "same_config d0 d2"
      using r(1) failed(3) d0(1) by (auto simp: exhausted_def members_def d2_def same_config_def)
    moreover have "shared_redeliver bx st s topic sub r e w d = (Stop, ?w3, d2)"
      using found notsent by (simp add: run shared_restore_redelivery_message_def rd_restore_no_block [OF rd] d2_def total)
    ultimately show ?thesis using d0(3) own(2) by (auto simp: turn_effect_def queue_fresh_def)
  qed
qed

lemma redeliver_ok:
  assumes s: "inv s" and inv: "shared_inv w d" and r: "r \<in> members d" "0 < available_permits (w_consumers w r)"
    and mid: "re_message_id e \<notin> queued d" "\<And>r. r \<in> members d \<Longrightarrow> re_message_id e \<notin> held w r"
    and d0: "same_config d0 d" "work (log s topic) d0 = Suc (work (log s topic) d)"
      "queued d0 = insert (re_message_id e) (queued d)"
  shows "\<exists>t w' d'. shared_redeliver bx st s topic sub r e w d = (t, w', d') \<and> shared_inv w' d' \<and>
    turn_effect (log s topic) (ackd s topic sub) bx d0 t w' d'"
proof (cases "ackd s topic sub (re_message_id e) \<or> get_message_entry_by_id st s topic (re_message_id e) = None")
  case True
  then have "\<not> queue_fresh (log s topic) (ackd s topic sub) d0"
    using entry_law [OF s, of topic "re_message_id e"] by (auto simp: queue_fresh_def d0(3) find_None_iff)
  moreover have "shared_redeliver bx st s topic sub r e w d = (Next False, w, d)"
    using True by (cases "ackd s topic sub (re_message_id e)") (simp_all add: shared_redeliver_def acked_law [OF s])
  ultimately show ?thesis using inv d0(1,2) by (simp add: turn_effect_def)
next
  case False
  then show ?thesis using redeliver_found [OF assms] by blast
qed

text \<open>With an empty redelivery queue the next message of the log is sent, or queued.\<close>

lemma dispatch_new_found:
  assumes inv: "shared_inv w d" and r: "r \<in> members d" "0 < available_permits (w_consumers w r)"
    and empty: "queued d = {}"
    and run: "next_dispatchable_message st s topic sub (is_message_pending w (ordered_consumers d)) (sd_read_position d) =
      Some (Inr (Some (candidate_of m np)), q)"
    and np: "length (log_from (log s topic) np) < length (to_read (log s topic) (sd_read_position d))"
    and m: "\<not> ackd s topic sub (sm_message_id m)" "\<And>r. r \<in> members d \<Longrightarrow> sm_message_id m \<notin> held w r" "m \<in> set (log s topic)"
  shows "\<exists>t w' d'. shared_dispatch_new bx st s topic sub r w d = Some (t, w', d') \<and> shared_inv w' d' \<and>
    turn_effect (log s topic) (ackd s topic sub) bx d t w' d'"
proof -
  let ?mid = "sm_message_id m" and ?l = "log s topic" and ?A = "ackd s topic sub"
  have rd: "rd_inv (sd_redelivery_controller d)"
    and total: "wrap_i32 (sd_total_available_permits d) = sd_total_available_permits d"
    using inv by (auto simp: shared_inv_def owned_def permits_agree_def)
  define n where "n = messages_in_batch (bx_proto bx) (sm_metadata m)"
  obtain c1 where use: "try_use_permits n (w_consumers w r) = (True, c1)" using r(2) by (simp add: try_use_permits_def)
  have charged: "upd_consumer r (\<lambda>_. c1) w = charge r n w" by (simp add: charge_def use)
  note run = shared_dispatch_new_def run candidate_of_def Let_def n_def [symmetric] use charged commit_read_position_def
  have new: "?mid \<notin> queued d" by (simp add: empty)
  obtain ok w2 where send: "send_message bx r ?mid (sm_metadata m) (sm_payload m) 0 (charge r n w) = (ok, w2)"
    by (cases "send_message bx r ?mid (sm_metadata m) (sm_payload m) 0 (charge r n w)")
  show ?thesis
  proof (cases ok)
    case True
    let ?w3 = "upd_consumer r (record_message_dispatched n (length (sm_payload m))) w2"
    define d1 where "d1 = d\<lparr>sd_total_available_permits := wrap_i32 (sd_total_available_permits d - u32_as_i32 n),
        sd_read_position := Some np\<rparr>"
    from send True have sent: "send_message bx r ?mid (sm_metadata m) (sm_payload m) 0 (charge r n w) = (True, w2)" by simp
    have "shared_inv ?w3 d1" by (rule deliver_sent [OF inv r new m(2) sent]) (simp_all add: d1_def)
    moreover have "turn_effect ?l ?A bx d (Next True) ?w3 d1"
      using np by (auto simp: turn_effect_def d1_def same_config_def work_def queue_fresh_def queued_def)
    moreover have "shared_dispatch_new bx st s topic sub r w d = Some (Next True, ?w3, d1)"
      using sent by (simp add: run d1_def)
    ultimately show ?thesis by blast
  next
    case False
    let ?e = "\<lparr>re_message_id = ?mid, re_redelivery_count = 1, re_sticky_key_hash = None\<rparr>"
    let ?w3 = "upd_consumer r (add_permits n) w2"
    define d2 where "d2 = d\<lparr>sd_redelivery_controller := rd_add ?e (sd_redelivery_controller d), sd_read_position := Some np\<rparr>"
    from send False have notsent: "send_message bx r ?mid (sm_metadata m) (sm_payload m) 0 (charge r n w) = (False, w2)" by simp
    note failed = deliver_failed [OF inv r m(2) notsent]
    have own: "owned ?w3 d2" "queued d2 = insert ?mid (queued d)"
      using owned_enqueue [of w d d2 ?e ?w3] inv failed(2) m(2) by (auto simp: shared_inv_def d2_def members_def)
    have "shared_inv ?w3 d2"
      using inv failed(1) failed(4) [of d2] own(1) by (auto simp: shared_inv_def d2_def intro: shared_wf_frame)
    moreover have "work ?l d2 \<le> work ?l d"
      using np new by (simp add: work_def d2_def rd_len_add [OF rd] queued_def)
    moreover have "exhausted ?l ?A bx ?w3 d2" "same_config d d2"
      using r(1) failed(3) by (auto simp: exhausted_def members_def d2_def same_config_def)
    moreover have "shared_dispatch_new bx st s topic sub r w d = Some (Stop, ?w3, d2)"
      using notsent by (simp add: run shared_add_to_redelivery_queue_def shared_add_redelivery_entries_def d2_def total)
    ultimately show ?thesis using m(1,3) own(2) by (auto simp: turn_effect_def queue_fresh_def)
  qed
qed

lemma dispatch_new_ok:
  assumes s: "inv s" and inv: "shared_inv w d" and r: "r \<in> members d" "0 < available_permits (w_consumers w r)"
    and empty: "queued d = {}"
  shows "\<exists>t w' d'. shared_dispatch_new bx st s topic sub r w d = Some (t, w', d') \<and> shared_inv w' d' \<and>
    turn_effect (log s topic) (ackd s topic sub) bx d t w' d'"
proof -
  let ?l = "log s topic" and ?A = "ackd s topic sub"
  let ?P = "\<lambda>mid. \<exists>r \<in> members d. mid \<in> held w r"
  have P: "is_message_pending w (ordered_consumers d) = ?P"
    using inv shared_wf_members [of w d] by (intro ext) (simp add: is_message_pending_iff shared_inv_def)
  from next_dispatchable [OF s, of topic sub ?P "sd_read_position d"] obtain q c where
    run: "next_dispatchable_message st s topic sub ?P (sd_read_position d) = Some (Inr c, q)" and
    q: "length (to_read ?l q) \<le> length (to_read ?l (sd_read_position d))"
      "todo ?A ?P (to_read ?l q) = todo ?A ?P (to_read ?l (sd_read_position d))" and
    c: "case todo ?A ?P (to_read ?l (sd_read_position d)) of
       [] \<Rightarrow> c = None
     | m # ms \<Rightarrow> \<exists>np. c = Some (candidate_of m np) \<and> todo ?A ?P (log_from ?l np) = ms \<and>
         length (log_from ?l np) < length (to_read ?l (sd_read_position d))" by blast
  show ?thesis
  proof (cases "todo ?A ?P (to_read ?l (sd_read_position d))")
    case Nil
    define d1 where "d1 = d\<lparr>sd_read_position := q\<rparr>"
    have mem: "members d1 = members d" by (simp add: d1_def members_def)
    have "shared_inv w d1"
      using inv mem unfolding shared_inv_def
      by (auto simp: d1_def permits_agree_def intro: shared_wf_frame owned_cong)
    moreover have "exhausted ?l ?A bx w d1"
      using empty q(2) Nil unfolding exhausted_def mem by (simp add: d1_def queued_def)
    moreover have "shared_dispatch_new bx st s topic sub r w d = Some (Stop, w, d1)"
      using c Nil run by (simp add: shared_dispatch_new_def P d1_def)
    ultimately show ?thesis using empty q(1) by (auto simp: turn_effect_def d1_def same_config_def work_def queue_fresh_def queued_def)
  next
    case (Cons m ms)
    then obtain np where c: "c = Some (candidate_of m np)" "length (log_from ?l np) < length (to_read ?l (sd_read_position d))"
      using c by auto
    have "m \<in> set (todo ?A ?P (to_read ?l (sd_read_position d)))" by (simp add: Cons)
    then have m: "\<not> ?A (sm_message_id m)" "\<And>r. r \<in> members d \<Longrightarrow> sm_message_id m \<notin> held w r" "m \<in> set ?l"
      by (auto simp: todo_def dest: set_to_read)
    show ?thesis using dispatch_new_found [OF inv r empty _ c(2) m] run c(1) by (simp add: P)
  qed
qed

lemma turn_ok:
  assumes s: "inv s" and inv: "shared_inv w d"
  shows "\<exists>t w' d'. shared_turn bx st s topic sub w d = Some (t, w', d') \<and> shared_inv w' d' \<and>
    turn_effect (log s topic) (ackd s topic sub) bx d t w' d'"
proof -
  let ?l = "log s topic" and ?A = "ackd s topic sub"
  from inv have wf: "shared_wf w d" by (simp add: shared_inv_def)
  from get_next_best [OF wf] obtain res i where
    next_c: "get_next_available_consumer w d = Some (res, d\<lparr>sd_round_robin_index := i\<rparr>)" and
    best: "case res of None \<Rightarrow> \<forall>r \<in> members d. available_permits (w_consumers w r) \<le> 0
      | Some r \<Rightarrow> r \<in> members d \<and> 0 < available_permits (w_consumers w r)"
    by (force split: option.splits)
  define d1 where "d1 = d\<lparr>sd_round_robin_index := i\<rparr>"
  have inv1: "shared_inv w d1" using inv by (simp add: d1_def)
  show ?thesis
  proof (cases "res = None \<or> sd_max_unacked_messages d1 \<le> pending_ack_count (w_consumers w (the res))")
    case True
    then have "exhausted ?l ?A bx w d1" using best by (cases res) (auto simp: exhausted_def d1_def members_def)
    moreover have "shared_turn bx st s topic sub w d = Some (Stop, w, d1)"
      using True by (cases res) (auto simp: shared_turn_def next_c d1_def)
    ultimately show ?thesis using inv1 by (auto simp: turn_effect_def d1_def same_config_def)
  next
    case False
    then obtain r where r: "res = Some r" "r \<in> members d1" "0 < available_permits (w_consumers w r)"
      using best by (cases res) (auto simp: d1_def members_def)
    obtain po c where pop: "rd_pop_next (sd_redelivery_controller d1) = (po, c)" by fastforce
    define d2 where "d2 = d1\<lparr>sd_redelivery_controller := c\<rparr>"
    have turn: "shared_turn bx st s topic sub w d = (case po of
        Some e \<Rightarrow> Some (shared_redeliver bx st s topic sub r e w d2) | None \<Rightarrow> shared_dispatch_new bx st s topic sub r w d2)"
      using False r pop by (cases po) (simp_all add: shared_turn_def next_c d1_def d2_def shared_pop_redelivery_message_def)
    show ?thesis
    proof (cases po)
      case None
      with rd_pop_None pop have "d2 = d1" "queued d1 = {}" by (auto simp: d2_def queued_def)
      with dispatch_new_ok [OF s inv1 r(2,3), of bx topic sub] turn None show ?thesis by (simp add: d1_def)
    next
      case (Some e)
      note popped = rd_pop_facts [of "sd_redelivery_controller d1" e c]
      have own: "owned w d2" "re_message_id e \<notin> queued d2" "\<And>r. r \<in> members d2 \<Longrightarrow> re_message_id e \<notin> held w r"
        using owned_pop [of w d1 e c d2] inv1 pop Some by (auto simp: shared_inv_def d2_def members_def)
      have "shared_inv w d2"
        using inv1 own(1) by (auto simp: shared_inv_def d2_def permits_agree_def members_def intro: shared_wf_frame)
      moreover have "work ?l d = Suc (work ?l d2)" "queued d = insert (re_message_id e) (queued d2)" "same_config d d2"
        using inv1 popped pop Some by (auto simp: shared_inv_def owned_def work_def queued_def d1_def d2_def same_config_def)
      moreover have "r \<in> members d2" using r(2) by (simp add: d2_def members_def)
      ultimately obtain t w' d' where "shared_redeliver bx st s topic sub r e w d2 = (t, w', d')" "shared_inv w' d'"
        "turn_effect ?l ?A bx d t w' d'" using redeliver_ok [OF s _ _ r(3) own(2,3)] by blast
      with turn Some show ?thesis by simp
    qed
  qed
qed

section \<open>Batches and passes\<close>

lemma batch_loop_ok:
  assumes s: "inv s" and inv: "shared_inv w d"
  shows "\<exists>j w' d'. shared_batch_loop bx st s topic sub n k w d = Some (Inr (k + of_nat j), w', d') \<and> j \<le> n \<and>
    shared_inv w' d' \<and> same_config d d' \<and> work (log s topic) d' \<le> work (log s topic) d \<and>
    (0 < j \<longrightarrow> work (log s topic) d' < work (log s topic) d) \<and>
    (queue_fresh (log s topic) (ackd s topic sub) d \<longrightarrow> queue_fresh (log s topic) (ackd s topic sub) d' \<and>
       (j = n \<or> exhausted (log s topic) (ackd s topic sub) bx w' d'))"
  using inv
proof (induction n arbitrary: k w d)
  case 0
  then show ?case by auto
next
  case (Suc n)
  let ?l = "log s topic" and ?A = "ackd s topic sub"
  from turn_ok [OF s Suc.prems, of bx topic sub] obtain t w1 d1 where
    turn: "shared_turn bx st s topic sub w d = Some (t, w1, d1)" and inv1: "shared_inv w1 d1" and
    eff: "turn_effect ?l ?A bx d t w1 d1" by blast
  show ?case
  proof (cases t)
    case (Next sent)
    from Suc.IH [OF inv1, of "if sent then k + 1 else k"] obtain j w' d' where
      run: "shared_batch_loop bx st s topic sub n (if sent then k + 1 else k) w1 d1 =
        Some (Inr ((if sent then k + 1 else k) + of_nat j), w', d')" and "j \<le> n" "shared_inv w' d'" "same_config d1 d'"
      "work ?l d' \<le> work ?l d1"
      "queue_fresh ?l ?A d1 \<longrightarrow> queue_fresh ?l ?A d' \<and> (j = n \<or> exhausted ?l ?A bx w' d')" by blast
    moreover have "(if sent then k + 1 else k) + of_nat j = k + of_nat (if sent then Suc j else j)" by simp
    moreover have "shared_batch_loop bx st s topic sub (Suc n) k w d =
        shared_batch_loop bx st s topic sub n (if sent then k + 1 else k) w1 d1"
      by (simp add: turn Next)
    ultimately show ?thesis using eff Next
      by (intro exI [of _ "if sent then Suc j else j"] exI [of _ w'] exI [of _ d'])
         (auto simp: turn_effect_def intro: same_config_trans)
  next
    case Stop
    with turn eff inv1 show ?thesis
      by (intro exI [of _ 0] exI [of _ w1] exI [of _ d1]) (auto simp: turn_effect_def)
  next
    case (Fail e)
    with eff show ?thesis by (simp add: turn_effect_def)
  qed
qed

lemma batch_ok:
  assumes s: "inv s" and inv: "shared_inv w d"
  shows "\<exists>j w' d'. shared_dispatch_messages_batch bx st s topic sub w d = Some (Inr (of_nat j), w', d') \<and> j \<le> 20 \<and>
    shared_inv w' d' \<and> same_config d d' \<and> work (log s topic) d' \<le> work (log s topic) d \<and>
    (0 < j \<longrightarrow> work (log s topic) d' < work (log s topic) d) \<and>
    (queue_fresh (log s topic) (ackd s topic sub) d \<longrightarrow> queue_fresh (log s topic) (ackd s topic sub) d' \<and>
       (j = 0 \<longrightarrow> sd_total_available_permits d' \<le> 0 \<or> exhausted (log s topic) (ackd s topic sub) bx w' d'))"
proof (cases "sd_total_available_permits d \<le> 0")
  case True
  with inv show ?thesis by (intro exI [of _ 0]) (simp add: shared_dispatch_messages_batch_def)
next
  case False
  let ?n = "nat (min (sd_total_available_permits d) (u32_as_i32 DISPATCHER_MAX_ROUND_ROBIN_BATCH_SIZE))"
  have "u32_as_i32 DISPATCHER_MAX_ROUND_ROBIN_BATCH_SIZE = 20"
    by (simp add: DISPATCHER_MAX_ROUND_ROBIN_BATCH_SIZE_def u32_as_i32_small)
  then have n: "0 < ?n" "?n \<le> 20" using False by auto
  from batch_loop_ok [OF s inv, of bx topic sub ?n 0] obtain j w' d' where
    "shared_batch_loop bx st s topic sub ?n 0 w d = Some (Inr (0 + of_nat j), w', d')" "j \<le> ?n"
    "shared_inv w' d'" "same_config d d'" "work (log s topic) d' \<le> work (log s topic) d"
    "0 < j \<longrightarrow> work (log s topic) d' < work (log s topic) d"
    "queue_fresh (log s topic) (ackd s topic sub) d \<longrightarrow> queue_fresh (log s topic) (ackd s topic sub) d' \<and>
       (j = ?n \<or> exhausted (log s topic) (ackd s topic sub) bx w' d')" by blast
  with n False show ?thesis
    by (intro exI [of _ j] exI [of _ w'] exI [of _ d']) (auto simp: shared_dispatch_messages_batch_def)
qed

lemma pass_ok:
  assumes s: "inv s" and inv: "shared_inv w d"
  shows "\<exists>w' d'. shared_pass bx st s topic sub w d = Some (Inr (), w', d') \<and> shared_inv w' d' \<and> same_config d d' \<and>
    (queue_fresh (log s topic) (ackd s topic sub) d \<longrightarrow> queue_fresh (log s topic) (ackd s topic sub) d' \<and>
       (sd_total_available_permits d' \<le> 0 \<or> exhausted (log s topic) (ackd s topic sub) bx w' d'))"
  using inv
proof (induction "work (log s topic) d" arbitrary: w d rule: less_induct)
  case less
  let ?l = "log s topic" and ?A = "ackd s topic sub"
  from batch_ok [OF s less.prems, of bx topic sub] obtain j w1 d1 where
    run: "shared_dispatch_messages_batch bx st s topic sub w d = Some (Inr (of_nat j), w1, d1)" and
    j: "j \<le> 20" "0 < j \<longrightarrow> work ?l d1 < work ?l d" and inv1: "shared_inv w1 d1" "same_config d d1" and
    fresh: "queue_fresh ?l ?A d \<longrightarrow> queue_fresh ?l ?A d1 \<and>
       (j = 0 \<longrightarrow> sd_total_available_permits d1 \<le> 0 \<or> exhausted ?l ?A bx w1 d1)" by blast
  have zero: "(of_nat j :: u32) = 0 \<longleftrightarrow> j = 0" using j(1) dvd_imp_le [of 4294967296 j]
    by (auto simp: word_of_nat_eq_0_iff)
  show ?case
  proof (cases "j = 0 \<or> sd_total_available_permits d1 = 0")
    case True
    then have "shared_pass bx st s topic sub w d = Some (Inr (), w1, d1)"
      by (subst shared_pass.simps) (auto simp: run zero)
    with True inv1 fresh show ?thesis by auto
  next
    case False
    then have "shared_pass bx st s topic sub w d = shared_pass bx st s topic sub w1 d1"
      by (subst shared_pass.simps) (simp add: run zero)
    moreover from less.hyps [OF _ inv1(1)] j(2) False obtain w' d' where
      "shared_pass bx st s topic sub w1 d1 = Some (Inr (), w', d')" "shared_inv w' d'" "same_config d1 d'"
      "queue_fresh ?l ?A d1 \<longrightarrow> queue_fresh ?l ?A d' \<and> (sd_total_available_permits d' \<le> 0 \<or> exhausted ?l ?A bx w' d')"
      by blast
    ultimately show ?thesis using fresh inv1(2) same_config_trans by auto
  qed
qed

text \<open>A dispatch that is not merged into a running one ends with the guard released; a trigger noted
  before it started costs one more pass.\<close>

lemma pass_loop_ok:
  assumes s: "inv s" and inv: "shared_inv w d"
  shows "\<exists>w' d'. shared_pass_loop bx st s topic sub w d = Some (Inr (), w', d') \<and> shared_inv w' d' \<and>
    members d' = members d \<and> \<not> sd_dispatch_in_progress d' \<and> \<not> sd_should_reschedule d' \<and>
    (queue_fresh (log s topic) (ackd s topic sub) d \<longrightarrow>
       sd_total_available_permits d' \<le> 0 \<or> exhausted (log s topic) (ackd s topic sub) bx w' d')"
proof -
  let ?l = "log s topic" and ?A = "ackd s topic sub"
  have once: "\<exists>w' d'. shared_pass_loop bx st s topic sub w d = Some (Inr (), w', d') \<and> shared_inv w' d' \<and>
      members d' = members d \<and> \<not> sd_dispatch_in_progress d' \<and> \<not> sd_should_reschedule d' \<and>
      (queue_fresh ?l ?A d \<longrightarrow> sd_total_available_permits d' \<le> 0 \<or> exhausted ?l ?A bx w' d')"
    if inv: "shared_inv w d" and flag: "\<not> sd_should_reschedule d" for w d
  proof -
    from pass_ok [OF s inv, of bx topic sub] obtain w1 d1 where
      "shared_pass bx st s topic sub w d = Some (Inr (), w1, d1)" "shared_inv w1 d1" "same_config d d1"
      "queue_fresh ?l ?A d \<longrightarrow> sd_total_available_permits d1 \<le> 0 \<or> exhausted ?l ?A bx w1 d1" by blast
    with flag show ?thesis
      by (subst shared_pass_loop.simps) (auto simp: same_config_def members_def)
  qed
  show ?thesis
  proof (cases "sd_should_reschedule d")
    case True
    from pass_ok [OF s inv, of bx topic sub] obtain w1 d1 where
      run: "shared_pass bx st s topic sub w d = Some (Inr (), w1, d1)" and inv1: "shared_inv w1 d1" "same_config d d1"
      and fresh: "queue_fresh ?l ?A d \<longrightarrow> queue_fresh ?l ?A d1" by blast
    define d2 where "d2 = d1\<lparr>sd_should_reschedule := False, sd_dispatch_in_progress := True\<rparr>"
    have "shared_pass_loop bx st s topic sub w d = shared_pass_loop bx st s topic sub w1 d2"
      using True inv1(2) by (subst shared_pass_loop.simps) (simp add: run d2_def same_config_def)
    moreover have "members d2 = members d" using inv1(2) by (simp add: d2_def same_config_def members_def)
    moreover have "shared_inv w1 d2" "\<not> sd_should_reschedule d2" "queue_fresh ?l ?A d \<longrightarrow> queue_fresh ?l ?A d2"
      using inv1(1) fresh by (simp_all add: d2_def)
    ultimately show ?thesis using once [of w1 d2] by force
  qed (rule once [OF inv])
qed

lemma dispatch_ok:
  assumes s: "inv s" and inv: "shared_inv w d"
  shows "\<exists>w' d'. shared_dispatch_messages bx st s topic sub w d = Some (Inr (), w', d') \<and> shared_inv w' d' \<and>
    (if sd_dispatch_in_progress d then w' = w \<and> d' = d\<lparr>sd_should_reschedule := True\<rparr>
     else members d' = members d \<and> \<not> sd_dispatch_in_progress d' \<and> \<not> sd_should_reschedule d' \<and>
       (queue_fresh (log s topic) (ackd s topic sub) d \<longrightarrow>
          sd_total_available_permits d' \<le> 0 \<or> exhausted (log s topic) (ackd s topic sub) bx w' d'))"
proof (cases "sd_dispatch_in_progress d")
  case False
  have "members (d\<lparr>sd_dispatch_in_progress := True\<rparr>) = members d" by (simp add: members_def)
  with pass_loop_ok [OF s, of w "d\<lparr>sd_dispatch_in_progress := True\<rparr>" bx topic sub] inv False show ?thesis
    by (simp add: shared_dispatch_messages_def)
qed (use inv in \<open>simp add: shared_dispatch_messages_def\<close>)

end

text \<open>C1: Dispatching a Shared subscription from the in-memory storage always returns, without an
  error. It keeps every message with at most one owner (the consumer it was sent to, or the redelivery
  queue), the consumers in priority order, and the aggregate permit count equal to the sum of the
  consumers' permits; and it leaves the dispatch guard as it should be.\<close>

theorem shared_dispatch_keeps_ownership:
  assumes "mem_wf s" "shared_inv w d"
  shows "\<exists>w' d'. shared_dispatch_messages bx mem_storage s topic sub w d = Some (Inr (), w', d') \<and> shared_inv w' d' \<and>
    sd_dispatch_in_progress d' = sd_dispatch_in_progress d"
  using mem_entries.dispatch_ok [OF assms, of bx topic sub] by (auto split: if_splits)

text \<open>C2: A dispatch does not stop early. If no queued message is already acknowledged or missing from
  the log, then after a dispatch that was not merged into a running one either the aggregate permit count
  is used up, or no consumer has a permit, or some consumer is over its budget of unacknowledged messages
  or cannot take messages, or nothing is left: the redelivery queue is empty and every entry from the read
  position on is acknowledged or held by a consumer.\<close>

theorem shared_dispatch_exhausts:
  assumes "mem_wf s" "shared_inv w d" "\<not> sd_dispatch_in_progress d"
    and "queue_fresh (mem_get_message_entries s topic) (is_acknowledged_inner s topic sub) d"
  shows "\<exists>w' d'. shared_dispatch_messages bx mem_storage s topic sub w d = Some (Inr (), w', d') \<and>
    (sd_total_available_permits d' \<le> 0 \<or>
     exhausted (mem_get_message_entries s topic) (is_acknowledged_inner s topic sub) bx w' d')"
  using mem_entries.dispatch_ok [OF assms(1,2), of bx topic sub] assms(3,4) by auto

section \<open>Membership changes keep the invariant\<close>

lemma shared_inv_add:
  assumes inv: "shared_inv w d" and run: "shared_add_consumer w r d = (Inr (), d')"
    and r: "0 \<le> priority_level (w_consumers w r)" "available_permits (w_consumers w r) = 0" "pendings w r = []"
  shows "shared_inv w d'"
proof -
  from inv have wf: "shared_wf w d" by (simp add: shared_inv_def)
  note add = shared_wf_add [OF wf r(1) run]
  have "queued d' = queued d" by (simp add: queued_def add)
  then have "owned w d'" using inv r(3) by (auto simp: shared_inv_def owned_def add held_def)
  moreover have "permits_agree w d'" using inv add r(2) by (simp add: shared_inv_def permits_agree_def)
  ultimately show ?thesis using add(1) by (simp add: shared_inv_def)
qed

lemma u32_i32_roundtrip: "u32_as_i32 (i32_as_u32 x) = wrap_i32 x"
  by (simp add: u32_as_i32_def i32_as_u32_def wrap_i32_def sint_sbintrunc')

text \<open>Queueing a list of distinct messages.\<close>

lemma fold_rd_add:
  assumes "rd_inv c" "\<not> rd_block_hashes c"
  shows "rd_inv (fold rd_add es c) \<and> \<not> rd_block_hashes (fold rd_add es c) \<and>
    fst ` set (rd_entries (fold rd_add es c)) = re_message_id ` set es \<union> fst ` set (rd_entries c)"
  using assms by (induction es arbitrary: c) (auto simp: rd_inv_add_no_block rd_add_keys)

lemma rd_add_get:
  assumes "rd_inv c"
  shows "btm_get mid (rd_entries (rd_add e c)) =
    (if mid \<noteq> re_message_id e then btm_get mid (rd_entries c)
     else case btm_get mid (rd_entries c) of
       None \<Rightarrow> Some e
     | Some x \<Rightarrow> Some (x\<lparr>re_redelivery_count := max (re_redelivery_count x) (re_redelivery_count e),
         re_sticky_key_hash := (if re_sticky_key_hash x = None then re_sticky_key_hash e else re_sticky_key_hash x)\<rparr>))"
proof -
  have "btm_ok (rd_entries c)" using assms by (simp add: rd_inv_def rd_wf_def)
  then show ?thesis by (auto simp: rd_add_def Let_def split: option.splits)
qed

lemma fold_rd_add_get:
  assumes "rd_inv c" "\<not> rd_block_hashes c" "distinct (map re_message_id es)" "e \<in> set es"
    and "re_message_id e \<notin> fst ` set (rd_entries c)"
  shows "btm_get (re_message_id e) (rd_entries (fold rd_add es c)) = Some e"
  using assms
proof (induction es arbitrary: c)
  case (Cons e' es)
  note c' = rd_inv_add_no_block [OF Cons.prems(1,2), of e']
  show ?case
  proof (cases "e \<in> set es")
    case True
    then have "re_message_id e \<in> re_message_id ` set es" by simp
    moreover have "re_message_id e' \<notin> re_message_id ` set es" using Cons.prems(3) by simp
    ultimately have "re_message_id e \<noteq> re_message_id e'" by metis
    with Cons True c' show ?thesis by (simp add: rd_add_keys)
  next
    case False
    with Cons.prems have e: "e' = e" "re_message_id e \<notin> re_message_id ` set es" by auto
    have "btm_get mid (rd_entries (fold rd_add es x)) = btm_get mid (rd_entries x)"
      if "rd_inv x" "\<not> rd_block_hashes x" "mid \<notin> re_message_id ` set es" for x mid
      using that by (induction es arbitrary: x) (auto simp: rd_inv_add_no_block rd_add_get)
    with c' e Cons.prems show ?thesis by (simp add: rd_add_get btm_get_None_iff [THEN iffD2])
  qed
qed simp

lemma owned_leave:
  assumes own: "owned w d" and r: "r \<in> members d" and mem: "members d' = members d - {r}"
    and rd: "rd_inv (sd_redelivery_controller d')" "\<not> rd_block_hashes (sd_redelivery_controller d')"
    and q: "queued d' = queued d \<union> held w r" and pend: "\<And>x. x \<noteq> r \<Longrightarrow> pendings w' x = pendings w x"
  shows "owned w' d'"
proof -
  have held: "held w' x = held w x" "btm_ok (pendings w' x)" if "x \<in> members d'" for x
    using that own pend by (auto simp: held_def mem owned_def)
  have "held w x \<inter> queued d = {}" "held w x \<inter> held w r = {}" if "x \<in> members d'" for x
    using that own r by (auto simp: mem owned_def)
  then have "held w' x \<inter> queued d' = {}" if "x \<in> members d'" for x
    using that held(1) [OF that] unfolding q by blast
  moreover have "held w' x \<inter> held w' y = {}" if "x \<in> members d'" "y \<in> members d'" "x \<noteq> y" for x y
    using own that held(1) [OF that(1)] held(1) [OF that(2)] by (simp add: mem owned_def)
  ultimately show ?thesis using rd held(2) by (simp add: owned_def)
qed

text \<open>The entries a disconnected consumer leaves in the queue, and the state after it left.\<close>

definition recovered :: "'ch world \<Rightarrow> cref \<Rightarrow> RedeliveryEntry list" where
  "recovered w r = map (\<lambda>(mid, pa). \<lparr>re_message_id = mid, re_redelivery_count = pa_redelivery_count pa + 1,
    re_sticky_key_hash = None\<rparr>) (pendings w r)"

lemma remove_with_recovery_eq:
  assumes dist: "distinct (sd_consumer_order d)" and r: "btm_get cid (sd_consumers d) = Some r"
    and permits: "0 \<le> available_permits (w_consumers w r)" "available_permits (w_consumers w r) < 2147483648"
      "- 2147483648 \<le> sd_total_available_permits d - available_permits (w_consumers w r)"
      "sd_total_available_permits d < 2147483648"
    and run: "shared_remove_consumer_with_recovery cid w d = (res, w', d')"
  shows "res = Some r" "\<exists>i. d' = d\<lparr>sd_consumers := btm_remove cid (sd_consumers d),
        sd_consumer_order := filter (\<lambda>y. y \<noteq> cid) (sd_consumer_order d), sd_round_robin_index := i,
        sd_total_available_permits := sd_total_available_permits d - available_permits (w_consumers w r),
        sd_redelivery_controller := fold rd_add (recovered w r) (sd_redelivery_controller d)\<rparr>"
    "w' = upd_consumer r (\<lambda>c. c\<lparr>pending_acks := (pending_acks c)\<lparr>pam_closed := True, pam_inner := []\<rparr>\<rparr>) w"
proof -
  let ?c = "w_consumers w r"
  obtain i where order: "remove_consumer_order cid (d\<lparr>sd_consumers := btm_remove cid (sd_consumers d)\<rparr>) =
      d\<lparr>sd_consumers := btm_remove cid (sd_consumers d),
        sd_consumer_order := filter (\<lambda>y. y \<noteq> cid) (sd_consumer_order d), sd_round_robin_index := i\<rparr>"
    using remove_consumer_order_eq [of "d\<lparr>sd_consumers := btm_remove cid (sd_consumers d)\<rparr>" cid] dist by auto
  have now: "u32_as_i32 (available_permits_now ?c) = available_permits ?c"
    using permits by (simp add: available_permits_now_def u32_i32_roundtrip wrap_i32_id max_absorb2)
  have "i32_saturating_sub (sd_total_available_permits d) (available_permits ?c) = sd_total_available_permits d - available_permits ?c"
    using permits by (simp add: i32_saturating_sub_def i32_MIN_def i32_MAX_def)
  with run r have eq: "res = Some r" "w' = upd_consumer r (\<lambda>_. ?c\<lparr>pending_acks := (pending_acks ?c)\<lparr>pam_closed := True, pam_inner := []\<rparr>\<rparr>) w"
    "d' = d\<lparr>sd_consumers := btm_remove cid (sd_consumers d),
        sd_consumer_order := filter (\<lambda>y. y \<noteq> cid) (sd_consumer_order d), sd_round_robin_index := i,
        sd_total_available_permits := sd_total_available_permits d - available_permits ?c,
        sd_redelivery_controller := fold rd_add (recovered w r) (sd_redelivery_controller d)\<rparr>"
    by (auto simp: shared_remove_consumer_with_recovery_def Let_def order subtract_total_permits_def now
        drain_pending_acks_def pam_drain_def close_pending_acks_def pam_close_def shared_add_to_redelivery_queue_def
        shared_add_redelivery_entries_def recovered_def pendings_def comp_def case_prod_beta')
  show "res = Some r" by (rule eq)
  show "w' = upd_consumer r (\<lambda>c. c\<lparr>pending_acks := (pending_acks c)\<lparr>pam_closed := True, pam_inner := []\<rparr>\<rparr>) w"
    using eq(2) by (simp add: upd_consumer_def)
  from eq(3) show "\<exists>i. d' = d\<lparr>sd_consumers := btm_remove cid (sd_consumers d),
        sd_consumer_order := filter (\<lambda>y. y \<noteq> cid) (sd_consumer_order d), sd_round_robin_index := i,
        sd_total_available_permits := sd_total_available_permits d - available_permits ?c,
        sd_redelivery_controller := fold rd_add (recovered w r) (sd_redelivery_controller d)\<rparr>" by blast
qed

text \<open>C9: When a consumer of a Shared subscription disconnects, every message it had not acknowledged
  moves to the redelivery queue with its redelivery count increased by one, the messages of the other
  consumers and the queue stay as they were, the consumer holds nothing and can be handed nothing any
  more, and ownership, priority order and permit count remain consistent.\<close>

theorem shared_disconnect_recovers:
  assumes inv: "shared_inv w d" and r: "btm_get cid (sd_consumers d) = Some r"
    and permits: "0 \<le> available_permits (w_consumers w r)" "available_permits (w_consumers w r) < 2147483648"
      "- 2147483648 \<le> sd_total_available_permits d - available_permits (w_consumers w r)"
    and run: "shared_remove_consumer_with_recovery cid w d = (res, w', d')"
  shows "res = Some r \<and> shared_inv w' d' \<and> members d' = members d - {r} \<and> queued d' = queued d \<union> held w r \<and>
    (\<forall>mid pa. btm_get mid (pendings w r) = Some pa \<longrightarrow>
       (\<exists>e. btm_get mid (rd_entries (sd_redelivery_controller d')) = Some e \<and>
          re_redelivery_count e = pa_redelivery_count pa + 1)) \<and>
    pendings w' r = [] \<and> pam_closed (pending_acks (w_consumers w' r)) \<and> (\<forall>x. x \<noteq> r \<longrightarrow> pendings w' x = pendings w x)"
proof -
  let ?c = "w_consumers w r"
  have dist: "distinct (sd_consumer_order d)" and wf: "shared_wf w d" and own: "owned w d" and agree: "permits_agree w d"
    using inv by (auto simp: shared_inv_def shared_wf_def)
  have total_range: "sd_total_available_permits d < 2147483648"
    using agree wrap_i32_range by (simp add: permits_agree_def)
  note eq = remove_with_recovery_eq [OF dist r permits total_range run]
  then obtain i where d': "d' = d\<lparr>sd_consumers := btm_remove cid (sd_consumers d),
        sd_consumer_order := filter (\<lambda>y. y \<noteq> cid) (sd_consumer_order d), sd_round_robin_index := i,
        sd_total_available_permits := sd_total_available_permits d - available_permits ?c,
        sd_redelivery_controller := fold rd_add (recovered w r) (sd_redelivery_controller d)\<rparr>" by blast
  note w' = eq(3)
  have mem: "shared_wf w d'" "members d' = members d - {r}" "r \<in> members d"
    using shared_wf_remove [OF wf r, of d'] by (simp_all add: d')
  have rd: "rd_inv (sd_redelivery_controller d)" "\<not> rd_block_hashes (sd_redelivery_controller d)"
    using own by (simp_all add: owned_def)
  have pend: "pendings w' r = []" "\<And>x. x \<noteq> r \<Longrightarrow> pendings w' x = pendings w x"
    by (simp_all add: w' pendings_def)
  have ids: "re_message_id ` set (recovered w r) = held w r" by (auto simp: recovered_def held_def image_image case_prod_beta')
  have q: "queued d' = queued d \<union> held w r"
    using fold_rd_add [OF rd, of "recovered w r"] by (auto simp: queued_def d' ids)
  have "owned w' d'"
    by (rule owned_leave [OF own mem(3,2) _ _ q pend(2)]) (use fold_rd_add [OF rd, of "recovered w r"] in \<open>simp_all add: d'\<close>)
  moreover have "permits_agree w' d'"
  proof -
    have "(\<Sum>x \<in> members d - {r}. available_permits (w_consumers w' x)) = (\<Sum>x \<in> members d - {r}. available_permits (w_consumers w x))"
      by (rule sum.cong) (auto simp: w')
    moreover have "wrap_i32 (sd_total_available_permits d - available_permits ?c) = sd_total_available_permits d - available_permits ?c"
      by (rule wrap_i32_id) (use permits total_range in auto)
    moreover have "sd_total_available_permits d =
        wrap_i32 (available_permits ?c + (\<Sum>x \<in> members d - {r}. available_permits (w_consumers w x)))"
      using agree by (simp add: permits_agree_def sum.remove [OF finite_members mem(3)])
    then have "wrap_i32 (sd_total_available_permits d - available_permits ?c) =
        wrap_i32 (\<Sum>x \<in> members d - {r}. available_permits (w_consumers w x))" by simp
    ultimately show ?thesis by (simp add: permits_agree_def mem(2)) (simp add: d')
  qed
  moreover have "shared_wf w' d'" by (rule shared_wf_frame [OF mem(1)]) (auto simp: w' frame_consumers_def same_identity_def)
  moreover have "\<exists>e. btm_get mid (rd_entries (sd_redelivery_controller d')) = Some e \<and> re_redelivery_count e = pa_redelivery_count pa + 1"
    if "btm_get mid (pendings w r) = Some pa" for mid pa
  proof -
    let ?e = "\<lparr>re_message_id = mid, re_redelivery_count = pa_redelivery_count pa + 1, re_sticky_key_hash = None\<rparr>"
    have ok: "btm_ok (pendings w r)" using own mem(3) by (auto simp: owned_def)
    then have e: "?e \<in> set (recovered w r)" using that by (force simp: recovered_def btm_get_Some_iff)
    moreover have "distinct (map re_message_id (recovered w r))"
      using btm_ok_distinct [OF ok] by (simp add: recovered_def comp_def case_prod_beta')
    moreover have "mid \<notin> queued d" using own mem(3) e ids by (fastforce simp: owned_def)
    ultimately show ?thesis using fold_rd_add_get [OF rd, of "recovered w r" ?e] by (simp add: d' queued_def)
  qed
  ultimately show ?thesis using eq(1) mem q pend by (auto simp: shared_inv_def w')
qed

text \<open>Leaving with overdrawn permits. An entry of several messages may take a consumer's permits below
  zero; only a positive count is subtracted from the aggregate when the consumer leaves.\<close>


section \<open>Instances\<close>

text \<open>Two consumers, the second with five permits, and a topic with one message.\<close>

definition demo_dispatcher :: SharedDispatcher where
  "demo_dispatcher = demo_shared\<lparr>sd_total_available_permits := 5\<rparr>"

definition demo_log :: mem where
  "demo_log = snd (mem_append_message mem_new ''t'' (- 1) [7])"

lemma demo_log_wf: "mem_wf demo_log"
proof -
  have "mem_room mem_new ''t''"
    by (simp add: mem_room_def mem_new_def InMemoryManagedLedgerFactory_new_def mem_messages_def
        factory_messages_def u64_cap_def)
  then show ?thesis using mem_wf_append [OF mem_wf_new] by (simp add: demo_log_def mem_append_message_eq)
qed

lemma demo_members: "members demo_dispatcher = {1, 2}"
  by (simp add: members_def demo_dispatcher_def demo_shared_eq)

lemma demo_pendings: "pendings demo_permits r = []"
  by (simp add: pendings_def demo_permits_consumers Consumer_new_with_options_def Let_def PendingAcksMap_new_def)

lemma demo_inv: "shared_inv demo_permits demo_dispatcher"
proof -
  have "sd_redelivery_controller demo_dispatcher = RedeliveryController_new False"
    by (simp add: demo_dispatcher_def demo_shared_eq SharedDispatcher_new_def)
  then have "owned demo_permits demo_dispatcher"
    by (simp add: owned_def rd_inv_new held_def demo_pendings) (simp add: RedeliveryController_new_def)
  moreover have "shared_wf demo_permits demo_dispatcher"
    by (rule shared_wf_frame [OF demo_shared_wf]) (simp_all add: demo_dispatcher_def)
  moreover have "permits_agree demo_permits demo_dispatcher"
    unfolding permits_agree_def demo_members
    by (simp add: demo_permits_consumers Let_def Consumer_new_with_options_def demo_dispatcher_def wrap_i32_id)
  ultimately show ?thesis by (simp add: shared_inv_def)
qed

lemma demo_not_running: "\<not> sd_dispatch_in_progress demo_dispatcher"
  by (simp add: demo_dispatcher_def demo_shared_eq SharedDispatcher_new_def)

lemma demo_queued: "queued demo_dispatcher = {}"
  by (simp add: queued_def demo_dispatcher_def demo_shared_eq SharedDispatcher_new_def RedeliveryController_new_def)

theorem shared_dispatch_keeps_ownership_witness:
  "\<exists>w' d'. shared_dispatch_messages (ref_bx demo_proto) mem_storage demo_log ''t'' ''s'' demo_permits demo_dispatcher =
     Some (Inr (), w', d') \<and> \<not> sd_dispatch_in_progress d'"
  using shared_dispatch_keeps_ownership [OF demo_log_wf demo_inv, of "ref_bx demo_proto" "''t''" "''s''"]
    demo_not_running by auto

theorem shared_dispatch_exhausts_witness:
  "\<exists>w' d'. shared_dispatch_messages (ref_bx demo_proto) mem_storage demo_log ''t'' ''s'' demo_permits demo_dispatcher =
     Some (Inr (), w', d') \<and> (sd_total_available_permits d' \<le> 0 \<or>
     exhausted (mem_get_message_entries demo_log ''t'') (is_acknowledged_inner demo_log ''t'' ''s'') (ref_bx demo_proto) w' d')"
  by (rule shared_dispatch_exhausts [OF demo_log_wf demo_inv demo_not_running]) (simp add: queue_fresh_def demo_queued)

theorem shared_disconnect_recovers_witness:
  "\<exists>w' d'. shared_remove_consumer_with_recovery 2 demo_permits demo_dispatcher = (Some 2, w', d') \<and> members d' = {1}"
proof -
  obtain res w' d' where run: "shared_remove_consumer_with_recovery 2 demo_permits demo_dispatcher = (res, w', d')"
    by (cases "shared_remove_consumer_with_recovery 2 demo_permits demo_dispatcher")
  have "btm_get 2 (sd_consumers demo_dispatcher) = Some 2"
    by (simp add: demo_dispatcher_def demo_shared_eq btm_get_Cons)
  moreover have "available_permits (w_consumers demo_permits 2) = 5" "sd_total_available_permits demo_dispatcher = 5"
    by (simp_all add: demo_permits_consumers Let_def Consumer_new_with_options_def demo_dispatcher_def)
  ultimately show ?thesis using shared_disconnect_recovers [OF demo_inv _ _ _ _ run] run demo_members by auto
qed

text \<open>The first consumer has overdrawn three permits, the second has three.\<close>

definition demo_overdrawn :: "ref_chan world" where
  "demo_overdrawn = upd_consumer 2 (\<lambda>c. c\<lparr>available_permits := 3\<rparr>)
     (upd_consumer 1 (\<lambda>c. c\<lparr>available_permits := - 3\<rparr>) demo_world)"


section \<open>Concurrent triggers\<close>

text \<open>
  Every call of \<open>dispatch_messages\<close> is a thread; its atomic accesses to the two flags are the steps.
  A pass is one step, since it touches neither flag; it succeeds or fails.
\<close>

datatype trigger_pc = Start | Mark | Pass | Failed | Release | Check | Reacquire | Returned

record trigger_state =
  tr_in_progress :: bool
  tr_reschedule :: bool
  tr_pc :: "nat \<Rightarrow> trigger_pc"

inductive trigger_step :: "trigger_state \<Rightarrow> trigger_state \<Rightarrow> bool" where
  enter: "tr_pc \<sigma> t = Start \<Longrightarrow> trigger_step \<sigma>
    (\<sigma>\<lparr>tr_in_progress := True, tr_pc := (tr_pc \<sigma>)(t := if tr_in_progress \<sigma> then Mark else Pass)\<rparr>)"
| mark: "tr_pc \<sigma> t = Mark \<Longrightarrow> trigger_step \<sigma> (\<sigma>\<lparr>tr_reschedule := True, tr_pc := (tr_pc \<sigma>)(t := Returned)\<rparr>)"
| pass_ok: "tr_pc \<sigma> t = Pass \<Longrightarrow> trigger_step \<sigma> (\<sigma>\<lparr>tr_pc := (tr_pc \<sigma>)(t := Release)\<rparr>)"
| pass_err: "tr_pc \<sigma> t = Pass \<Longrightarrow> trigger_step \<sigma> (\<sigma>\<lparr>tr_pc := (tr_pc \<sigma>)(t := Failed)\<rparr>)"
| failed: "tr_pc \<sigma> t = Failed \<Longrightarrow> trigger_step \<sigma> (\<sigma>\<lparr>tr_in_progress := False, tr_pc := (tr_pc \<sigma>)(t := Returned)\<rparr>)"
| release: "tr_pc \<sigma> t = Release \<Longrightarrow> trigger_step \<sigma> (\<sigma>\<lparr>tr_in_progress := False, tr_pc := (tr_pc \<sigma>)(t := Check)\<rparr>)"
| check: "tr_pc \<sigma> t = Check \<Longrightarrow> trigger_step \<sigma>
    (\<sigma>\<lparr>tr_reschedule := False, tr_pc := (tr_pc \<sigma>)(t := if tr_reschedule \<sigma> then Reacquire else Returned)\<rparr>)"
| reacquire: "tr_pc \<sigma> t = Reacquire \<Longrightarrow> trigger_step \<sigma>
    (\<sigma>\<lparr>tr_in_progress := True, tr_pc := (tr_pc \<sigma>)(t := if tr_in_progress \<sigma> then Returned else Pass)\<rparr>)"

definition trigger_init :: trigger_state where
  "trigger_init = \<lparr>tr_in_progress = False, tr_reschedule = False, tr_pc = (\<lambda>_. Start)\<rparr>"

fun guard_pc :: "trigger_pc \<Rightarrow> bool" where
  "guard_pc Pass = True"
| "guard_pc Failed = True"
| "guard_pc Release = True"
| "guard_pc _ = False"

definition guard_inv :: "trigger_state \<Rightarrow> bool" where
  "guard_inv \<sigma> \<longleftrightarrow> (tr_in_progress \<sigma> \<longleftrightarrow> (\<exists>t. guard_pc (tr_pc \<sigma> t))) \<and>
     (\<forall>t t'. guard_pc (tr_pc \<sigma> t) \<and> guard_pc (tr_pc \<sigma> t') \<longrightarrow> t = t')"

text \<open>The three ways a step can treat the guard: leave it alone, take it, or give it back.\<close>

lemma guard_keep:
  assumes "guard_inv \<sigma>" "tr_pc \<sigma>' = (tr_pc \<sigma>)(t := p)" "guard_pc p = guard_pc (tr_pc \<sigma> t)"
    "tr_in_progress \<sigma>' = tr_in_progress \<sigma>"
  shows "guard_inv \<sigma>'"
proof -
  have "guard_pc (tr_pc \<sigma>' x) = guard_pc (tr_pc \<sigma> x)" for x using assms(2,3) by simp
  with assms(1,4) show ?thesis by (simp add: guard_inv_def)
qed

lemma guard_take:
  assumes "guard_inv \<sigma>" "tr_pc \<sigma>' = (tr_pc \<sigma>)(t := p)" "guard_pc p" "\<not> tr_in_progress \<sigma>" "tr_in_progress \<sigma>'"
  shows "guard_inv \<sigma>'"
proof -
  have "guard_pc (tr_pc \<sigma>' x) \<longleftrightarrow> x = t" for x using assms by (auto simp: guard_inv_def)
  with assms(5) show ?thesis by (simp add: guard_inv_def)
qed

lemma guard_give:
  assumes "guard_inv \<sigma>" "tr_pc \<sigma>' = (tr_pc \<sigma>)(t := p)" "guard_pc (tr_pc \<sigma> t)" "\<not> guard_pc p" "\<not> tr_in_progress \<sigma>'"
  shows "guard_inv \<sigma>'"
proof -
  have "\<not> guard_pc (tr_pc \<sigma>' x)" for x using assms by (auto simp: guard_inv_def)
  with assms(5) show ?thesis by (simp add: guard_inv_def)
qed

lemma guard_inv_step: "trigger_step \<sigma> \<sigma>' \<Longrightarrow> guard_inv \<sigma> \<Longrightarrow> guard_inv \<sigma>'"
proof (induction rule: trigger_step.induct)
  case (enter \<sigma> t)
  then show ?case by (cases "tr_in_progress \<sigma>") (auto intro: guard_keep guard_take)
next
  case (reacquire \<sigma> t)
  then show ?case by (cases "tr_in_progress \<sigma>") (auto intro: guard_keep guard_take)
qed (auto intro: guard_keep guard_give)

text \<open>C36: However many dispatch triggers run concurrently, at most one of them is in a dispatch pass,
  and the guard flag is set exactly while one holds it.\<close>

theorem dispatch_mutual_exclusion:
  assumes "trigger_step\<^sup>*\<^sup>* trigger_init \<sigma>"
  shows "(\<forall>t t'. tr_pc \<sigma> t = Pass \<and> tr_pc \<sigma> t' = Pass \<longrightarrow> t = t') \<and>
    (tr_in_progress \<sigma> \<longleftrightarrow> (\<exists>t. tr_pc \<sigma> t \<in> {Pass, Failed, Release}))"
proof -
  have "guard_inv \<sigma>" using assms
  proof (induction rule: rtranclp_induct)
    case base
    show ?case by (simp add: guard_inv_def trigger_init_def)
  qed (rule guard_inv_step)
  moreover have "guard_pc p \<longleftrightarrow> p \<in> {Pass, Failed, Release}" for p by (cases p) auto
  ultimately show ?thesis by (simp add: guard_inv_def)
qed

theorem dispatch_mutual_exclusion_witness:
  "\<exists>\<sigma>. trigger_step\<^sup>*\<^sup>* trigger_init \<sigma> \<and> tr_pc \<sigma> 0 = Pass \<and> (\<forall>t. tr_pc \<sigma> t = Pass \<longrightarrow> t = 0)"
proof -
  let ?s = "trigger_init\<lparr>tr_in_progress := True, tr_pc := (tr_pc trigger_init)(0 := Pass)\<rparr>"
  have "trigger_step trigger_init ?s" using enter [of trigger_init 0] by (simp add: trigger_init_def)
  then have run: "trigger_step\<^sup>*\<^sup>* trigger_init ?s" by (rule r_into_rtranclp)
  have "tr_pc ?s 0 = Pass" by simp
  with dispatch_mutual_exclusion [OF run] run show ?thesis by blast
qed

text \<open>A run in which the second trigger finds the guard taken, the first one finishes and finds no
  request, and only then the second one leaves its request.\<close>

text \<open>C37: A dispatch trigger can be lost: there is a run in which a trigger arrives while a dispatch is
  in progress and nobody runs a pass after it. All calls return with the reschedule request still set and
  the guard free.\<close>

theorem dispatch_trigger_lost:
  "\<exists>\<sigma>. trigger_step\<^sup>*\<^sup>* (trigger_init\<lparr>tr_pc := (\<lambda>t. if t < 2 then Start else Returned)\<rparr>) \<sigma> \<and>
     tr_reschedule \<sigma> \<and> \<not> tr_in_progress \<sigma> \<and> (\<forall>t. tr_pc \<sigma> t = Returned)"
proof -
  define pcs where "pcs a b = (\<lambda>t :: nat. if t = 0 then a else if t = 1 then b else Returned)" for a b
  have upd: "(pcs a b)(0 := c) = pcs c b" "(pcs a b)(Suc 0 := c) = pcs a c" for a b c by (auto simp: pcs_def fun_eq_iff)
  have at: "pcs a b 0 = a" "pcs a b (Suc 0) = b" for a b by (simp_all add: pcs_def)
  let ?st = "\<lambda>g f a b. \<lparr>tr_in_progress = g, tr_reschedule = f, tr_pc = pcs a b\<rparr>"
  have s1: "trigger_step (?st False False Start Start) (?st True False Pass Start)"
    using enter [of "?st False False Start Start" 0] by (simp add: upd at)
  have s2: "trigger_step (?st True False Pass Start) (?st True False Pass Mark)"
    using enter [of "?st True False Pass Start" 1] by (simp add: upd at)
  have s3: "trigger_step (?st True False Pass Mark) (?st True False Release Mark)"
    using pass_ok [of "?st True False Pass Mark" 0] by (simp add: upd at)
  have s4: "trigger_step (?st True False Release Mark) (?st False False Check Mark)"
    using release [of "?st True False Release Mark" 0] by (simp add: upd at)
  have s5: "trigger_step (?st False False Check Mark) (?st False False Returned Mark)"
    using check [of "?st False False Check Mark" 0] by (simp add: upd at)
  have s6: "trigger_step (?st False False Returned Mark) (?st False True Returned Returned)"
    using mark [of "?st False False Returned Mark" 1] by (simp add: upd at)
  have "trigger_step\<^sup>*\<^sup>* (?st False False Start Start) (?st False True Returned Returned)"
    using converse_rtranclp_into_rtranclp [of trigger_step] s1 s2 s3 s4 s5 s6 by (metis rtranclp.rtrancl_refl)
  moreover have "trigger_init\<lparr>tr_pc := (\<lambda>t. if t < 2 then Start else Returned)\<rparr> = ?st False False Start Start"
    by (auto simp: trigger_init_def pcs_def less_2_cases_iff)
  ultimately show ?thesis
    by (intro exI [of _ "?st False True Returned Returned"]) (auto simp: pcs_def)
qed

end
