(* ===== verification/PL_SingleActive.thy ===== *)
theory PL_SingleActive
  imports PL_SharedDispatch "HOL-Library.List_Lexorder" "HOL-Library.Char_ord"
begin

text \<open>
  The Exclusive and Failover dispatchers (\<open>broker/dispatcher/exclusive.rs\<close>, \<open>failover.rs\<close>) and the
  read position they rewind to (\<open>single_active.rs\<close>). Both send to one consumer with the same loop: the
  text of the two sources differs only in how the consumer is found, so the loop (\<open>single_turn\<close>,
  \<open>single_batch\<close>, \<open>single_loop\<close>) is modelled once. A consumer name is compared byte by byte.
\<close>

section \<open>The dispatch loop\<close>

text \<open>One iteration over the counter of permits and the read position.\<close>

definition single_turn ::
    "'ch broker_ext \<Rightarrow> 's ManagedLedgerStorage \<Rightarrow> 's \<Rightarrow> string \<Rightarrow> string \<Rightarrow> cref
     \<Rightarrow> 'ch world \<Rightarrow> u32 \<Rightarrow> read_position \<Rightarrow> (turn \<times> 'ch world \<times> u32 \<times> read_position) option" where
  "single_turn bx st s topic sub r w tp rp =
     (case use_permit (w_consumers w r) of
        (False, _) \<Rightarrow> Some (Stop, w, tp, rp)
      | (True, c1) \<Rightarrow>
          let w1 = upd_consumer r (\<lambda>_. c1) w;
              tp1 = tp - 1;
              give_back = upd_consumer r (add_permits 1)
          in
          case next_unacked_candidate st s topic sub rp of
            None \<Rightarrow> None
          | Some (Inl e, rp1) \<Rightarrow> Some (Fail e, w1, tp1, rp1)
          | Some (Inr None, rp1) \<Rightarrow> Some (Stop, give_back w1, tp1 + 1, rp1)
          | Some (Inr (Some c), rp1) \<Rightarrow>
              let batch_count = messages_in_batch (bx_proto bx) (rc_metadata c) in
              (case enqueue_message bx r (rc_message_id c) (rc_metadata c) (rc_payload c) w1 of
                 (True, w2) \<Rightarrow>
                   Some (Next True,
                     upd_consumer r (record_message_dispatched batch_count (length (rc_payload c))) w2,
                     tp1, commit_read_position rp1 (rc_next_position c))
               | (False, w2) \<Rightarrow> Some (Stop, give_back w2, tp1 + 1, rp1)))"

fun single_batch ::
    "'ch broker_ext \<Rightarrow> 's ManagedLedgerStorage \<Rightarrow> 's \<Rightarrow> string \<Rightarrow> string \<Rightarrow> cref \<Rightarrow> nat \<Rightarrow> u32
     \<Rightarrow> 'ch world \<Rightarrow> u32 \<Rightarrow> read_position \<Rightarrow> (u32 result \<times> 'ch world \<times> u32 \<times> read_position) option" where
  "single_batch bx st s topic sub r 0 dispatched w tp rp = Some (Inr dispatched, w, tp, rp)"
| "single_batch bx st s topic sub r (Suc n) dispatched w tp rp =
     (case single_turn bx st s topic sub r w tp rp of
        None \<Rightarrow> None
      | Some (Fail e, w1, tp1, rp1) \<Rightarrow> Some (Inl e, w1, tp1, rp1)
      | Some (Stop, w1, tp1, rp1) \<Rightarrow> Some (Inr dispatched, w1, tp1, rp1)
      | Some (Next _, w1, tp1, rp1) \<Rightarrow>
          single_batch bx st s topic sub r n (dispatched + 1) w1 tp1 rp1)"

partial_function (option) single_loop ::
    "'ch broker_ext \<Rightarrow> 's ManagedLedgerStorage \<Rightarrow> 's \<Rightarrow> string \<Rightarrow> string \<Rightarrow> cref
     \<Rightarrow> 'ch world \<Rightarrow> u32 \<Rightarrow> read_position \<Rightarrow> (unit result \<times> 'ch world \<times> u32 \<times> read_position) option" where
  "single_loop bx st s topic sub r w tp rp =
     (if tp = 0 then Some (Inr (), w, tp, rp)
      else
      case single_batch bx st s topic sub r (unat (min tp DISPATCHER_MAX_ROUND_ROBIN_BATCH_SIZE)) 0 w tp rp of
        None \<Rightarrow> None
      | Some (Inl e, w1, tp1, rp1) \<Rightarrow> Some (Inl e, w1, tp1, rp1)
      | Some (Inr dispatched, w1, tp1, rp1) \<Rightarrow>
          if dispatched = 0 \<or> tp1 = 0 then Some (Inr (), w1, tp1, rp1)
          else single_loop bx st s topic sub r w1 tp1 rp1)"

section \<open>Exclusive\<close>

record ExclusiveDispatcher =
  ed_consumer :: "cref option"
  ed_total_available_permits :: u32
  ed_read_position :: read_position

definition ExclusiveDispatcher_new :: ExclusiveDispatcher where
  "ExclusiveDispatcher_new = \<lparr>ed_consumer = None, ed_total_available_permits = 0, ed_read_position = None\<rparr>"

definition exclusive_is_consumer_connected :: "ExclusiveDispatcher \<Rightarrow> bool" where
  "exclusive_is_consumer_connected d \<longleftrightarrow> ed_consumer d \<noteq> None"

definition exclusive_get_consumers :: "ExclusiveDispatcher \<Rightarrow> cref list" where
  "exclusive_get_consumers d = (case ed_consumer d of None \<Rightarrow> [] | Some r \<Rightarrow> [r])"

definition exclusive_add_consumer :: "cref \<Rightarrow> ExclusiveDispatcher \<Rightarrow> unit result \<times> ExclusiveDispatcher" where
  "exclusive_add_consumer r d =
     (if ed_consumer d \<noteq> None then (Inl (Msg ''Exclusive subscription already has a consumer''), d)
      else (Inr (), d\<lparr>ed_consumer := Some r\<rparr>))"

definition exclusive_remove_consumer ::
    "'ch world \<Rightarrow> u64 \<Rightarrow> ExclusiveDispatcher \<Rightarrow> cref option \<times> ExclusiveDispatcher" where
  "exclusive_remove_consumer w cid d =
     (case ed_consumer d of
        None \<Rightarrow> (None, d)
      | Some r \<Rightarrow> if consumer_id (w_consumers w r) = cid then (Some r, d\<lparr>ed_consumer := None\<rparr>) else (None, d))"

definition exclusive_remove_consumer_with_recovery ::
    "'ch world \<Rightarrow> u64 \<Rightarrow> ExclusiveDispatcher \<Rightarrow> cref option \<times> ExclusiveDispatcher" where
  "exclusive_remove_consumer_with_recovery w cid d = exclusive_remove_consumer w cid d"

definition exclusive_init_read_position :: "read_position \<Rightarrow> ExclusiveDispatcher \<Rightarrow> ExclusiveDispatcher" where
  "exclusive_init_read_position pos d = d\<lparr>ed_read_position := pos\<rparr>"

definition exclusive_consumer_flow ::
    "'ch world \<Rightarrow> u64 \<Rightarrow> u32 \<Rightarrow> ExclusiveDispatcher \<Rightarrow> ExclusiveDispatcher" where
  "exclusive_consumer_flow w cid n d =
     (case ed_consumer d of
        None \<Rightarrow> d
      | Some r \<Rightarrow>
          if consumer_id (w_consumers w r) = cid
          then d\<lparr>ed_total_available_permits := ed_total_available_permits d + n\<rparr> else d)"

definition exclusive_dispatch_messages ::
    "'ch broker_ext \<Rightarrow> 's ManagedLedgerStorage \<Rightarrow> 's \<Rightarrow> string \<Rightarrow> string
     \<Rightarrow> 'ch world \<Rightarrow> ExclusiveDispatcher \<Rightarrow> (unit result \<times> 'ch world \<times> ExclusiveDispatcher) option" where
  "exclusive_dispatch_messages bx st s topic sub w d =
     (case ed_consumer d of
        None \<Rightarrow> Some (Inr (), w, d)
      | Some r \<Rightarrow>
          (case single_loop bx st s topic sub r w (ed_total_available_permits d) (ed_read_position d) of
             None \<Rightarrow> None
           | Some (res, w1, tp, rp) \<Rightarrow>
               Some (res, w1, d\<lparr>ed_total_available_permits := tp, ed_read_position := rp\<rparr>)))"

section \<open>Failover\<close>

record FailoverDispatcher =
  fd_consumers :: "cref list"
  fd_active_consumer_id :: "u64 option"
  fd_total_available_permits :: u32
  fd_read_position :: read_position

definition FailoverDispatcher_new :: FailoverDispatcher where
  "FailoverDispatcher_new = \<lparr>fd_consumers = [], fd_active_consumer_id = None, fd_total_available_permits = 0,
     fd_read_position = None\<rparr>"

definition failover_find :: "'ch world \<Rightarrow> u64 \<Rightarrow> cref list \<Rightarrow> cref option" where
  "failover_find w cid rs = find (\<lambda>r. consumer_id (w_consumers w r) = cid) rs"

definition get_active_consumer :: "'ch world \<Rightarrow> FailoverDispatcher \<Rightarrow> cref option" where
  "get_active_consumer w d =
     (case fd_active_consumer_id d of None \<Rightarrow> None | Some cid \<Rightarrow> failover_find w cid (fd_consumers d))"

text \<open>The sort order: larger priority level first, then the name, then the id.\<close>

definition failover_key :: "Consumer \<Rightarrow> i32 \<times> string \<times> u64" where
  "failover_key c = (- priority_level c, consumer_name c, consumer_id c)"

definition sort_consumers :: "'ch world \<Rightarrow> FailoverDispatcher \<Rightarrow> FailoverDispatcher" where
  "sort_consumers w d = d\<lparr>fd_consumers := sort_key (\<lambda>r. failover_key (w_consumers w r)) (fd_consumers d)\<rparr>"

definition select_active_consumer_id :: "'ch world \<Rightarrow> FailoverDispatcher \<Rightarrow> u64 option" where
  "select_active_consumer_id w d =
     (case fd_consumers d of [] \<Rightarrow> None | r # _ \<Rightarrow> Some (consumer_id (w_consumers w r)))"

definition notify_active_consumer_changed :: "u64 \<Rightarrow> FailoverDispatcher \<Rightarrow> 'ch world \<Rightarrow> 'ch world" where
  "notify_active_consumer_changed cid d w = fold (\<lambda>r. upd_consumer r (notify_active_consumer_change cid)) (fd_consumers d) w"

definition failover_clear_active_consumer :: "FailoverDispatcher \<Rightarrow> 'ch world \<Rightarrow> 'ch world" where
  "failover_clear_active_consumer d w = fold (\<lambda>r. upd_consumer r clear_active_consumer) (fd_consumers d) w"

definition sync_total_available_permits :: "'ch world \<Rightarrow> FailoverDispatcher \<Rightarrow> FailoverDispatcher" where
  "sync_total_available_permits w d =
     d\<lparr>fd_total_available_permits :=
        (case get_active_consumer w d of Some r \<Rightarrow> available_permits_now (w_consumers w r) | None \<Rightarrow> 0)\<rparr>"

definition pick_and_schedule_active_consumer ::
    "'ch world \<Rightarrow> FailoverDispatcher \<Rightarrow> bool \<times> 'ch world \<times> FailoverDispatcher" where
  "pick_and_schedule_active_consumer w d =
     (let selected = select_active_consumer_id w d in
      if selected = fd_active_consumer_id d then (False, w, sync_total_available_permits w d)
      else
      let d1 = d\<lparr>fd_active_consumer_id := selected\<rparr>;
          w1 = (case selected of
                  Some cid \<Rightarrow> notify_active_consumer_changed cid d1 w
                | None \<Rightarrow> failover_clear_active_consumer d1 w)
      in (True, w1, sync_total_available_permits w1 d1))"

definition failover_add_consumer ::
    "cref \<Rightarrow> 'ch world \<Rightarrow> FailoverDispatcher \<Rightarrow> unit result \<times> 'ch world \<times> FailoverDispatcher" where
  "failover_add_consumer r w d =
     (if list_ex (\<lambda>r'. consumer_id (w_consumers w r') = consumer_id (w_consumers w r)) (fd_consumers d)
      then (Inl (Msg ''Consumer already exists''), w, d)
      else
      let d1 = sort_consumers w (d\<lparr>fd_consumers := fd_consumers d @ [r]\<rparr>);
          (changed, w2, d2) = pick_and_schedule_active_consumer w d1
      in (Inr (),
          (if changed then w2
           else case fd_active_consumer_id d2 of
                  Some cid \<Rightarrow> upd_consumer r (notify_active_consumer_change cid) w2
                | None \<Rightarrow> w2),
          d2))"

definition failover_remove_consumer ::
    "u64 \<Rightarrow> 'ch world \<Rightarrow> FailoverDispatcher \<Rightarrow> cref option \<times> 'ch world \<times> FailoverDispatcher" where
  "failover_remove_consumer cid w d =
     (case index_where (\<lambda>r. consumer_id (w_consumers w r) = cid) (fd_consumers d) 0 of
        None \<Rightarrow> (None, w, d)
      | Some i \<Rightarrow>
          let removed = fd_consumers d ! i;
              d1 = sort_consumers w (d\<lparr>fd_consumers := take i (fd_consumers d) @ drop (Suc i) (fd_consumers d)\<rparr>)
          in
          if fd_consumers d1 = []
          then (Some removed, upd_consumer removed clear_active_consumer w,
                d1\<lparr>fd_active_consumer_id := None, fd_total_available_permits := 0\<rparr>)
          else case pick_and_schedule_active_consumer w d1 of (_, w2, d2) \<Rightarrow> (Some removed, w2, d2))"

definition failover_init_read_position :: "read_position \<Rightarrow> FailoverDispatcher \<Rightarrow> FailoverDispatcher" where
  "failover_init_read_position pos d = d\<lparr>fd_read_position := pos\<rparr>"

text \<open>\<open>single_active.rs\<close>: a storage error counts as no unacknowledged position.\<close>

definition rewind_read_position ::
    "'s ManagedLedgerStorage \<Rightarrow> 's \<Rightarrow> string \<Rightarrow> string \<Rightarrow> ManagedLedgerPosition list \<Rightarrow> read_position" where
  "rewind_read_position st s topic sub pending =
     (let first_unacked = (case first_unacked_position st s topic sub of Inr fu \<Rightarrow> fu | Inl _ \<Rightarrow> None);
          first_pending = (case pending of [] \<Rightarrow> None | p # ps \<Rightarrow> Some (fold min ps p))
      in case (first_unacked, first_pending) of
           (Some u, Some p) \<Rightarrow> Some (min u p)
         | (Some u, None) \<Rightarrow> Some u
         | (None, Some p) \<Rightarrow> Some p
         | (None, None) \<Rightarrow> None)"

text \<open>What the active consumer had not acknowledged, taken from it when it leaves.\<close>

definition failover_take_pending ::
    "u64 \<Rightarrow> 'ch world \<Rightarrow> FailoverDispatcher \<Rightarrow> ManagedLedgerPosition list \<times> 'ch world" where
  "failover_take_pending cid w d =
     (case failover_find w cid (fd_consumers d) of
        Some r \<Rightarrow>
          (case drain_pending_acks (close_pending_acks (w_consumers w r)) of
             (l, c) \<Rightarrow> (map (\<lambda>(mid, _). position_of mid) l, upd_consumer r (\<lambda>_. c) w))
      | None \<Rightarrow> ([], w))"

definition failover_remove_consumer_with_recovery ::
    "'s ManagedLedgerStorage \<Rightarrow> 's \<Rightarrow> string \<Rightarrow> string \<Rightarrow> u64 \<Rightarrow> 'ch world \<Rightarrow> FailoverDispatcher
     \<Rightarrow> cref option \<times> 'ch world \<times> FailoverDispatcher" where
  "failover_remove_consumer_with_recovery st s topic sub cid w d =
     (let removing_active = (fd_active_consumer_id d = Some cid);
          (pending, w1) = (if removing_active then failover_take_pending cid w d else ([], w));
          d1 = (if removing_active
                then failover_init_read_position (rewind_read_position st s topic sub pending) d else d);
          (removed, w2, d2) = failover_remove_consumer cid w1 d1
      in case removed of
           None \<Rightarrow> (None, w2, d2)
         | Some r \<Rightarrow>
             (case pick_and_schedule_active_consumer w2 (sort_consumers w2 d2) of
                (_, w3, d3) \<Rightarrow> (Some r, w3, d3)))"

definition failover_is_consumer_connected :: "FailoverDispatcher \<Rightarrow> bool" where
  "failover_is_consumer_connected d \<longleftrightarrow> fd_consumers d \<noteq> []"

definition failover_consumer_flow :: "u64 \<Rightarrow> u32 \<Rightarrow> FailoverDispatcher \<Rightarrow> FailoverDispatcher" where
  "failover_consumer_flow cid n d =
     (if fd_active_consumer_id d = Some cid
      then d\<lparr>fd_total_available_permits := fd_total_available_permits d + n\<rparr> else d)"

definition failover_dispatch_messages ::
    "'ch broker_ext \<Rightarrow> 's ManagedLedgerStorage \<Rightarrow> 's \<Rightarrow> string \<Rightarrow> string
     \<Rightarrow> 'ch world \<Rightarrow> FailoverDispatcher \<Rightarrow> (unit result \<times> 'ch world \<times> FailoverDispatcher) option" where
  "failover_dispatch_messages bx st s topic sub w d =
     (case get_active_consumer w d of
        None \<Rightarrow> Some (Inr (), w, d)
      | Some r \<Rightarrow>
          (case single_loop bx st s topic sub r w (fd_total_available_permits d) (fd_read_position d) of
             None \<Rightarrow> None
           | Some (res, w1, tp, rp) \<Rightarrow>
               Some (res, w1, d\<lparr>fd_total_available_permits := tp, fd_read_position := rp\<rparr>)))"

section \<open>Messages are sent in order\<close>

text \<open>What a consumer is handed for an entry of the log.\<close>

definition delivery :: "'ch broker_ext \<Rightarrow> Consumer \<Rightarrow> StoredMessage \<Rightarrow> u64 \<times> PendingMessage" where
  "delivery bx c m = (consumer_id c, pending_message bx c (sm_message_id m) (sm_metadata m) (sm_payload m) 0)"

lemma delivery_cong: "same_identity c c' \<Longrightarrow> delivery bx c' m = delivery bx c m"
  by (simp add: delivery_def pending_message_def same_identity_def)

definition unacked :: "(MessageId \<Rightarrow> bool) \<Rightarrow> StoredMessage list \<Rightarrow> StoredMessage list" where
  "unacked A l = filter (\<lambda>m. \<not> A (sm_message_id m)) l"

lemma unacked_simps [simp]:
  "unacked A [] = []"
  "unacked A (m # l) = (if A (sm_message_id m) then unacked A l else m # unacked A l)"
  "unacked A (l @ l') = unacked A l @ unacked A l'"
  by (simp_all add: unacked_def)

lemma unacked_Nil: "\<forall>m \<in> set l. A (sm_message_id m) \<Longrightarrow> unacked A l = []"
  by (simp add: unacked_def filter_empty_conv)

text \<open>What a reader at a read position still has to send.\<close>

definition to_send :: "StoredMessage list \<Rightarrow> (MessageId \<Rightarrow> bool) \<Rightarrow> read_position \<Rightarrow> StoredMessage list" where
  "to_send l A rp = unacked A (to_read l rp)"

text \<open>Why the loop pauses.\<close>

definition paused :: "'ch broker_ext \<Rightarrow> cref \<Rightarrow> 'ch world \<Rightarrow> StoredMessage list \<Rightarrow> bool" where
  "paused bx r w rest \<longleftrightarrow> available_permits (w_consumers w r) \<le> 0 \<or> rest = [] \<or> blocked bx w r"

lemma use_permit_facts:
  assumes "use_permit (w_consumers w r) = (True, c1)"
  defines "w1 \<equiv> upd_consumer r (\<lambda>_. c1) w"
  shows "frame_consumers w w1" "w_connections w1 = w_connections w" "channel_of w1 r = channel_of w r"
  using assms by (auto simp: use_permit_def frame_consumers_def same_identity_def channel_of_def split: if_splits)

text \<open>The world after an attempt to send that failed: nothing was handed over.\<close>

lemma send_failed_channel:
  assumes "send_message_with_sticky_hash bx r mid md pl rc h w = (False, w')"
  shows "w_connections w' = w_connections w" "channel_of w' r = channel_of w r" "blocked bx w' r"
proof -
  show conn: "w_connections w' = w_connections w" "channel_of w' r = channel_of w r"
    using assms by (cases rule: send_message_cases; simp add: channel_of_def)+
  show "blocked bx w' r"
    by (rule blocked_cong [OF send_message_failed [OF assms] conn(1)])
       (use assms in \<open>cases rule: send_message_cases; simp\<close>)+
qed

lemma fold_min_le: "y = x \<or> y \<in> set xs \<Longrightarrow> fold min xs x \<le> (y :: 'a :: linorder)"
proof (induction xs arbitrary: x y)
  case (Cons z zs)
  have "fold min zs (min z x) \<le> z" "fold min zs (min z x) \<le> x"
    using Cons.IH [of "min z x" "min z x"] by auto
  with Cons show ?case by auto
qed auto

context storage_reads
begin

lemma single_turn_ok:
  assumes s: "inv s" and laws: "chan_laws bx sent"
  shows "\<exists>t w' tp' rp'. single_turn bx st s topic sub r w tp rp = Some (t, w', tp', rp') \<and> frame_consumers w w' \<and>
    (case t of
       Next b \<Rightarrow> b \<and> (\<exists>m. to_send (log s topic) (ackd s topic sub) rp = m # to_send (log s topic) (ackd s topic sub) rp' \<and>
         sent (channel_of w' r) = sent (channel_of w r) @ [delivery bx (w_consumers w r) m]) \<and>
         length (to_read (log s topic) rp') < length (to_read (log s topic) rp) \<and> tp' = tp - 1
     | Stop \<Rightarrow> to_send (log s topic) (ackd s topic sub) rp' = to_send (log s topic) (ackd s topic sub) rp \<and> channel_of w' r = channel_of w r \<and> tp' = tp \<and> paused bx r w' (to_send (log s topic) (ackd s topic sub) rp')
     | Fail e \<Rightarrow> False)"
proof (cases "0 < available_permits (w_consumers w r)")
  case False
  then have "single_turn bx st s topic sub r w tp rp = Some (Stop, w, tp, rp)"
    by (simp add: single_turn_def use_permit_def)
  with False show ?thesis by (auto simp: paused_def)
next
  case True
  let ?l = "log s topic" and ?A = "ackd s topic sub"
  let ?U = "to_send ?l ?A"
  obtain c1 where use: "use_permit (w_consumers w r) = (True, c1)" using True by (simp add: use_permit_def)
  define w1 where "w1 = upd_consumer r (\<lambda>_. c1) w"
  note charged = use_permit_facts [OF use, folded w1_def]
  from next_candidate [OF s, of topic sub rp] obtain q c pre where
    run: "next_unacked_candidate st s topic sub rp = Some (Inr c, q)" and
    pre: "to_read ?l rp = pre @ to_read ?l q" "\<forall>m \<in> set pre. ?A (sm_message_id m)" and
    c: "case c of
       None \<Rightarrow> \<forall>m \<in> set (to_read ?l q). ?A (sm_message_id m)
     | Some c \<Rightarrow> \<exists>m np ms. to_read ?l q = m # ms \<and> c = candidate_of m np \<and> \<not> ?A (sm_message_id m) \<and>
         log_from ?l np = ms" by blast
  have U: "?U rp = ?U q" by (simp add: to_send_def pre unacked_Nil [OF pre(2)])
  note eqs = single_turn_def use run Let_def w1_def [symmetric]
  show ?thesis
  proof (cases c)
    case None
    let ?w2 = "upd_consumer r (add_permits 1) w1"
    have "?U q = []" using c None by (simp add: to_send_def unacked_Nil)
    moreover have "single_turn bx st s topic sub r w tp rp = Some (Stop, ?w2, tp, q)" by (simp add: eqs None)
    moreover have "frame_consumers w ?w2" by (rule frame_consumers_trans [OF charged(1)]) auto
    moreover have "channel_of ?w2 r = channel_of w1 r" by (simp add: channel_of_def add_permits_def)
    ultimately show ?thesis using U charged(3) by (simp add: paused_def)
  next
    case (Some cand)
    then obtain m np where m: "to_read ?l q = m # log_from ?l np" "cand = candidate_of m np" "\<not> ?A (sm_message_id m)"
      using c by auto
    have Um: "?U rp = m # ?U (Some np)" using U m by (simp add: to_send_def)
    obtain ok w2 where send: "send_message_with_sticky_hash bx r (sm_message_id m) (sm_metadata m) (sm_payload m) 0 None w1 = (ok, w2)"
      by fastforce
    note frame2 = frame_consumers_trans [OF charged(1) send_message_frame(1) [OF send]]
    show ?thesis
    proof (cases ok)
      case True
      let ?w3 = "upd_consumer r (record_message_dispatched (messages_in_batch (bx_proto bx) (sm_metadata m)) (length (sm_payload m))) w2"
      have "sent (channel_of w2 r) = sent (channel_of w1 r) @ [delivery bx (w_consumers w1 r) m]"
        using send
      proof (cases rule: send_message_cases)
        case (Sent ch)
        with laws show ?thesis by (simp add: channel_of_upd_channel chan_laws_def delivery_def)
      qed (use True in auto)
      moreover have "delivery bx (w_consumers w1 r) m = delivery bx (w_consumers w r) m"
        using charged(1) by (intro delivery_cong) (simp add: frame_consumers_def)
      moreover have "channel_of ?w3 r = channel_of w2 r" by (simp add: channel_of_def record_message_dispatched_def)
      moreover have "single_turn bx st s topic sub r w tp rp = Some (Next True, ?w3, tp - 1, Some np)"
        using send True by (simp add: eqs Some m(2) candidate_of_def enqueue_message_def send_message_def commit_read_position_def)
      moreover have "frame_consumers w ?w3" by (rule frame_consumers_trans [OF frame2]) auto
      moreover have "length (to_read ?l (Some np)) < length (to_read ?l rp)" by (simp add: pre(1) m(1))
      ultimately show ?thesis using Um charged(3) by auto
    next
      case False
      let ?w3 = "upd_consumer r (add_permits 1) w2"
      note failed = send_failed_channel [OF send [unfolded False [THEN Eq_FalseI]]]
      have "single_turn bx st s topic sub r w tp rp = Some (Stop, ?w3, tp, q)"
        using send False by (simp add: eqs Some m(2) candidate_of_def enqueue_message_def send_message_def)
      moreover have "frame_consumers w ?w3" by (rule frame_consumers_trans [OF frame2]) auto
      moreover have "channel_of ?w3 r = channel_of w r" "blocked bx ?w3 r"
        using failed charged(3) by (auto simp: channel_of_def add_permits_def intro: blocked_cong [OF failed(3)])
      ultimately show ?thesis using U by (simp add: paused_def)
    qed
  qed
qed

lemma single_batch_ok:
  assumes s: "inv s" and laws: "chan_laws bx sent"
  shows "\<exists>k w' tp' rp'. single_batch bx st s topic sub r n d w tp rp = Some (Inr (d + of_nat k), w', tp', rp') \<and>
    k \<le> n \<and> k \<le> length (to_send (log s topic) (ackd s topic sub) rp) \<and> frame_consumers w w' \<and>
    sent (channel_of w' r) = sent (channel_of w r) @
      map (delivery bx (w_consumers w r)) (take k (to_send (log s topic) (ackd s topic sub) rp)) \<and>
    to_send (log s topic) (ackd s topic sub) rp' = drop k (to_send (log s topic) (ackd s topic sub) rp) \<and>
    tp' = tp - of_nat k \<and>
    (k < n \<longrightarrow> paused bx r w' (to_send (log s topic) (ackd s topic sub) rp'))"
proof (induction n arbitrary: d w tp rp)
  case 0
  then show ?case by simp
next
  case (Suc n)
  let ?U = "to_send (log s topic) (ackd s topic sub)"
  from single_turn_ok [OF s laws, of topic sub r w tp rp] obtain t w1 tp1 rp1 where
    turn: "single_turn bx st s topic sub r w tp rp = Some (t, w1, tp1, rp1)" and frame: "frame_consumers w w1" and
    eff: "case t of
       Next b \<Rightarrow> b \<and> (\<exists>m. ?U rp = m # ?U rp1 \<and>
         sent (channel_of w1 r) = sent (channel_of w r) @ [delivery bx (w_consumers w r) m]) \<and>
         length (to_read (log s topic) rp1) < length (to_read (log s topic) rp) \<and> tp1 = tp - 1
     | Stop \<Rightarrow> ?U rp1 = ?U rp \<and> channel_of w1 r = channel_of w r \<and> tp1 = tp \<and> paused bx r w1 (?U rp1)
     | Fail e \<Rightarrow> False" by blast
  show ?case
  proof (cases t)
    case (Next b)
    then obtain m where m: "?U rp = m # ?U rp1"
      "sent (channel_of w1 r) = sent (channel_of w r) @ [delivery bx (w_consumers w r) m]"
      "length (to_read (log s topic) rp1) < length (to_read (log s topic) rp)" "tp1 = tp - 1"
      using eff by auto
    from Suc.IH [of "d + 1" w1 tp1 rp1] obtain k w' tp' rp' where
      k: "single_batch bx st s topic sub r n (d + 1) w1 tp1 rp1 = Some (Inr (d + 1 + of_nat k), w', tp', rp')"
        "k \<le> n" "k \<le> length (?U rp1)" "frame_consumers w1 w'"
        "sent (channel_of w' r) = sent (channel_of w1 r) @ map (delivery bx (w_consumers w1 r)) (take k (?U rp1))"
        "?U rp' = drop k (?U rp1)" "tp' = tp1 - of_nat k"
        "k < n \<longrightarrow> paused bx r w' (?U rp')" by blast
    have "delivery bx (w_consumers w1 r) = delivery bx (w_consumers w r)"
      using frame by (intro ext delivery_cong) (simp add: frame_consumers_def)
    moreover have "single_batch bx st s topic sub r (Suc n) d w tp rp = Some (Inr (d + of_nat (Suc k)), w', tp', rp')"
      using turn Next k(1) by (simp add: add.assoc)
    moreover have "tp' = tp - of_nat (Suc k)" using k(7) m(4) by simp
    ultimately show ?thesis using k(2-6,8) m(1,2) frame_consumers_trans [OF frame k(4)]
      by (intro exI [of _ "Suc k"] exI [of _ w'] exI [of _ tp'] exI [of _ rp']) simp
  next
    case Stop
    with turn eff frame show ?thesis
      by (intro exI [of _ "0::nat"] exI [of _ w1] exI [of _ tp1] exI [of _ rp1]) auto
  next
    case (Fail e)
    with eff show ?thesis by simp
  qed
qed

text \<open>
  The whole loop returns. It sends a prefix of what there is to send, in the order of the log, one permit each, and
  stops when the dispatcher has no permit left or the consumer pauses.
\<close>

lemma single_loop_ok:
  assumes s: "inv s" and laws: "chan_laws bx sent"
  shows "\<exists>k w' rp'. single_loop bx st s topic sub r w tp rp = Some (Inr (), w', tp - of_nat k, rp') \<and>
    k \<le> length (to_send (log s topic) (ackd s topic sub) rp) \<and> k \<le> unat tp \<and> frame_consumers w w' \<and>
    sent (channel_of w' r) = sent (channel_of w r) @
      map (delivery bx (w_consumers w r)) (take k (to_send (log s topic) (ackd s topic sub) rp)) \<and>
    to_send (log s topic) (ackd s topic sub) rp' = drop k (to_send (log s topic) (ackd s topic sub) rp) \<and>
    (k = unat tp \<or> paused bx r w' (to_send (log s topic) (ackd s topic sub) rp'))"
proof (induction "length (to_send (log s topic) (ackd s topic sub) rp)" arbitrary: w tp rp rule: less_induct)
  case less
  let ?U = "to_send (log s topic) (ackd s topic sub)"
  let ?n = "unat (min tp DISPATCHER_MAX_ROUND_ROBIN_BATCH_SIZE)"
  show ?case
  proof (cases "tp = 0")
    case True
    then show ?thesis by (auto simp: single_loop.simps intro!: exI [of _ "0::nat"])
  next
    case False
    have n: "?n \<le> unat tp" "0 < ?n" "?n < 2 ^ 32"
      using False by (auto simp: min_def DISPATCHER_MAX_ROUND_ROBIN_BATCH_SIZE_def unat_gt_0 word_le_nat_alt)
    from single_batch_ok [OF s laws, of topic sub r ?n 0 w tp rp] obtain k w1 rp1 where
      b: "single_batch bx st s topic sub r ?n 0 w tp rp = Some (Inr (of_nat k), w1, tp - of_nat k, rp1)"
        "k \<le> ?n" "k \<le> length (?U rp)" "frame_consumers w w1"
        "sent (channel_of w1 r) = sent (channel_of w r) @ map (delivery bx (w_consumers w r)) (take k (?U rp))"
        "?U rp1 = drop k (?U rp)" "k < ?n \<longrightarrow> paused bx r w1 (?U rp1)" by auto
    have k: "k < 2 ^ 32" "k \<le> unat tp" using b(2) n by linarith+
    then have tp1: "unat (tp - of_nat k) = unat tp - k"
      by (simp add: unat_sub word_le_nat_alt unat_of_nat take_bit_nat_eq_self)
    have zero: "(of_nat k = (0 :: u32)) = (k = 0)"
      using k(1) by (simp add: word_unat_eq_iff unat_of_nat)
    show ?thesis
    proof (cases "k = 0 \<or> k = unat tp")
      case True
      then have "single_loop bx st s topic sub r w tp rp = Some (Inr (), w1, tp - of_nat k, rp1)"
        using False b(1) zero tp1 by (auto simp: single_loop.simps [of _ _ _ _ _ _ w])
      with b n(2) True k(2) show ?thesis by (intro exI [of _ k] exI [of _ w1] exI [of _ rp1]) auto
    next
      case notdone: False
      then have "tp - of_nat k \<noteq> 0" using tp1 k(2) by (metis unat_0 diff_is_0_eq le_antisym)
      with notdone have step: "single_loop bx st s topic sub r w tp rp = single_loop bx st s topic sub r w1 (tp - of_nat k) rp1"
        using False b(1) zero by (simp add: single_loop.simps [of _ _ _ _ _ _ w])
      have "length (?U rp1) < length (?U rp)" using b(3,6) notdone by auto
      from less [OF this, of w1 "tp - of_nat k"] obtain j w' rp' where
        j: "single_loop bx st s topic sub r w1 (tp - of_nat k) rp1 = Some (Inr (), w', tp - of_nat k - of_nat j, rp')"
          "j \<le> length (?U rp1)" "j \<le> unat tp - k" "frame_consumers w1 w'"
          "sent (channel_of w' r) = sent (channel_of w1 r) @ map (delivery bx (w_consumers w1 r)) (take j (?U rp1))"
          "?U rp' = drop j (?U rp1)" "j = unat tp - k \<or> paused bx r w' (?U rp')" unfolding tp1 by blast
      have "delivery bx (w_consumers w1 r) = delivery bx (w_consumers w r)"
        using b(4) by (intro ext delivery_cong) (simp add: frame_consumers_def)
      then have sent: "sent (channel_of w' r) = sent (channel_of w r) @ map (delivery bx (w_consumers w r)) (take (k + j) (?U rp))"
        using j(5) b(5,6) by (simp add: take_add)
      have "single_loop bx st s topic sub r w tp rp = Some (Inr (), w', tp - of_nat (k + j), rp')"
        using step j(1) by (simp add: diff_diff_eq)
      moreover have "k + j \<le> length (?U rp)" "k + j \<le> unat tp" "?U rp' = drop (k + j) (?U rp)"
        using b(3,6) j(2,3,6) k(2) by (simp_all add: add.commute)
      moreover have "k + j = unat tp \<or> paused bx r w' (?U rp')" using j(7) k(2) by auto
      ultimately show ?thesis using sent frame_consumers_trans [OF b(4) j(4)] by blast
    qed
  qed
qed

text \<open>A read position at or before the first unacknowledged entry leaves out nothing that is unacknowledged.\<close>

lemma to_send_all:
  assumes s: "inv s" and rp: "\<And>p m. rp = Some p \<Longrightarrow>
    find (\<lambda>m. \<not> ackd s topic sub (sm_message_id m)) (log s topic) = Some m \<Longrightarrow> p \<le> position_of (sm_message_id m)"
  shows "to_send (log s topic) (ackd s topic sub) rp = unacked (ackd s topic sub) (log s topic)"
proof (cases rp)
  case (Some p)
  let ?A = "\<lambda>m. ackd s topic sub (sm_message_id m)"
  have "pos_key p \<le> id_key (sm_message_id m)" if m: "m \<in> set (log s topic)" "\<not> ?A m" for m
  proof -
    obtain m0 where m0: "find (\<lambda>m. \<not> ?A m) (log s topic) = Some m0"
      using m by (cases "find (\<lambda>m. \<not> ?A m) (log s topic)") (auto simp: find_None_iff)
    have "pos_key p \<le> id_key (sm_message_id m0)"
      using rp [OF Some m0] by (auto simp: position_order_defs pos_key_def id_key_def)
    also have "id_key (sm_message_id m0) \<le> id_key (sm_message_id m)"
      using find_sorted_least [OF _ m0] log_sorted [OF s, of topic] m by blast
    finally show ?thesis .
  qed
  then show ?thesis using Some
    by (auto simp: to_send_def unacked_def log_from_def intro!: filter_cong)
qed (simp add: to_send_def)

lemma rewind_read_position_ok:
  assumes s: "inv s"
  shows "to_send (log s topic) (ackd s topic sub) (rewind_read_position st s topic sub ps) = unacked (ackd s topic sub) (log s topic)"
    and "p \<in> set ps \<Longrightarrow> \<exists>q. rewind_read_position st s topic sub ps = Some q \<and> q \<le> p"
proof -
  show "to_send (log s topic) (ackd s topic sub) (rewind_read_position st s topic sub ps) = unacked (ackd s topic sub) (log s topic)"
    by (rule to_send_all [OF s])
       (auto simp: rewind_read_position_def first_unacked_law [OF s] split: list.splits)
  show "\<exists>q. rewind_read_position st s topic sub ps = Some q \<and> q \<le> p" if "p \<in> set ps"
    using that unfolding rewind_read_position_def first_unacked_law [OF s]
    by (cases ps) (auto simp: Let_def fold_min_le split: option.splits intro: min.coboundedI2)
qed

end

section \<open>One consumer is active\<close>

text \<open>
  The consumers are distinct and sorted, the first of them is the active one, and every consumer has been told so.
\<close>

definition told :: "'ch world \<Rightarrow> u64 \<Rightarrow> cref \<Rightarrow> bool" where
  "told w a r \<longleftrightarrow> active_consumer_id (w_consumers w r) = sint a \<and>
     (is_active_consumer (w_consumers w r) \<longleftrightarrow> consumer_id (w_consumers w r) = a)"

definition failover_sorted :: "'ch world \<Rightarrow> cref list \<Rightarrow> bool" where
  "failover_sorted w rs \<longleftrightarrow> distinct (map (\<lambda>r. consumer_id (w_consumers w r)) rs) \<and>
     sorted (map (\<lambda>r. failover_key (w_consumers w r)) rs)"

definition failover_wf :: "'ch world \<Rightarrow> FailoverDispatcher \<Rightarrow> bool" where
  "failover_wf w d \<longleftrightarrow> failover_sorted w (fd_consumers d) \<and>
     fd_active_consumer_id d = select_active_consumer_id w d \<and>
     (\<forall>r \<in> set (fd_consumers d). \<forall>a. fd_active_consumer_id d = Some a \<longrightarrow> told w a r)"

text \<open>The permits of the dispatcher are those of the active consumer.\<close>

definition permits_synced :: "'ch world \<Rightarrow> FailoverDispatcher \<Rightarrow> bool" where
  "permits_synced w d \<longleftrightarrow> fd_total_available_permits d =
     (case fd_consumers d of [] \<Rightarrow> 0 | r # _ \<Rightarrow> available_permits_now (w_consumers w r))"

lemma fold_upd_consumer:
  assumes "\<And>c. f (f c) = f c"
  shows "w_consumers (fold (\<lambda>r. upd_consumer r f) rs w) r =
    (if r \<in> set rs then f (w_consumers w r) else w_consumers w r)"
  using assms by (induction rs arbitrary: w) auto

lemma notify_all: "w_consumers (notify_active_consumer_changed a d w) r =
    (if r \<in> set (fd_consumers d) then notify_active_consumer_change a (w_consumers w r) else w_consumers w r)"
  unfolding notify_active_consumer_changed_def
  by (rule fold_upd_consumer) (simp add: notify_active_consumer_change_def)

lemma clear_all: "w_consumers (failover_clear_active_consumer d w) r =
    (if r \<in> set (fd_consumers d) then clear_active_consumer (w_consumers w r) else w_consumers w r)"
  unfolding failover_clear_active_consumer_def
  by (rule fold_upd_consumer) (simp add: clear_active_consumer_def)

lemma same_identity_notify [simp]:
  "same_identity c (notify_active_consumer_change a c)" "same_identity c (clear_active_consumer c)"
  by (simp_all add: same_identity_def notify_active_consumer_change_def clear_active_consumer_def)

lemma failover_sorted_cong:
  "frame_consumers w w' \<Longrightarrow> failover_sorted w' rs \<longleftrightarrow> failover_sorted w rs"
  "frame_consumers w w' \<Longrightarrow> select_active_consumer_id w' d = select_active_consumer_id w d"
  by (auto simp: failover_sorted_def frame_consumers_def same_identity_def failover_key_def select_active_consumer_id_def
      split: list.split)

lemma active_is_head:
  "fd_active_consumer_id d = select_active_consumer_id w d \<Longrightarrow>
   get_active_consumer w d = (case fd_consumers d of [] \<Rightarrow> None | r # _ \<Rightarrow> Some r)"
  by (auto simp: get_active_consumer_def select_active_consumer_id_def failover_find_def split: list.split)

lemma sync_total_sel [simp]:
  "fd_consumers (sync_total_available_permits w d) = fd_consumers d"
  "fd_active_consumer_id (sync_total_available_permits w d) = fd_active_consumer_id d"
  "fd_read_position (sync_total_available_permits w d) = fd_read_position d"
  "fd_total_available_permits (sync_total_available_permits w d) =
     (case get_active_consumer w d of Some r \<Rightarrow> available_permits_now (w_consumers w r) | None \<Rightarrow> 0)"
  "get_active_consumer w (sync_total_available_permits w' d) = get_active_consumer w d"
  by (simp_all add: sync_total_available_permits_def get_active_consumer_def split: option.split)

lemma pick_ok:
  assumes srt: "failover_sorted w (fd_consumers d)"
    and old: "\<forall>r \<in> set (fd_consumers d) - X. \<forall>a. fd_active_consumer_id d = Some a \<longrightarrow> told w a r"
    and run: "pick_and_schedule_active_consumer w d = (changed, w', d')"
  shows "frame_consumers w w'" "fd_consumers d' = fd_consumers d" "fd_read_position d' = fd_read_position d"
    "fd_active_consumer_id d' = select_active_consumer_id w d"
    "changed \<longleftrightarrow> select_active_consumer_id w d \<noteq> fd_active_consumer_id d" "\<not> changed \<Longrightarrow> w' = w"
    "changed \<Longrightarrow> failover_wf w' d'" "X = {} \<Longrightarrow> failover_wf w' d'" "permits_synced w' d'"
proof -
  have notify: "frame_consumers w (notify_active_consumer_changed a d1 w)"
    "frame_consumers w (failover_clear_active_consumer d1 w)" for a d1
    by (auto simp: frame_consumers_def notify_all clear_all)
  show basic: "frame_consumers w w'" "fd_consumers d' = fd_consumers d" "fd_read_position d' = fd_read_position d"
    "fd_active_consumer_id d' = select_active_consumer_id w d"
    "changed \<longleftrightarrow> select_active_consumer_id w d \<noteq> fd_active_consumer_id d" "\<not> changed \<Longrightarrow> w' = w"
    using run notify
    by (auto simp: pick_and_schedule_active_consumer_def Let_def sync_total_available_permits_def
        split: if_splits option.splits)
  have srt': "failover_sorted w' (fd_consumers d')" using srt basic(1,2) by (simp add: failover_sorted_cong)
  have sel: "select_active_consumer_id w' d' = select_active_consumer_id w d"
    using basic(1,2) by (simp add: failover_sorted_cong) (simp add: select_active_consumer_id_def)
  have told: "\<forall>r \<in> set (fd_consumers d') - (if changed then {} else X). \<forall>a. fd_active_consumer_id d' = Some a \<longrightarrow> told w' a r"
  proof (cases changed)
    case True
    then have "w' = notify_active_consumer_changed a d w" if "fd_active_consumer_id d' = Some a" for a
      using run that by (auto simp: pick_and_schedule_active_consumer_def Let_def sync_total_available_permits_def
          notify_active_consumer_changed_def split: if_splits option.splits)
    then show ?thesis using basic(2) by (auto simp: told_def notify_all notify_active_consumer_change_def)
  next
    case False
    then show ?thesis using old basic by auto
  qed
  show "changed \<Longrightarrow> failover_wf w' d'" "X = {} \<Longrightarrow> failover_wf w' d'"
    using told srt' sel basic(4) by (auto simp: failover_wf_def split: if_splits)
  have "\<exists>dx. d' = sync_total_available_permits w' dx"
    using run by (auto simp: pick_and_schedule_active_consumer_def Let_def split: if_splits)
  then have "fd_total_available_permits d' =
      (case get_active_consumer w' d' of Some r \<Rightarrow> available_permits_now (w_consumers w' r) | None \<Rightarrow> 0)"
    by auto
  then show "permits_synced w' d'"
    using active_is_head [of d' w'] sel basic(4) by (auto simp: permits_synced_def split: list.splits)
qed

lemma sort_consumers_sel [simp]:
  "fd_active_consumer_id (sort_consumers w d) = fd_active_consumer_id d"
  "fd_read_position (sort_consumers w d) = fd_read_position d"
  "set (fd_consumers (sort_consumers w d)) = set (fd_consumers d)"
  by (simp_all add: sort_consumers_def)

lemma sort_consumers_sorted:
  "distinct (map (\<lambda>r. consumer_id (w_consumers w r)) (fd_consumers d)) \<Longrightarrow>
   failover_sorted w (fd_consumers (sort_consumers w d))"
  by (simp add: failover_sorted_def sort_consumers_def distinct_map)

lemma sort_consumers_idem: "failover_sorted w (fd_consumers d) \<Longrightarrow> sort_consumers w d = d"
  by (simp add: failover_sorted_def sort_consumers_def sorted_sort_id sort_key_id_if_sorted)

lemma failover_add_ok:
  assumes wf: "failover_wf w d" and run: "failover_add_consumer r w d = (Inr (), w', d')"
  shows "failover_wf w' d'" "permits_synced w' d'" "set (fd_consumers d') = insert r (set (fd_consumers d))"
    "fd_read_position d' = fd_read_position d" "frame_consumers w w'"
proof -
  let ?d1 = "sort_consumers w (d\<lparr>fd_consumers := fd_consumers d @ [r]\<rparr>)"
  have new: "\<not> list_ex (\<lambda>r'. consumer_id (w_consumers w r') = consumer_id (w_consumers w r)) (fd_consumers d)"
    using run by (auto simp: failover_add_consumer_def split: if_splits)
  then have srt: "failover_sorted w (fd_consumers ?d1)"
    using wf by (intro sort_consumers_sorted) (auto simp: failover_wf_def failover_sorted_def list_ex_iff)
  obtain changed w2 d2 where pick: "pick_and_schedule_active_consumer w ?d1 = (changed, w2, d2)"
    by (metis prod_cases3)
  have old: "\<forall>r' \<in> set (fd_consumers ?d1) - {r}. \<forall>a. fd_active_consumer_id ?d1 = Some a \<longrightarrow> told w a r'"
    using wf by (auto simp: failover_wf_def)
  note picked = pick_ok [OF srt old pick]
  have p: "frame_consumers w w2" "fd_consumers d2 = fd_consumers ?d1" "fd_read_position d2 = fd_read_position d"
    "changed \<Longrightarrow> failover_wf w2 d2" "permits_synced w2 d2" "fd_active_consumer_id d2 = select_active_consumer_id w ?d1"
    "\<not> changed \<Longrightarrow> w2 = w \<and> fd_active_consumer_id d2 = fd_active_consumer_id d"
    using picked(1-4,7,9) picked(5,6) by auto
  have d': "d' = d2" and w': "w' = (if changed then w2
      else case fd_active_consumer_id d2 of Some a \<Rightarrow> upd_consumer r (notify_active_consumer_change a) w2 | None \<Rightarrow> w2)"
    using run new pick by (auto simp: failover_add_consumer_def Let_def)
  show mem: "set (fd_consumers d') = insert r (set (fd_consumers d))" and "fd_read_position d' = fd_read_position d"
    using p(2,3) d' by auto
  have "frame_consumers w2 (upd_consumer r (notify_active_consumer_change a) w2)" for a by auto
  then show frame: "frame_consumers w w'" using p(1) w' frame_consumers_trans [OF p(1)] by (auto split: option.split)
  have sel: "select_active_consumer_id w' d2 = fd_active_consumer_id d2"
    using p(2,6) failover_sorted_cong(2) [OF frame, of d2] by (simp add: select_active_consumer_id_def)
  have "told w' a r'" if "\<not> changed" "fd_active_consumer_id d2 = Some a" "r' \<in> set (fd_consumers d2)" for a r'
  proof -
    have "w' = upd_consumer r (notify_active_consumer_change a) w" using that(1,2) w' p(7) by simp
    moreover have "r' \<noteq> r \<Longrightarrow> told w a r'" using that p(7) mem d' wf by (auto simp: failover_wf_def)
    ultimately show ?thesis by (auto simp: told_def notify_active_consumer_change_def)
  qed
  moreover have "failover_sorted w' (fd_consumers d2)"
    using srt p(2) frame by (simp add: failover_sorted_cong)
  ultimately have "\<not> changed \<Longrightarrow> failover_wf w' d2" using sel by (simp add: failover_wf_def)
  then show "failover_wf w' d'" using p(4) w' d' by (cases changed) auto
  show "permits_synced w' d'" using p(5) w' d'
    by (auto simp: permits_synced_def available_permits_now_def notify_active_consumer_change_def
        split: option.splits list.splits)
qed

lemma failover_wf_cong:
  assumes "frame_consumers w w'" "\<And>r. active_consumer_id (w_consumers w' r) = active_consumer_id (w_consumers w r)"
    "\<And>r. is_active_consumer (w_consumers w' r) = is_active_consumer (w_consumers w r)"
    "fd_consumers d' = fd_consumers d" "fd_active_consumer_id d' = fd_active_consumer_id d"
  shows "failover_wf w' d' \<longleftrightarrow> failover_wf w d"
proof -
  have "told w' a r \<longleftrightarrow> told w a r" for a r
    using assms(1-3) by (simp add: told_def frame_consumers_def same_identity_def)
  moreover have "select_active_consumer_id w' d' = select_active_consumer_id w d"
    using failover_sorted_cong(2) [OF assms(1), of d'] assms(4) by (simp add: select_active_consumer_id_def)
  ultimately show ?thesis
    using assms(4,5) by (simp add: failover_wf_def failover_sorted_cong(1) [OF assms(1)])
qed

text \<open>Choosing again when nothing has changed.\<close>

lemma pick_again:
  assumes "failover_wf w d" "pick_and_schedule_active_consumer w (sort_consumers w d) = (changed, w', d')"
  shows "failover_wf w' d'" "permits_synced w' d'" "fd_consumers d' = fd_consumers d"
    "fd_read_position d' = fd_read_position d" "w' = w"
proof -
  have srt: "failover_sorted w (fd_consumers d)" using assms(1) by (simp add: failover_wf_def)
  have told: "\<forall>r \<in> set (fd_consumers d) - {}. \<forall>a. fd_active_consumer_id d = Some a \<longrightarrow> told w a r"
    and active: "select_active_consumer_id w d = fd_active_consumer_id d"
    using assms(1) by (simp_all add: failover_wf_def)
  note p = pick_ok [OF srt told assms(2) [unfolded sort_consumers_idem [OF srt]]]
  show "failover_wf w' d'" "permits_synced w' d'" "fd_consumers d' = fd_consumers d"
    "fd_read_position d' = fd_read_position d" "w' = w"
    using p(2,3,8,9) p(5,6) active by simp_all
qed

lemma failover_remove_ok:
  assumes wf: "failover_wf w d" and run: "failover_remove_consumer cid w d = (removed, w', d')"
  shows "failover_wf w' d'" "fd_read_position d' = fd_read_position d"
    "removed = failover_find w cid (fd_consumers d)" "removed \<noteq> None \<Longrightarrow> permits_synced w' d'"
    "set (fd_consumers d') = {r \<in> set (fd_consumers d). consumer_id (w_consumers w r) \<noteq> cid}"
proof -
  let ?at = "index_where (\<lambda>r. consumer_id (w_consumers w r) = cid) (fd_consumers d) 0"
  have "failover_wf w' d' \<and> fd_read_position d' = fd_read_position d \<and>
    removed = failover_find w cid (fd_consumers d) \<and> (removed \<noteq> None \<longrightarrow> permits_synced w' d') \<and>
    set (fd_consumers d') = {r \<in> set (fd_consumers d). consumer_id (w_consumers w r) \<noteq> cid}"
  proof (cases ?at)
    case None
    then have "\<forall>r \<in> set (fd_consumers d). consumer_id (w_consumers w r) \<noteq> cid" by (simp add: index_where_None_iff)
    moreover from this have "failover_find w cid (fd_consumers d) = None"
      by (simp add: failover_find_def find_None_iff)
    ultimately show ?thesis using run wf None by (auto simp: failover_remove_consumer_def)
  next
    case (Some i)
    then have i: "i < length (fd_consumers d)" "consumer_id (w_consumers w (fd_consumers d ! i)) = cid"
      "\<forall>k < i. consumer_id (w_consumers w (fd_consumers d ! k)) \<noteq> cid"
      by (simp_all add: index_where_Some_iff)
    define r ys zs where "r = fd_consumers d ! i" and "ys = take i (fd_consumers d)" and "zs = drop (Suc i) (fd_consumers d)"
    have split: "fd_consumers d = ys @ r # zs" using i(1) by (simp add: r_def ys_def zs_def id_take_nth_drop)
    have ys: "\<forall>r' \<in> set ys. consumer_id (w_consumers w r') \<noteq> cid"
      using i by (auto simp: ys_def in_set_conv_nth)
    have srt: "failover_sorted w (ys @ r # zs)" using wf split by (simp add: failover_wf_def)
    then have srt': "failover_sorted w (ys @ zs)" by (auto simp: failover_sorted_def sorted_append)
    have zs: "\<forall>r' \<in> set zs. consumer_id (w_consumers w r') \<noteq> cid"
    proof -
      have "consumer_id (w_consumers w r) \<notin> (\<lambda>r. consumer_id (w_consumers w r)) ` set zs"
        using srt by (simp add: failover_sorted_def)
      then show ?thesis using i(2) [folded r_def] by (metis image_eqI)
    qed
    have found: "failover_find w cid (fd_consumers d) = Some r"
      unfolding failover_find_def split using ys i(2) [folded r_def] by (induction ys) auto
    have rest: "set (ys @ zs) = {r \<in> set (fd_consumers d). consumer_id (w_consumers w r) \<noteq> cid}"
      using ys zs i(2) [folded r_def] by (auto simp: split)
    define d1 where "d1 = d\<lparr>fd_consumers := ys @ zs\<rparr>"
    have sort: "sort_consumers w d1 = d1" using srt' by (intro sort_consumers_idem) (simp add: d1_def)
    have eq: "failover_remove_consumer cid w d =
        (if ys @ zs = [] then (Some r, upd_consumer r clear_active_consumer w,
             d1\<lparr>fd_active_consumer_id := None, fd_total_available_permits := 0\<rparr>)
         else case pick_and_schedule_active_consumer w d1 of (_, w2, d2) \<Rightarrow> (Some r, w2, d2))"
      using Some sort by (simp add: failover_remove_consumer_def Let_def r_def [symmetric] ys_def [symmetric]
          zs_def [symmetric] d1_def [symmetric]) (auto simp: d1_def)
    show ?thesis
    proof (cases "ys @ zs = []")
      case True
      then show ?thesis using run eq found rest
        by (auto simp: d1_def failover_wf_def failover_sorted_def select_active_consumer_id_def permits_synced_def)
    next
      case False
      then obtain changed where pick: "pick_and_schedule_active_consumer w d1 = (changed, w', d')" "removed = Some r"
        using run eq by (auto split: prod.splits)
      have old: "\<forall>r \<in> set (fd_consumers d1) - {}. \<forall>a. fd_active_consumer_id d1 = Some a \<longrightarrow> told w a r"
        using wf by (auto simp: failover_wf_def d1_def split)
      have "failover_sorted w (fd_consumers d1)" using srt' by (simp add: d1_def)
      note p = pick_ok [OF this old pick(1)]
      show ?thesis using p(2,3,8,9) found rest pick(2) by (simp add: d1_def)
    qed
  qed
  then show "failover_wf w' d'" "fd_read_position d' = fd_read_position d"
    "removed = failover_find w cid (fd_consumers d)" "removed \<noteq> None \<Longrightarrow> permits_synced w' d'"
    "set (fd_consumers d') = {r \<in> set (fd_consumers d). consumer_id (w_consumers w r) \<noteq> cid}" by blast+
qed

text \<open>With the invariant exactly one consumer is active: the one with the least key.\<close>

definition sole_active :: "'ch world \<Rightarrow> FailoverDispatcher \<Rightarrow> cref \<Rightarrow> bool" where
  "sole_active w d r \<longleftrightarrow> get_active_consumer w d = Some r \<and> r \<in> set (fd_consumers d) \<and>
     (\<forall>r' \<in> set (fd_consumers d). (is_active_consumer (w_consumers w r') \<longleftrightarrow> r' = r) \<and>
        failover_key (w_consumers w r) \<le> failover_key (w_consumers w r'))"

lemma failover_wf_sole:
  assumes "failover_wf w d" "fd_consumers d \<noteq> []"
  shows "\<exists>r. sole_active w d r"
proof -
  obtain r rs where rs: "fd_consumers d = r # rs" using assms(2) by (cases "fd_consumers d") auto
  then have act: "fd_active_consumer_id d = Some (consumer_id (w_consumers w r))"
    using assms(1) by (simp add: failover_wf_def select_active_consumer_id_def)
  have "get_active_consumer w d = Some r"
    using active_is_head [of d w] assms(1) rs by (simp add: failover_wf_def)
  moreover have "is_active_consumer (w_consumers w r') \<longleftrightarrow> r' = r" if "r' \<in> set (fd_consumers d)" for r'
  proof -
    have "is_active_consumer (w_consumers w r') \<longleftrightarrow> consumer_id (w_consumers w r') = consumer_id (w_consumers w r)"
      using assms(1) act that by (simp add: failover_wf_def told_def)
    moreover have "consumer_id (w_consumers w r') = consumer_id (w_consumers w r) \<longleftrightarrow> r' = r"
      using assms(1) that rs by (auto simp: failover_wf_def failover_sorted_def image_iff)
    ultimately show ?thesis by blast
  qed
  moreover have "\<forall>r' \<in> set (fd_consumers d). failover_key (w_consumers w r) \<le> failover_key (w_consumers w r')"
    using assms(1) rs by (auto simp: failover_wf_def failover_sorted_def)
  ultimately show ?thesis using rs unfolding sole_active_def by auto
qed

lemma take_pending_eq:
  assumes "failover_take_pending cid w d = (ps, w1)"
  shows "frame_consumers w w1" "active_consumer_id (w_consumers w1 r) = active_consumer_id (w_consumers w r)"
    "is_active_consumer (w_consumers w1 r) = is_active_consumer (w_consumers w r)"
    "failover_find w cid (fd_consumers d) = Some r \<Longrightarrow>
       pendings w1 r = [] \<and> ps = map (\<lambda>(mid, _). position_of mid) (pendings w r)"
  using assms
  by (auto simp: failover_take_pending_def drain_pending_acks_def close_pending_acks_def pam_drain_def pam_close_def
      frame_consumers_def same_identity_def pendings_def split: option.splits if_splits)

lemma failover_remove_pendings:
  assumes "failover_remove_consumer cid w d = (removed, w', d')"
  shows "pendings w' r = pendings w r" "frame_consumers w w'"
proof -
  have pick: "pendings w2 r = pendings w r \<and> frame_consumers w w2"
    if "pick_and_schedule_active_consumer w d1 = (ch, w2, d2)" for ch w2 d1 d2
    using that by (auto simp: pick_and_schedule_active_consumer_def Let_def pendings_def frame_consumers_def
        notify_all clear_all notify_active_consumer_change_def clear_active_consumer_def same_identity_def
        split: if_splits option.splits)
  have clear: "pendings (upd_consumer q clear_active_consumer w) r = pendings w r"
    "frame_consumers w (upd_consumer q clear_active_consumer w)" for q
    by (auto simp: pendings_def clear_active_consumer_def same_identity_def)
  show "pendings w' r = pendings w r" "frame_consumers w w'" using assms pick clear
    by (auto simp: failover_remove_consumer_def Let_def split: option.splits if_splits prod.splits)
qed

lemma failover_recovery_ok:
  assumes wf: "failover_wf w d"
    and run: "failover_remove_consumer_with_recovery st s topic sub cid w d = (removed, w', d')"
  defines "active \<equiv> fd_active_consumer_id d = Some cid"
  shows "removed = failover_find w cid (fd_consumers d)" "failover_wf w' d'"
    "removed \<noteq> None \<Longrightarrow> permits_synced w' d'"
    "set (fd_consumers d') = {r \<in> set (fd_consumers d). consumer_id (w_consumers w r) \<noteq> cid}"
    "\<not> active \<Longrightarrow> fd_read_position d' = fd_read_position d \<and> pendings w' r = pendings w r"
    "active \<Longrightarrow> removed = Some r \<Longrightarrow> pendings w' r = [] \<and>
       fd_read_position d' = rewind_read_position st s topic sub (map (\<lambda>(mid, _). position_of mid) (pendings w r))"
proof -
  obtain ps w1 where take: "(if active then failover_take_pending cid w d else ([], w)) = (ps, w1)" by fastforce
  define d1 where "d1 = (if active then failover_init_read_position (rewind_read_position st s topic sub ps) d else d)"
  obtain rm w2 d2 where remove: "failover_remove_consumer cid w1 d1 = (rm, w2, d2)" by (metis prod_cases3)
  have d1: "fd_consumers d1 = fd_consumers d" "fd_active_consumer_id d1 = fd_active_consumer_id d"
    by (simp_all add: d1_def failover_init_read_position_def)
  have frame: "frame_consumers w w1" "\<And>r. active_consumer_id (w_consumers w1 r) = active_consumer_id (w_consumers w r)"
    "\<And>r. is_active_consumer (w_consumers w1 r) = is_active_consumer (w_consumers w r)"
    using take take_pending_eq(1-3) [of cid w d ps w1] by (auto split: if_splits)
  have "failover_wf w1 d1" using failover_wf_cong [OF frame d1] wf by simp
  note removed = failover_remove_ok [OF this remove] failover_remove_pendings [OF remove]
  have find: "failover_find w1 cid (fd_consumers d1) = failover_find w cid (fd_consumers d)"
    "\<And>r. consumer_id (w_consumers w1 r) = consumer_id (w_consumers w r)"
    using frame(1) d1 by (simp_all add: failover_find_def frame_consumers_def same_identity_def)
  have eq: "failover_remove_consumer_with_recovery st s topic sub cid w d =
      (case rm of None \<Rightarrow> (None, w2, d2)
       | Some r \<Rightarrow> (case pick_and_schedule_active_consumer w2 (sort_consumers w2 d2) of (_, w3, d3) \<Rightarrow> (Some r, w3, d3)))"
    unfolding failover_remove_consumer_with_recovery_def active_def [symmetric]
    by (simp add: take Let_def d1_def [symmetric] remove)
  obtain ch w3 d3 where pick: "pick_and_schedule_active_consumer w2 (sort_consumers w2 d2) = (ch, w3, d3)"
    by (metis prod_cases3)
  note again = pick_again [OF removed(1) pick]
  have final: "removed = rm" "w' = w2" "fd_consumers d' = fd_consumers d2" "fd_read_position d' = fd_read_position d2"
    "failover_wf w' d'" "rm \<noteq> None \<longrightarrow> permits_synced w' d'"
    using run eq pick again removed(1) by (auto split: option.splits)
  show "removed = failover_find w cid (fd_consumers d)" "failover_wf w' d'" "removed \<noteq> None \<Longrightarrow> permits_synced w' d'"
    "set (fd_consumers d') = {r \<in> set (fd_consumers d). consumer_id (w_consumers w r) \<noteq> cid}"
    using final removed(3,5) find d1 by simp_all
  show "\<not> active \<Longrightarrow> fd_read_position d' = fd_read_position d \<and> pendings w' r = pendings w r"
    using final(2,4) removed(2,6) take by (simp add: d1_def)
  show "active \<Longrightarrow> removed = Some r \<Longrightarrow> pendings w' r = [] \<and>
       fd_read_position d' = rewind_read_position st s topic sub (map (\<lambda>(mid, _). position_of mid) (pendings w r))"
    using final(1,2,4) removed(2,3,6) take find(1) take_pending_eq(4) [of cid w d ps w1 r]
    by (simp add: d1_def failover_init_read_position_def)
qed

section \<open>Properties\<close>

text \<open>
  A pass sends a prefix of what there is to send, in the order of the log and one permit each, and leaves the rest;
  it ends when the permits are used up or the consumer pauses.
\<close>

definition prefix_sent ::
    "'ch broker_ext \<Rightarrow> ('ch \<Rightarrow> (u64 \<times> PendingMessage) list) \<Rightarrow> cref \<Rightarrow> 'ch world \<Rightarrow> 'ch world \<Rightarrow> u32 \<Rightarrow> u32
     \<Rightarrow> StoredMessage list \<Rightarrow> StoredMessage list \<Rightarrow> bool" where
  "prefix_sent bx sent r w w' tp tp' ahead rest \<longleftrightarrow>
     (\<exists>k \<le> length ahead. rest = drop k ahead \<and> k \<le> unat tp \<and> tp' = tp - of_nat k \<and>
        sent (channel_of w' r) = sent (channel_of w r) @ map (delivery bx (w_consumers w r)) (take k ahead) \<and>
        (k = unat tp \<or> paused bx r w' rest))"

lemma mem_single_loop:
  assumes "mem_wf s" "chan_laws bx sent"
  shows "\<exists>w' tp' rp'. single_loop bx mem_storage s topic sub r w tp rp = Some (Inr (), w', tp', rp') \<and>
    prefix_sent bx sent r w w' tp tp' (to_send (mem_get_message_entries s topic) (is_acknowledged_inner s topic sub) rp)
      (to_send (mem_get_message_entries s topic) (is_acknowledged_inner s topic sub) rp')"
  unfolding prefix_sent_def using mem.single_loop_ok [OF assms, of topic sub r w tp rp] by blast


text \<open>The same for the Exclusive dispatcher.\<close>

lemma exclusive_in_order:
  assumes "mem_wf s" "chan_laws bx sent" "ed_consumer d = Some r"
  shows "\<exists>w' d'. exclusive_dispatch_messages bx mem_storage s topic sub w d = Some (Inr (), w', d') \<and>
    prefix_sent bx sent r w w' (ed_total_available_permits d) (ed_total_available_permits d')
      (to_send (mem_get_message_entries s topic) (is_acknowledged_inner s topic sub) (ed_read_position d))
      (to_send (mem_get_message_entries s topic) (is_acknowledged_inner s topic sub) (ed_read_position d'))"
  using mem_single_loop [OF assms(1,2), of topic sub r w "ed_total_available_permits d" "ed_read_position d"]
  by (auto simp: exclusive_dispatch_messages_def assms(3))

text \<open>C11: The Failover dispatcher keeps exactly one active consumer. Adding a consumer, removing one and removing
  one with recovery keep the consumers distinct and sorted; as long as a consumer is left, the one with the least
  key (largest priority level, then name, then id) is the active one, it alone is marked active, and
  the dispatcher's permits are those of that consumer.\<close>

theorem failover_single_active:
  assumes "failover_wf w d"
  shows "(\<forall>r w' d'. failover_add_consumer r w d = (Inr (), w', d') \<longrightarrow>
       failover_wf w' d' \<and> permits_synced w' d' \<and> set (fd_consumers d') = insert r (set (fd_consumers d)) \<and>
       (\<exists>a. sole_active w' d' a)) \<and>
    (\<forall>cid r w' d'. failover_remove_consumer cid w d = (Some r, w', d') \<longrightarrow>
       failover_wf w' d' \<and> permits_synced w' d' \<and> (fd_consumers d' \<noteq> [] \<longrightarrow> (\<exists>a. sole_active w' d' a))) \<and>
    (\<forall>st s topic sub cid r w' d'.
       failover_remove_consumer_with_recovery st s topic sub cid w d = (Some r, w', d') \<longrightarrow>
       failover_wf w' d' \<and> permits_synced w' d' \<and> (fd_consumers d' \<noteq> [] \<longrightarrow> (\<exists>a. sole_active w' d' a)))"
proof (intro conjI allI impI)
  fix r w' d'
  assume run: "failover_add_consumer r w d = (Inr (), w', d')"
  note ok = failover_add_ok [OF assms run]
  show "failover_wf w' d'" "permits_synced w' d'" "set (fd_consumers d') = insert r (set (fd_consumers d))"
    by (rule ok)+
  have "fd_consumers d' \<noteq> []" using ok(3) by auto
  then show "\<exists>a. sole_active w' d' a" by (rule failover_wf_sole [OF ok(1)])
next
  fix cid r w' d'
  assume run: "failover_remove_consumer cid w d = (Some r, w', d')"
  note ok = failover_remove_ok [OF assms run]
  show "failover_wf w' d'" "permits_synced w' d'" "fd_consumers d' \<noteq> [] \<Longrightarrow> \<exists>a. sole_active w' d' a"
    using ok(1,4) failover_wf_sole [OF ok(1)] by simp_all
next
  fix st :: "'s ManagedLedgerStorage" and s topic sub cid r w' d'
  assume run: "failover_remove_consumer_with_recovery st s topic sub cid w d = (Some r, w', d')"
  note ok = failover_recovery_ok [OF assms run]
  show "failover_wf w' d'" "permits_synced w' d'" "fd_consumers d' \<noteq> [] \<Longrightarrow> \<exists>a. sole_active w' d' a"
    using ok(2,3) failover_wf_sole [OF ok(2)] by simp_all
qed

text \<open>C10: When the active consumer of a Failover subscription disconnects, nothing it held is lost: the read
  position is rewound so that every unacknowledged entry of the log is to be sent again, it is not after any message the
  consumer had not acknowledged, and the consumer is left with no pending message.\<close>

theorem failover_disconnect_rewinds:
  assumes "mem_wf s" "failover_wf w d" "fd_active_consumer_id d = Some cid"
    and "failover_remove_consumer_with_recovery mem_storage s topic sub cid w d = (Some r, w', d')"
  shows "to_send (mem_get_message_entries s topic) (is_acknowledged_inner s topic sub) (fd_read_position d') =
      unacked (is_acknowledged_inner s topic sub) (mem_get_message_entries s topic) \<and>
    (\<forall>(mid, _) \<in> set (pendings w r). \<exists>q. fd_read_position d' = Some q \<and> q \<le> position_of mid) \<and>
    pendings w' r = []"
proof -
  note ok = failover_recovery_ok(6) [OF assms(2,4,3) refl]
  let ?ps = "map (\<lambda>(mid, _). position_of mid) (pendings w r)"
  have "\<exists>q. fd_read_position d' = Some q \<and> q \<le> position_of mid" if "(mid, pa) \<in> set (pendings w r)" for mid pa
    using mem.rewind_read_position_ok(2) [OF assms(1), of "position_of mid" ?ps topic sub] ok that by force
  then show ?thesis using ok mem.rewind_read_position_ok(1) [OF assms(1), of topic sub ?ps] by auto
qed

text \<open>A consumer that is no longer active when it disconnects, because one with a smaller key has joined, leaves its
  unacknowledged messages behind: the read position stays where it is and its pending messages are not taken.\<close>

lemma failover_standby_not_rewound:
  assumes "failover_wf w d" "fd_active_consumer_id d \<noteq> Some cid"
    and "failover_remove_consumer_with_recovery st s topic sub cid w d = (Some r, w', d')"
  shows "fd_read_position d' = fd_read_position d \<and> pendings w' r = pendings w r"
  using failover_recovery_ok(5) [OF assms(1,3,2)] by simp

section \<open>Instances\<close>

text \<open>Consumer 1 joins, then consumer 2; consumer 2 holds five permits but consumer 1 is active.\<close>

definition demo_failover :: FailoverDispatcher where
  "demo_failover = \<lparr>fd_consumers = [1, 2], fd_active_consumer_id = Some 1, fd_total_available_permits = 0, fd_read_position = None\<rparr>"

definition demo_failover_world :: "ref_chan world" where
  "demo_failover_world = upd_consumer 1 (notify_active_consumer_change 1)
     (upd_consumer 2 (notify_active_consumer_change 1) demo_permits)"

lemma demo_failover_wf: "failover_wf demo_failover_world demo_failover"
  by (simp add: failover_wf_def failover_sorted_def failover_key_def told_def select_active_consumer_id_def
      demo_failover_def demo_failover_world_def demo_permits_consumers notify_active_consumer_change_def
      Consumer_new_with_options_def Let_def)

lemma demo_failover_find: "failover_find demo_failover_world 1 [1, 2] = Some 1"
  by (simp add: failover_find_def demo_failover_world_def notify_active_consumer_change_def demo_permits_consumers
      Consumer_new_with_options_def Let_def)


theorem failover_single_active_witness:
  "\<exists>w' d'. failover_remove_consumer 1 demo_failover_world demo_failover = (Some 1, w', d') \<and> failover_wf w' d'"
proof -
  obtain rm w' d' where run: "failover_remove_consumer 1 demo_failover_world demo_failover = (rm, w', d')"
    by (metis prod_cases3)
  moreover have "rm = Some 1"
    using failover_remove_ok(3) [OF demo_failover_wf run] by (simp add: demo_failover_def demo_failover_find del: One_nat_def)
  ultimately show ?thesis using failover_single_active [OF demo_failover_wf] by blast
qed

theorem failover_disconnect_rewinds_witness:
  "\<exists>w' d'. failover_remove_consumer_with_recovery mem_storage demo_log ''t'' ''s'' 1 demo_failover_world demo_failover =
      (Some 1, w', d') \<and> pendings w' 1 = []"
proof -
  obtain rm w' d' where run: "failover_remove_consumer_with_recovery mem_storage demo_log ''t'' ''s'' 1
      demo_failover_world demo_failover = (rm, w', d')" by (metis prod_cases3)
  have "rm = Some 1"
    using failover_recovery_ok(1) [OF demo_failover_wf run] by (simp add: demo_failover_def demo_failover_find del: One_nat_def)
  moreover have "fd_active_consumer_id demo_failover = Some 1" by (simp add: demo_failover_def)
  ultimately show ?thesis using failover_disconnect_rewinds [OF demo_log_wf demo_failover_wf] run by blast
qed

end
