(* ===== verification/PL_KeyShared.thy ===== *)
theory PL_KeyShared
  imports PL_SingleActive PL_StickyKey "HOL-Library.Signed_Division"
begin

text \<open>
  The Key\_Shared dispatcher (\<open>broker/dispatcher/key_shared.rs\<close>): messages with the same sticky key go to the
  consumer whose hash range holds the hash of the key. The consumers are kept by id like the \<open>HashMap\<close> of the source;
  where its iteration order reaches the result, the source sorts. The properties are that the automatic split gives
  every hash exactly one consumer, that a pass returns and sends the messages of one key in the order of the log, and
  that a message which was redelivered before is never delivered again once its consumer gives it back.
\<close>

section \<open>Model\<close>

record KeySharedDispatcher =
  kd_consumers_by_id :: "(u64, cref) btree_map"
  kd_auto_split_assignments :: "(KeySharedHashRange \<times> cref) list"
  kd_sticky_assignments :: "(KeySharedHashRange \<times> cref) list"
  kd_key_shared_policy :: KeySharedPolicy
  kd_total_available_permits :: i32
  kd_read_position :: read_position
  kd_redelivery_controller :: RedeliveryController

definition KeySharedDispatcher_new :: "KeySharedPolicy option \<Rightarrow> KeySharedDispatcher" where
  "KeySharedDispatcher_new policy =
     (let p = (case policy of Some p \<Rightarrow> p
               | None \<Rightarrow> \<lparr>ksp_mode = AutoSplit, ksp_ranges = [], ksp_allow_out_of_order_delivery = False\<rparr>)
      in \<lparr>kd_consumers_by_id = [], kd_auto_split_assignments = [], kd_sticky_assignments = [],
          kd_key_shared_policy = p, kd_total_available_permits = 0, kd_read_position = None,
          kd_redelivery_controller = RedeliveryController_new (\<not> ksp_allow_out_of_order_delivery p)\<rparr>)"

definition has_same_key_shared_policy :: "KeySharedPolicy option \<Rightarrow> KeySharedDispatcher \<Rightarrow> bool" where
  "has_same_key_shared_policy policy d =
     (case policy of
        None \<Rightarrow> ksp_mode (kd_key_shared_policy d) = AutoSplit
      | Some p \<Rightarrow> ksp_mode p = ksp_mode (kd_key_shared_policy d))"

definition key_subtract_total_permits :: "u32 \<Rightarrow> KeySharedDispatcher \<Rightarrow> KeySharedDispatcher" where
  "key_subtract_total_permits n d =
     d\<lparr>kd_total_available_permits := i32_saturating_sub (kd_total_available_permits d) (u32_as_i32 n)\<rparr>"

definition active_assignments :: "KeySharedDispatcher \<Rightarrow> (KeySharedHashRange \<times> cref) list" where
  "active_assignments d =
     (case ksp_mode (kd_key_shared_policy d) of
        AutoSplit \<Rightarrow> kd_auto_split_assignments d
      | Sticky \<Rightarrow> kd_sticky_assignments d)"

definition sticky_ranges_for_consumer :: "Consumer \<Rightarrow> KeySharedHashRange list" where
  "sticky_ranges_for_consumer c = (case key_shared_policy c of Some p \<Rightarrow> ksp_ranges p | None \<Rightarrow> [])"

definition KEY_RANGE_SIZE :: i32 where
  "KEY_RANGE_SIZE = 65535"

text \<open>The range of the consumer at an index; products wrap like \<open>i32\<close> and division truncates.\<close>

definition auto_split_range :: "i32 \<Rightarrow> i32 \<Rightarrow> KeySharedHashRange" where
  "auto_split_range tot i =
     \<lparr>range_start = wrap_i32 (i * (KEY_RANGE_SIZE + 1)) sdiv tot,
      range_end = wrap_i32 (wrap_i32 ((i + 1) * (KEY_RANGE_SIZE + 1)) sdiv tot - 1)\<rparr>"

definition rebuild_auto_split_assignments :: "'ch world \<Rightarrow> KeySharedDispatcher \<Rightarrow> KeySharedDispatcher" where
  "rebuild_auto_split_assignments w d =
     (let consumers = sort_key (\<lambda>r. consumer_id (w_consumers w r)) (btm_values (kd_consumers_by_id d)) in
      if consumers = [] then d\<lparr>kd_auto_split_assignments := []\<rparr>
      else d\<lparr>kd_auto_split_assignments :=
        map (\<lambda>(i, r). (auto_split_range (wrap_i32 (int (length consumers))) (wrap_i32 (int i)), r))
          (enumerate 0 consumers)\<rparr>)"

definition rebuild_sticky_assignments :: "'ch world \<Rightarrow> KeySharedDispatcher \<Rightarrow> KeySharedDispatcher" where
  "rebuild_sticky_assignments w d =
     d\<lparr>kd_sticky_assignments :=
        sort_key (\<lambda>(rng, r). (range_start rng, range_end rng, consumer_id (w_consumers w r)))
          (concat (map (\<lambda>r. map (\<lambda>rng. (rng, r)) (sticky_ranges_for_consumer (w_consumers w r)))
             (btm_values (kd_consumers_by_id d))))\<rparr>"

definition rebuild_assignments :: "'ch world \<Rightarrow> KeySharedDispatcher \<Rightarrow> KeySharedDispatcher" where
  "rebuild_assignments w d = rebuild_sticky_assignments w (rebuild_auto_split_assignments w d)"

definition select_consumer_for_hash :: "'ch world \<Rightarrow> KeySharedDispatcher \<Rightarrow> i32 \<Rightarrow> cref option" where
  "select_consumer_for_hash w d h =
     map_option snd (find (\<lambda>(rng, r). range_start rng \<le> h \<and> h \<le> range_end rng \<and>
       0 < available_permits_now (w_consumers w r) \<and> is_writable w r) (active_assignments d))"

definition key_add_redelivery_entries :: "RedeliveryEntry list \<Rightarrow> KeySharedDispatcher \<Rightarrow> KeySharedDispatcher" where
  "key_add_redelivery_entries es d =
     d\<lparr>kd_redelivery_controller := fold rd_add es (kd_redelivery_controller d)\<rparr>"

definition key_add_to_redelivery_queue :: "(MessageId \<times> u32) list \<Rightarrow> KeySharedDispatcher \<Rightarrow> KeySharedDispatcher" where
  "key_add_to_redelivery_queue es d =
     key_add_redelivery_entries (map (\<lambda>(mid, rc).
       \<lparr>re_message_id = mid, re_redelivery_count = rc, re_sticky_key_hash = None\<rparr>) es) d"

text \<open>The search runs over the entries that were queued when it began.\<close>

fun pop_dispatchable_loop ::
    "'s ManagedLedgerStorage \<Rightarrow> 's \<Rightarrow> string \<Rightarrow> string \<Rightarrow> (bytes \<Rightarrow> i32) \<Rightarrow> (i32 \<Rightarrow> cref option)
     \<Rightarrow> RedeliveryEntry list \<Rightarrow> RedeliveryController
     \<Rightarrow> (RedeliveryEntry \<times> StoredMessage \<times> cref) option result \<times> RedeliveryController" where
  "pop_dispatchable_loop st s topic sub hash_of select [] c = (Inr None, c)"
| "pop_dispatchable_loop st s topic sub hash_of select (q # qs) c =
     (case is_acknowledged st s topic sub (re_message_id q) of
        Inl e \<Rightarrow> (Inl e, c)
      | Inr True \<Rightarrow> pop_dispatchable_loop st s topic sub hash_of select qs (snd (rd_remove (re_message_id q) c))
      | Inr False \<Rightarrow>
          (case get_message_entry_by_id st s topic (re_message_id q) of
             None \<Rightarrow> pop_dispatchable_loop st s topic sub hash_of select qs (snd (rd_remove (re_message_id q) c))
           | Some stored \<Rightarrow>
               let h = (case re_sticky_key_hash q of Some h \<Rightarrow> h | None \<Rightarrow> hash_of (sm_metadata stored)) in
               if has_in_flight_hash h c then pop_dispatchable_loop st s topic sub hash_of select qs c
               else case select h of
                      None \<Rightarrow> pop_dispatchable_loop st s topic sub hash_of select qs c
                    | Some r \<Rightarrow>
                        (case rd_take_for_delivery_with_hash (re_message_id q) (Some h) c of
                           (None, c1) \<Rightarrow> pop_dispatchable_loop st s topic sub hash_of select qs c1
                         | (Some e, c1) \<Rightarrow> (Inr (Some (e, stored, r)), c1))))"

definition pop_dispatchable_redelivery_message ::
    "'ch broker_ext \<Rightarrow> 's ManagedLedgerStorage \<Rightarrow> 's \<Rightarrow> string \<Rightarrow> string \<Rightarrow> 'ch world \<Rightarrow> KeySharedDispatcher
     \<Rightarrow> (RedeliveryEntry \<times> StoredMessage \<times> cref) option result \<times> KeySharedDispatcher" where
  "pop_dispatchable_redelivery_message bx st s topic sub w d =
     (case pop_dispatchable_loop st s topic sub (sticky_key_hash_from_metadata (bx_proto bx))
             (select_consumer_for_hash w d) (queued_entries (kd_redelivery_controller d)) (kd_redelivery_controller d) of
        (res, c) \<Rightarrow> (res, d\<lparr>kd_redelivery_controller := c\<rparr>))"

definition key_restore_redelivery_message :: "RedeliveryEntry \<Rightarrow> KeySharedDispatcher \<Rightarrow> KeySharedDispatcher" where
  "key_restore_redelivery_message e d = d\<lparr>kd_redelivery_controller := rd_restore e (kd_redelivery_controller d)\<rparr>"

definition key_on_message_acknowledged :: "MessageId \<Rightarrow> KeySharedDispatcher \<Rightarrow> KeySharedDispatcher" where
  "key_on_message_acknowledged mid d =
     d\<lparr>kd_redelivery_controller := snd (rd_remove mid (kd_redelivery_controller d))\<rparr>"

definition key_on_ack_state_updated ::
    "'s ManagedLedgerStorage \<Rightarrow> 's \<Rightarrow> string \<Rightarrow> string \<Rightarrow> KeySharedDispatcher \<Rightarrow> unit result \<times> KeySharedDispatcher" where
  "key_on_ack_state_updated st s topic sub d =
     (case and_then (filter_acknowledged st s topic sub (queued_message_ids (kd_redelivery_controller d)))
             (\<lambda>ids. and_then (first_unacked_position st s topic sub) (\<lambda>fu. Inr (ids, fu))) of
        Inl e \<Rightarrow> (Inl e, d)
      | Inr (ids, fu) \<Rightarrow>
          (Inr (), d\<lparr>kd_redelivery_controller := fold (\<lambda>mid c. snd (rd_remove mid c)) ids (kd_redelivery_controller d),
                     kd_read_position := advanced_read_position (kd_read_position d) fu\<rparr>))"

definition key_remove_consumer_with_recovery ::
    "u64 \<Rightarrow> 'ch world \<Rightarrow> KeySharedDispatcher \<Rightarrow> cref option \<times> 'ch world \<times> KeySharedDispatcher" where
  "key_remove_consumer_with_recovery cid w d =
     (case btm_get cid (kd_consumers_by_id d) of
        None \<Rightarrow> (None, w, rebuild_assignments w d)
      | Some r \<Rightarrow>
          let d1 = key_subtract_total_permits (available_permits_now (w_consumers w r))
                     (d\<lparr>kd_consumers_by_id := btm_remove cid (kd_consumers_by_id d)\<rparr>);
              (pending, c) = drain_pending_acks (close_pending_acks (w_consumers w r));
              w1 = upd_consumer r (\<lambda>_. c) w;
              recovered = map (\<lambda>(mid, pa). \<lparr>re_message_id = mid, re_redelivery_count = pa_redelivery_count pa + 1,
                                             re_sticky_key_hash = pa_sticky_key_hash pa\<rparr>) pending
          in (Some r, w1, rebuild_assignments w1 (key_add_redelivery_entries recovered d1)))"

section \<open>Dispatching\<close>

text \<open>The first half of an iteration: a message of the redelivery queue, if one can be delivered now.\<close>

definition key_redeliver ::
    "'ch broker_ext \<Rightarrow> 's ManagedLedgerStorage \<Rightarrow> 's \<Rightarrow> string \<Rightarrow> string
     \<Rightarrow> 'ch world \<Rightarrow> KeySharedDispatcher \<Rightarrow> turn \<times> 'ch world \<times> KeySharedDispatcher" where
  "key_redeliver bx st s topic sub w d =
     (case pop_dispatchable_redelivery_message bx st s topic sub w d of
        (Inl e, d1) \<Rightarrow> (Fail e, w, d1)
      | (Inr None, d1) \<Rightarrow> (Next False, w, d1)
      | (Inr (Some (redelivery, e, r)), d1) \<Rightarrow>
          let h = (case re_sticky_key_hash redelivery of
                     Some h \<Rightarrow> h | None \<Rightarrow> sticky_key_hash_from_metadata (bx_proto bx) (sm_metadata e));
              batch_count = messages_in_batch (bx_proto bx) (sm_metadata e)
          in
          (case try_use_permits batch_count (w_consumers w r) of
             (False, _) \<Rightarrow> (Stop, w, key_restore_redelivery_message (redelivery\<lparr>re_sticky_key_hash := Some h\<rparr>) d1)
           | (True, c) \<Rightarrow>
               let w1 = upd_consumer r (\<lambda>_. c) w; d2 = key_subtract_total_permits batch_count d1 in
               (case send_message_with_sticky_hash bx r (sm_message_id e) (sm_metadata e) (sm_payload e)
                       (re_redelivery_count redelivery) (Some h) w1 of
                  (True, w2) \<Rightarrow>
                    (Next True, upd_consumer r (record_message_dispatched batch_count (length (sm_payload e))) w2, d2)
                | (False, w2) \<Rightarrow>
                    let d3 = key_restore_redelivery_message
                               \<lparr>re_message_id = sm_message_id e, re_redelivery_count = re_redelivery_count redelivery + 1,
                                re_sticky_key_hash = Some h\<rparr> d2
                    in (Stop, upd_consumer r (add_permits batch_count) w2,
                        d3\<lparr>kd_total_available_permits :=
                          wrap_i32 (kd_total_available_permits d3 + u32_as_i32 batch_count)\<rparr>))))"

text \<open>The second half: the next message of the log. \<open>Next False\<close> stands for a message that waits behind its key.\<close>

definition key_dispatch_new ::
    "'ch broker_ext \<Rightarrow> 's ManagedLedgerStorage \<Rightarrow> 's \<Rightarrow> string \<Rightarrow> string
     \<Rightarrow> 'ch world \<Rightarrow> KeySharedDispatcher \<Rightarrow> (turn \<times> 'ch world \<times> KeySharedDispatcher) option" where
  "key_dispatch_new bx st s topic sub w d =
     (case next_dispatchable_message st s topic sub (is_message_pending w (btm_values (kd_consumers_by_id d)))
             (kd_read_position d) of
        None \<Rightarrow> None
      | Some (Inl e, rp) \<Rightarrow> Some (Fail e, w, d\<lparr>kd_read_position := rp\<rparr>)
      | Some (Inr None, rp) \<Rightarrow> Some (Stop, w, d\<lparr>kd_read_position := rp\<rparr>)
      | Some (Inr (Some c), rp) \<Rightarrow>
          let d0 = d\<lparr>kd_read_position := rp\<rparr>;
              committed = commit_read_position rp (rc_next_position c);
              h = sticky_key_hash_from_metadata (bx_proto bx) (rc_metadata c)
          in
          if is_hash_blocked h (kd_redelivery_controller d0)
          then Some (Next False, w, (key_add_redelivery_entries
                  [\<lparr>re_message_id = rc_message_id c, re_redelivery_count = 0, re_sticky_key_hash = Some h\<rparr>] d0)
                  \<lparr>kd_read_position := committed\<rparr>)
          else
          case select_consumer_for_hash w d0 h of
            None \<Rightarrow> Some (Stop, w, d0)
          | Some r \<Rightarrow>
              let batch_count = messages_in_batch (bx_proto bx) (rc_metadata c) in
              (case try_use_permits batch_count (w_consumers w r) of
                 (False, _) \<Rightarrow> Some (Stop, w, d0)
               | (True, c1) \<Rightarrow>
                   let w1 = upd_consumer r (\<lambda>_. c1) w; d1 = key_subtract_total_permits batch_count d0 in
                   (case send_message_with_sticky_hash bx r (rc_message_id c) (rc_metadata c) (rc_payload c) 0 (Some h) w1 of
                      (True, w2) \<Rightarrow>
                        Some (Next True,
                          upd_consumer r (record_message_dispatched batch_count (length (rc_payload c))) w2,
                          d1\<lparr>kd_read_position := committed\<rparr>)
                    | (False, w2) \<Rightarrow>
                        let d2 = key_restore_redelivery_message
                              \<lparr>re_message_id = rc_message_id c, re_redelivery_count = 1, re_sticky_key_hash = Some h\<rparr> d1
                        in Some (Stop, upd_consumer r (add_permits batch_count) w2,
                             d2\<lparr>kd_read_position := committed,
                                kd_total_available_permits :=
                                  wrap_i32 (kd_total_available_permits d2 + u32_as_i32 batch_count)\<rparr>))))"

text \<open>The counter of remaining dispatches is a \<open>u32\<close> that both halves decrement: it wraps below zero.\<close>

partial_function (option) key_batch_loop ::
    "'ch broker_ext \<Rightarrow> 's ManagedLedgerStorage \<Rightarrow> 's \<Rightarrow> string \<Rightarrow> string \<Rightarrow> u32 \<Rightarrow> u32
     \<Rightarrow> 'ch world \<Rightarrow> KeySharedDispatcher \<Rightarrow> (u32 result \<times> 'ch world \<times> KeySharedDispatcher) option" where
  "key_batch_loop bx st s topic sub remaining progress w d =
     (if remaining = 0 then Some (Inr progress, w, d)
      else
      case key_redeliver bx st s topic sub w d of
        (Fail e, w1, d1) \<Rightarrow> Some (Inl e, w1, d1)
      | (Stop, w1, d1) \<Rightarrow> Some (Inr progress, w1, d1)
      | (Next redelivered, w1, d1) \<Rightarrow>
          let remaining1 = (if redelivered then remaining - 1 else remaining);
              progress1 = (if redelivered then progress + 1 else progress)
          in
          (case key_dispatch_new bx st s topic sub w1 d1 of
             None \<Rightarrow> None
           | Some (Fail e, w2, d2) \<Rightarrow> Some (Inl e, w2, d2)
           | Some (Stop, w2, d2) \<Rightarrow> Some (Inr progress1, w2, d2)
           | Some (Next sent, w2, d2) \<Rightarrow>
               key_batch_loop bx st s topic sub (if sent then remaining1 - 1 else remaining1) (progress1 + 1) w2 d2))"

definition key_dispatch_messages_batch ::
    "'ch broker_ext \<Rightarrow> 's ManagedLedgerStorage \<Rightarrow> 's \<Rightarrow> string \<Rightarrow> string
     \<Rightarrow> 'ch world \<Rightarrow> KeySharedDispatcher \<Rightarrow> (u32 result \<times> 'ch world \<times> KeySharedDispatcher) option" where
  "key_dispatch_messages_batch bx st s topic sub w d =
     (let max_batch = min (kd_total_available_permits d) (u32_as_i32 DISPATCHER_MAX_ROUND_ROBIN_BATCH_SIZE) in
      if max_batch \<le> 0 then Some (Inr 0, w, d)
      else key_batch_loop bx st s topic sub (i32_as_u32 max_batch) 0 w d)"

partial_function (option) key_dispatch_messages ::
    "'ch broker_ext \<Rightarrow> 's ManagedLedgerStorage \<Rightarrow> 's \<Rightarrow> string \<Rightarrow> string
     \<Rightarrow> 'ch world \<Rightarrow> KeySharedDispatcher \<Rightarrow> (unit result \<times> 'ch world \<times> KeySharedDispatcher) option" where
  "key_dispatch_messages bx st s topic sub w d =
     (case key_dispatch_messages_batch bx st s topic sub w d of
        None \<Rightarrow> None
      | Some (Inl e, w1, d1) \<Rightarrow> Some (Inl e, w1, d1)
      | Some (Inr progress, w1, d1) \<Rightarrow>
          if progress = 0 \<or> kd_total_available_permits d1 \<le> 0 then Some (Inr (), w1, d1)
          else key_dispatch_messages bx st s topic sub w1 d1)"

section \<open>Membership\<close>

definition key_is_consumer_connected :: "KeySharedDispatcher \<Rightarrow> bool" where
  "key_is_consumer_connected d \<longleftrightarrow> kd_consumers_by_id d \<noteq> []"

definition key_get_consumers :: "KeySharedDispatcher \<Rightarrow> cref list" where
  "key_get_consumers d = btm_values (kd_consumers_by_id d)"

definition key_add_consumer :: "'ch world \<Rightarrow> cref \<Rightarrow> KeySharedDispatcher \<Rightarrow> unit result \<times> KeySharedDispatcher" where
  "key_add_consumer w r d =
     (let c = w_consumers w r in
      if btm_contains (consumer_id c) (kd_consumers_by_id d)
      then (Inl (Msg ''Consumer already exists in key-shared dispatcher''), d)
      else if \<not> has_same_key_shared_policy (key_shared_policy c) d
      then (Inl (Msg ''Consumer key shared policy is incompatible with the dispatcher''), d)
      else (Inr (), rebuild_assignments w
              (d\<lparr>kd_consumers_by_id := btm_insert (consumer_id c) r (kd_consumers_by_id d)\<rparr>)))"

definition key_remove_consumer :: "'ch world \<Rightarrow> u64 \<Rightarrow> KeySharedDispatcher \<Rightarrow> cref option \<times> KeySharedDispatcher" where
  "key_remove_consumer w cid d =
     (let d1 = d\<lparr>kd_consumers_by_id := btm_remove cid (kd_consumers_by_id d)\<rparr> in
      case btm_get cid (kd_consumers_by_id d) of
        None \<Rightarrow> (None, rebuild_assignments w d1)
      | Some r \<Rightarrow> (Some r, rebuild_assignments w
                       (key_subtract_total_permits (available_permits_now (w_consumers w r)) d1)))"

definition key_init_read_position :: "read_position \<Rightarrow> KeySharedDispatcher \<Rightarrow> KeySharedDispatcher" where
  "key_init_read_position pos d = d\<lparr>kd_read_position := pos\<rparr>"

definition key_reset_after_seek :: "read_position \<Rightarrow> KeySharedDispatcher \<Rightarrow> KeySharedDispatcher" where
  "key_reset_after_seek pos d =
     (key_init_read_position pos d)\<lparr>kd_redelivery_controller := rd_clear (kd_redelivery_controller d)\<rparr>"

definition key_consumer_flow :: "u64 \<Rightarrow> u32 \<Rightarrow> KeySharedDispatcher \<Rightarrow> KeySharedDispatcher" where
  "key_consumer_flow cid n d =
     (if btm_contains cid (kd_consumers_by_id d)
      then d\<lparr>kd_total_available_permits := wrap_i32 (kd_total_available_permits d + u32_as_i32 n)\<rparr> else d)"

section \<open>The automatic split\<close>

definition in_range :: "KeySharedHashRange \<Rightarrow> i32 \<Rightarrow> bool" where
  "in_range rng h \<longleftrightarrow> range_start rng \<le> h \<and> h \<le> range_end rng"

lemma sdiv_of_nat: "int a sdiv int b = int (a div b)"
  by (cases "b = 0"; cases "a = 0") (simp_all add: signed_divide_int_def zdiv_int)

lemma auto_split_range_eq:
  assumes "0 < n" "n \<le> 32767" "i < n"
  shows "auto_split_range (int n) (int i) =
    \<lparr>range_start = int (i * 65536 div n), range_end = int (Suc i * 65536 div n) - 1\<rparr>"
proof -
  have small: "wrap_i32 (int (j * 65536)) = int (j * 65536)" if "j \<le> n" for j
  proof -
    have "j * 65536 \<le> 32767 * 65536" using that assms(2) by (intro mult_right_mono) simp_all
    then show ?thesis by (intro wrap_i32_id) simp_all
  qed
  have "Suc i * 65536 div n \<le> Suc i * 65536" by (rule div_le_dividend)
  also have "\<dots> \<le> 32767 * 65536" using assms by (intro mult_right_mono) simp_all
  finally have last: "wrap_i32 (int (Suc i * 65536 div n) - 1) = int (Suc i * 65536 div n) - 1"
    by (intro wrap_i32_id) simp_all
  have "int i * (KEY_RANGE_SIZE + 1) = int (i * 65536)" "(int i + 1) * (KEY_RANGE_SIZE + 1) = int (Suc i * 65536)"
    by (simp_all add: KEY_RANGE_SIZE_def)
  then show ?thesis
    unfolding auto_split_range_def using small [of i] small [of "Suc i"] assms(3) last by (simp only: sdiv_of_nat)
qed

text \<open>The boundaries \<open>i * 65536 div n\<close> cut the hashes into \<open>n\<close> adjacent pieces.\<close>

lemma split_point:
  fixes n h :: nat
  assumes "0 < n" "h < 65536"
  shows "\<exists>!i. i < n \<and> i * 65536 div n \<le> h \<and> h < Suc i * 65536 div n"
proof -
  let ?b = "\<lambda>i. i * 65536 div n"
  have mono: "?b i \<le> ?b j" if "i \<le> j" for i j using that by (intro div_le_mono mult_le_mono1)
  define i where "i = (LEAST i. h < ?b (Suc i))"
  have last: "h < ?b (Suc (n - 1))" using assms by simp
  have up: "h < ?b (Suc i)" unfolding i_def by (rule LeastI [of _ "n - 1"]) (rule last)
  have le: "i \<le> n - 1" unfolding i_def by (rule Least_le) (rule last)
  have low: "?b i \<le> h"
  proof (cases i)
    case (Suc j)
    then have "\<not> h < ?b (Suc j)" using not_less_Least [of j "\<lambda>i. h < ?b (Suc i)"] by (simp add: i_def)
    with Suc show ?thesis by simp
  qed simp
  show ?thesis
  proof (rule ex1I [of _ i])
    show "i < n \<and> ?b i \<le> h \<and> h < ?b (Suc i)" using up le low assms by simp
    fix j assume j: "j < n \<and> ?b j \<le> h \<and> h < ?b (Suc j)"
    show "j = i" using mono [of "Suc i" j] mono [of "Suc j" i] j up low by (cases j i rule: linorder_cases) auto
  qed
qed

lemma rebuild_auto_split:
  "kd_auto_split_assignments (rebuild_assignments w d) =
    (let rs = sort_key (\<lambda>r. consumer_id (w_consumers w r)) (btm_values (kd_consumers_by_id d)) in
     map (\<lambda>i. (auto_split_range (wrap_i32 (int (length rs))) (wrap_i32 (int i)), rs ! i)) [0..<length rs])"
proof -
  have enum: "map (\<lambda>(i, r). (f i, r)) (enumerate 0 rs) = map (\<lambda>i. (f i, rs ! i)) [0..<length rs]"
    for f :: "nat \<Rightarrow> KeySharedHashRange" and rs :: "cref list"
    by (rule nth_equalityI) (simp_all add: nth_enumerate_eq)
  show ?thesis
    unfolding rebuild_assignments_def rebuild_auto_split_assignments_def rebuild_sticky_assignments_def Let_def enum
    by simp (metis length_0_conv length_sort)
qed

text \<open>C13: The automatic split is a partition. As long as there are at most 32767 consumers, after any change of the
  membership every hash from 0 to 65535 lies in the range of exactly one consumer, the ranges are listed in the
  order of the consumer ids, and all consumers of the dispatcher are listed.\<close>

theorem auto_split_partition:
  assumes "0 < length (kd_consumers_by_id d)" "length (kd_consumers_by_id d) \<le> 32767" "0 \<le> h" "h < 65536"
  shows "(\<exists>!i. i < length (kd_auto_split_assignments (rebuild_assignments w d)) \<and>
      in_range (fst (kd_auto_split_assignments (rebuild_assignments w d) ! i)) h) \<and>
    set (map snd (kd_auto_split_assignments (rebuild_assignments w d))) = set (key_get_consumers d) \<and>
    sorted (map (\<lambda>(_, r). consumer_id (w_consumers w r)) (kd_auto_split_assignments (rebuild_assignments w d)))"
proof -
  define rs where "rs = sort_key (\<lambda>r. consumer_id (w_consumers w r)) (btm_values (kd_consumers_by_id d))"
  have len: "length rs = length (kd_consumers_by_id d)" by (simp add: rs_def btm_values_def)
  have A: "kd_auto_split_assignments (rebuild_assignments w d) =
      map (\<lambda>i. (auto_split_range (int (length rs)) (int i), rs ! i)) [0..<length rs]"
    unfolding rebuild_auto_split Let_def rs_def [symmetric]
    using assms(2) len by (intro map_cong) (auto simp: wrap_i32_id i32_MIN_def i32_MAX_def)
  obtain k where h: "h = int k" "k < 65536" using assms(3,4) by (metis nat_0_le nat_less_iff of_nat_numeral)
  let ?A = "kd_auto_split_assignments (rebuild_assignments w d)"
  have "i < length ?A \<and> in_range (fst (?A ! i)) h \<longleftrightarrow>
      i < length rs \<and> i * 65536 div length rs \<le> k \<and> k < Suc i * 65536 div length rs" for i
    using auto_split_range_eq [of "length rs" i] assms(1,2) len by (auto simp: A in_range_def h(1))
  then have "(\<exists>!i. i < length ?A \<and> in_range (fst (?A ! i)) h) \<longleftrightarrow>
      (\<exists>!i. i < length rs \<and> i * 65536 div length rs \<le> k \<and> k < Suc i * 65536 div length rs)"
    by (simp only:)
  also have "\<dots>" by (rule split_point) (use assms(1) len h(2) in simp_all)
  finally have ex1: "\<exists>!i. i < length ?A \<and> in_range (fst (?A ! i)) h" .
  have snd: "map snd ?A = rs" unfolding A by (simp add: comp_def map_nth)
  then have "map (\<lambda>(_, r). consumer_id (w_consumers w r)) ?A = map (\<lambda>r. consumer_id (w_consumers w r)) rs"
    unfolding snd [symmetric] by (simp add: comp_def case_prod_beta)
  then have "sorted (map (\<lambda>(_, r). consumer_id (w_consumers w r)) ?A)" by (simp add: rs_def)
  moreover have "set rs = set (key_get_consumers d)" by (simp add: rs_def key_get_consumers_def)
  ultimately show ?thesis using ex1 snd by simp
qed

theorem auto_split_partition_witness:
  "\<exists>!i. i < length (kd_auto_split_assignments (rebuild_assignments demo_world
       ((KeySharedDispatcher_new None)\<lparr>kd_consumers_by_id := [(1, 1), (2, 2), (3, 3)]\<rparr>))) \<and>
     in_range (fst (kd_auto_split_assignments (rebuild_assignments demo_world
       ((KeySharedDispatcher_new None)\<lparr>kd_consumers_by_id := [(1, 1), (2, 2), (3, 3)]\<rparr>)) ! i)) 40000"
  by (rule auto_split_partition [THEN conjunct1]) simp_all

end
