(* ===== verification/PL_KeySharedDispatch.thy ===== *)
theory PL_KeySharedDispatch
  imports PL_KeyShared
begin

text \<open>
  What a pass of the Key\_Shared dispatcher does: it returns, every message goes to a consumer whose range holds
  its hash, and the messages of one hash are sent in the order of the log. Also what happens to a redelivered message
  that comes back to the queue a second time.
\<close>

section \<open>The queue\<close>

definition msg_hash :: "'ch broker_ext \<Rightarrow> StoredMessage \<Rightarrow> i32" where
  "msg_hash bx m = sticky_key_hash_from_metadata (bx_proto bx) (sm_metadata m)"

text \<open>Every queued entry carries the hash of its message.\<close>

definition tag_ok :: "'ch broker_ext \<Rightarrow> StoredMessage list \<Rightarrow> RedeliveryEntry \<Rightarrow> bool" where
  "tag_ok bx l e \<longleftrightarrow> (\<exists>h. re_sticky_key_hash e = Some h \<and> (\<forall>m \<in> set l. sm_message_id m = re_message_id e \<longrightarrow> msg_hash bx m = h))"

definition tagged :: "'ch broker_ext \<Rightarrow> StoredMessage list \<Rightarrow> RedeliveryController \<Rightarrow> bool" where
  "tagged bx l c \<longleftrightarrow> (\<forall>(_, e) \<in> set (rd_entries c). tag_ok bx l e)"

lemma tagged_mono: "tagged bx l c \<Longrightarrow> set (rd_entries c') \<subseteq> set (rd_entries c) \<Longrightarrow> tagged bx l c'"
  by (auto simp: tagged_def)

lemma has_in_flight_iff: "has_in_flight_hash h c \<longleftrightarrow> (\<exists>mid. (mid, h) \<in> set (rd_in_flight_hashes c))"
  by (force simp: has_in_flight_hash_def btm_values_def list_ex_iff)

lemma in_flight_release: "rd_in_flight_hashes (release_in_flight_hash mid c) = btm_remove mid (rd_in_flight_hashes c)"
  by (auto simp: release_in_flight_hash_def btm_remove_absent split: option.split)

lemma in_flight_add [simp]: "rd_in_flight_hashes (rd_add e c) = rd_in_flight_hashes c"
  by (simp add: rd_add_def Let_def split: option.split)

lemma in_flight_restore: "rd_in_flight_hashes (rd_restore e c) = btm_remove (re_message_id e) (rd_in_flight_hashes c)"
  by (simp add: rd_restore_def in_flight_release)

lemma rd_add_new:
  "re_message_id e \<notin> fst ` set (rd_entries c) \<Longrightarrow>
   set (rd_entries (rd_add e c)) = insert (re_message_id e, e) (set (rd_entries c))"
  using btm_get_None_iff [of "re_message_id e" "rd_entries c"]
  by (auto simp: rd_add_def Let_def set_btm_insert_new)

lemma rd_add_len_le: "rd_inv c \<Longrightarrow> rd_len (rd_add e c) \<le> Suc (rd_len c)"
  by (simp add: rd_len_add)

lemma queued_not_in_flight: "rd_inv c \<Longrightarrow> (mid, e) \<in> set (rd_entries c) \<Longrightarrow> btm_get mid (rd_in_flight_hashes c) = None"
  by (force simp: rd_inv_def rd_wf_def)

lemma rd_remove_facts:
  assumes "rd_inv c" "btm_get mid (rd_in_flight_hashes c) = None"
  defines "c' \<equiv> snd (rd_remove mid c)"
  shows "rd_inv c'" "rd_in_flight_hashes c' = rd_in_flight_hashes c" "rd_block_hashes c' = rd_block_hashes c"
    "set (rd_entries c') \<subseteq> set (rd_entries c)" "rd_len c' \<le> rd_len c"
proof -
  show "rd_inv c'" unfolding c'_def by (rule rd_inv_remove [OF assms(1)])
  have "release_in_flight_hash mid c = c" by (simp add: release_in_flight_hash_def assms(2))
  then show "rd_in_flight_hashes c' = rd_in_flight_hashes c" "rd_block_hashes c' = rd_block_hashes c"
    "set (rd_entries c') \<subseteq> set (rd_entries c)" "rd_len c' \<le> rd_len c"
    by (auto simp: c'_def rd_remove_def Let_def rd_len_def set_btm_remove btm_remove_def split: option.split)
qed

lemma rd_take_facts:
  assumes inv: "rd_inv c" "rd_block_hashes c" and get: "btm_get mid (rd_entries c) = Some e" and h: "re_sticky_key_hash e = Some h"
  shows "\<exists>c'. rd_take_for_delivery_with_hash mid ho c = (Some e, c') \<and> rd_inv c' \<and> rd_block_hashes c' \<and>
    rd_in_flight_hashes c' = btm_insert mid h (rd_in_flight_hashes c) \<and> re_message_id e = mid \<and>
    set (rd_entries c') = set (rd_entries c) - {(mid, e)} \<and> rd_len c = Suc (rd_len c')"
proof -
  have ok: "btm_ok (rd_entries c)" and id: "re_message_id e = mid"
    using inv rd_get_id [OF _ get] by (auto simp: rd_inv_def rd_wf_def)
  let ?c = "c\<lparr>rd_entries := btm_remove mid (rd_entries c), rd_in_flight_hashes := btm_insert mid h (rd_in_flight_hashes c)\<rparr>"
  have run: "rd_take_for_delivery_with_hash mid ho c = (Some e, ?c)"
    using get h inv(2) id by (simp add: rd_take_for_delivery_with_hash_def Let_def)
  moreover have "set (btm_remove mid (rd_entries c)) = set (rd_entries c) - {(mid, e)}"
  proof -
    have "fst p = mid \<longleftrightarrow> p = (mid, e)" if "p \<in> set (rd_entries c)" for p
      using that get btm_get_Some_iff [OF ok, of mid "snd p"] by (metis fst_conv option.inject prod.collapse snd_conv)
    then show ?thesis unfolding set_btm_remove by blast
  qed
  moreover have "length (rd_entries c) = Suc (length (btm_remove mid (rd_entries c)))"
  proof -
    have "0 < length (rd_entries c)" using get by (metis btm_get_Nil length_greater_0_conv option.distinct(1))
    then show ?thesis using length_btm_remove [OF ok, of mid] get by simp
  qed
  ultimately show ?thesis using rd_inv_take [OF inv(1), of mid ho] inv(2) id by (auto simp: rd_len_def)
qed

text \<open>What the search leaves: either nothing can be delivered, or a queued message is now in flight.\<close>

definition pop_effect ::
    "'ch broker_ext \<Rightarrow> StoredMessage list \<Rightarrow> (i32 \<Rightarrow> cref option) \<Rightarrow> RedeliveryController
     \<Rightarrow> (RedeliveryEntry \<times> StoredMessage \<times> cref) option \<Rightarrow> RedeliveryController \<Rightarrow> bool" where
  "pop_effect bx l sel c res c' \<longleftrightarrow> rd_inv c' \<and> rd_block_hashes c' \<and> set (rd_entries c') \<subseteq> set (rd_entries c) \<and>
    (case res of
       None \<Rightarrow> rd_in_flight_hashes c' = rd_in_flight_hashes c \<and> rd_len c' \<le> rd_len c
     | Some (e, m, r) \<Rightarrow> re_sticky_key_hash e = Some (msg_hash bx m) \<and> m \<in> set l \<and>
         sm_message_id m = re_message_id e \<and> sel (msg_hash bx m) = Some r \<and> \<not> has_in_flight_hash (msg_hash bx m) c \<and>
         rd_in_flight_hashes c' = btm_insert (re_message_id e) (msg_hash bx m) (rd_in_flight_hashes c) \<and>
         (re_message_id e, e) \<in> set (rd_entries c) - set (rd_entries c') \<and> rd_len c' < rd_len c)"

lemma pop_effect_weaken:
  assumes "pop_effect bx l sel c1 res c'" "rd_in_flight_hashes c1 = rd_in_flight_hashes c"
    "set (rd_entries c1) \<subseteq> set (rd_entries c)" "rd_len c1 \<le> rd_len c"
  shows "pop_effect bx l sel c res c'"
  using assms by (auto simp: pop_effect_def has_in_flight_iff split: option.splits)

context storage_entries
begin

text \<open>The search offers a queued message whose hash is not in flight, together with a consumer for it.\<close>

lemma pop_loop_ok:
  assumes s: "inv s" and c: "rd_inv c" "rd_block_hashes c"
    and qs: "\<And>q. q \<in> set qs \<Longrightarrow> tag_ok bx (log s topic) q \<and> btm_get (re_message_id q) (rd_in_flight_hashes c) = None \<and>
      (\<forall>e. btm_get (re_message_id q) (rd_entries c) = Some e \<longrightarrow> e = q)"
  shows "\<exists>res c'. pop_dispatchable_loop st s topic sub (sticky_key_hash_from_metadata (bx_proto bx)) sel qs c = (Inr res, c') \<and>
    pop_effect bx (log s topic) sel c res c'"
  using c qs
proof (induction qs arbitrary: c)
  case Nil
  then show ?case by (simp add: pop_effect_def)
next
  case (Cons q qs)
  let ?mid = "re_message_id q" and ?hf = "sticky_key_hash_from_metadata (bx_proto bx)"
  let ?loop = "\<lambda>qs c. pop_dispatchable_loop st s topic sub ?hf sel qs c"
  note q = Cons.prems(3) [of q, simplified]
  show ?case
  proof (cases "ackd s topic sub ?mid \<or> get_message_entry_by_id st s topic ?mid = None")
    case True
    define c1 where "c1 = snd (rd_remove ?mid c)"
    have nf: "btm_get ?mid (rd_in_flight_hashes c) = None" using q by blast
    note removed = rd_remove_facts [OF Cons.prems(1) nf, folded c1_def]
    have run: "?loop (q # qs) c = ?loop qs c1" using True
      by (cases "ackd s topic sub ?mid") (auto simp: acked_law [OF s] c1_def)
    have "tag_ok bx (log s topic) x \<and> btm_get (re_message_id x) (rd_in_flight_hashes c1) = None \<and>
        (\<forall>e. btm_get (re_message_id x) (rd_entries c1) = Some e \<longrightarrow> e = x)" if "x \<in> set qs" for x
    proof -
      have "btm_ok (rd_entries c)" "btm_ok (rd_entries c1)" using Cons.prems(1) removed(1) by (simp_all add: rd_inv_def rd_wf_def)
      then show ?thesis using Cons.prems(3) [of x] that removed(2,4) by (auto simp: btm_get_Some_iff)
    qed
    then have "\<exists>res c'. ?loop qs c1 = (Inr res, c') \<and> pop_effect bx (log s topic) sel c1 res c'"
      by (rule Cons.IH [rotated 2]) (use removed(1,3) Cons.prems(2) in simp_all)
    then obtain res c' where "?loop qs c1 = (Inr res, c')" "pop_effect bx (log s topic) sel c1 res c'" by blast
    then show ?thesis unfolding run using pop_effect_weaken [OF _ removed(2,4,5)] by blast
  next
    case False
    then obtain m where m: "get_message_entry_by_id st s topic ?mid = Some m" by blast
    have id: "sm_message_id m = ?mid" "m \<in> set (log s topic)"
      using find_some_mem [of "\<lambda>m. sm_message_id m = ?mid" "log s topic" m] m entry_law [OF s, of topic ?mid] by simp_all
    then have h: "re_sticky_key_hash q = Some (msg_hash bx m)" using q by (auto simp: tag_ok_def)
    have step: "?loop (q # qs) c =
        (if has_in_flight_hash (msg_hash bx m) c then ?loop qs c
         else case sel (msg_hash bx m) of None \<Rightarrow> ?loop qs c
           | Some r \<Rightarrow> (case rd_take_for_delivery_with_hash ?mid (Some (msg_hash bx m)) c of
               (None, c1) \<Rightarrow> ?loop qs c1 | (Some e, c1) \<Rightarrow> (Inr (Some (e, m, r)), c1)))"
      using False m h by (simp add: acked_law [OF s] Let_def)
    have ih: "\<exists>res c'. ?loop qs c = (Inr res, c') \<and> pop_effect bx (log s topic) sel c res c'"
      by (rule Cons.IH [OF Cons.prems(1,2)]) (use Cons.prems(3) in auto)
    show ?thesis
    proof (cases "has_in_flight_hash (msg_hash bx m) c \<or> sel (msg_hash bx m) = None \<or> btm_get ?mid (rd_entries c) = None")
      case True
      then have "?loop (q # qs) c = ?loop qs c"
        using step by (auto simp: rd_take_for_delivery_with_hash_def split: option.splits)
      with ih show ?thesis by simp
    next
      case False
      then obtain r e where r: "sel (msg_hash bx m) = Some r" and e: "btm_get ?mid (rd_entries c) = Some e" by auto
      then have eq: "e = q" using q by blast
      from rd_take_facts [OF Cons.prems(1,2) e, of "msg_hash bx m" "Some (msg_hash bx m)"] h obtain c' where
        take: "rd_take_for_delivery_with_hash ?mid (Some (msg_hash bx m)) c = (Some q, c')" "rd_inv c'" "rd_block_hashes c'"
          "rd_in_flight_hashes c' = btm_insert ?mid (msg_hash bx m) (rd_in_flight_hashes c)"
          "set (rd_entries c') = set (rd_entries c) - {(?mid, q)}" "rd_len c = Suc (rd_len c')"
        unfolding eq by auto
      have "(?mid, q) \<in> set (rd_entries c)" using e eq Cons.prems(1) by (auto simp: rd_inv_def rd_wf_def btm_get_Some_iff)
      then have "pop_effect bx (log s topic) sel c (Some (q, m, r)) c'"
        using False r take h id by (auto simp: pop_effect_def)
      then show ?thesis using step False r take(1) by simp
    qed
  qed
qed

end

section \<open>What is sent\<close>

text \<open>
  The sends of a run, in order: to whom, which entry of the log, and with which redelivery count. The channel of a
  consumer receives the sends to the consumers of its connection.
\<close>

type_synonym sends = "(cref \<times> StoredMessage \<times> u32) list"

definition delivered :: "'ch broker_ext \<Rightarrow> 'ch world \<Rightarrow> cref \<Rightarrow> sends \<Rightarrow> (u64 \<times> PendingMessage) list" where
  "delivered bx w x tr =
     map (\<lambda>(r, m, rc). (consumer_id (w_consumers w r),
            pending_message bx (w_consumers w r) (sm_message_id m) (sm_metadata m) (sm_payload m) rc))
       (filter (\<lambda>(r, _). c_connection (w_consumers w r) = c_connection (w_consumers w x)) tr)"

definition traced :: "'ch broker_ext \<Rightarrow> ('ch \<Rightarrow> (u64 \<times> PendingMessage) list) \<Rightarrow> 'ch world \<Rightarrow> 'ch world \<Rightarrow> sends \<Rightarrow> bool" where
  "traced bx sent w w' tr \<longleftrightarrow> frame_consumers w w' \<and>
     (\<forall>x. sent (channel_of w' x) = sent (channel_of w x) @ delivered bx w x tr)"

lemma delivered_simps [simp]:
  "delivered bx w x [] = []" "delivered bx w x (t @ t') = delivered bx w x t @ delivered bx w x t'"
  by (simp_all add: delivered_def)

lemma delivered_cong: "frame_consumers w w' \<Longrightarrow> delivered bx w' x t = delivered bx w x t"
  by (auto simp: delivered_def frame_consumers_def same_identity_def pending_message_def)

lemma traced_refl [simp]: "traced bx sent w w []"
  by (simp add: traced_def)

lemma traced_trans: "traced bx sent w w1 t1 \<Longrightarrow> traced bx sent w1 w2 t2 \<Longrightarrow> traced bx sent w w2 (t1 @ t2)"
  by (auto simp: traced_def delivered_cong intro: frame_consumers_trans)

lemma traced_upd_consumer:
  "same_identity (w_consumers w r) (f (w_consumers w r)) \<Longrightarrow> traced bx sent w (upd_consumer r f w) []"
  by (auto simp: traced_def channel_of_upd_consumer same_identity_def frame_consumers_def)

lemma traced_charge: "traced bx sent w (charge r n w) []"
  unfolding charge_def by (rule traced_upd_consumer) simp

lemma traced_send:
  assumes laws: "chan_laws bx sent"
    and send: "send_message_with_sticky_hash bx r (sm_message_id m) (sm_metadata m) (sm_payload m) rc h w = (ok, w')"
  shows "traced bx sent w w' (if ok then [(r, m, rc)] else [])"
proof -
  note frame = send_message_frame(1) [OF send]
  show ?thesis using send
  proof (cases rule: send_message_cases)
    case (Sent ch)
    let ?c = "w_consumers w r"
    let ?msg = "(consumer_id ?c, pending_message bx ?c (sm_message_id m) (sm_metadata m) (sm_payload m) rc)"
    have ch: "channel_of w' x = (if c_connection ?c = c_connection (w_consumers w x) then ch_send bx ch ?msg else channel_of w x)" for x
      unfolding Sent(5) channel_of_upd_channel by (simp add: channel_of_upd_consumer)
    have sent: "sent (ch_send bx ch ?msg) = sent (channel_of w r) @ [?msg]" using laws Sent(3) by (simp add: chan_laws_def)
    have "sent (channel_of w' x) = sent (channel_of w x) @ delivered bx w x [(r, m, rc)]" for x
    proof (cases "c_connection ?c = c_connection (w_consumers w x)")
      case True
      then have "channel_of w r = channel_of w x" by (simp add: channel_of_def)
      with True sent show ?thesis unfolding ch by (simp add: delivered_def)
    qed (simp add: ch delivered_def)
    with Sent(1) frame show ?thesis by (simp add: traced_def)
  qed (use frame in \<open>auto simp: traced_def channel_of_upd_consumer\<close>)
qed

section \<open>Invariant and order\<close>

definition assigned :: "KeySharedDispatcher \<Rightarrow> i32 \<Rightarrow> cref \<Rightarrow> bool" where
  "assigned d h r \<longleftrightarrow> (\<exists>rng. (rng, r) \<in> set (active_assignments d) \<and> in_range rng h)"

text \<open>The queue is well-formed and tagged, only consumers are assigned, and a message in flight is held by one.\<close>

definition key_inv :: "'ch broker_ext \<Rightarrow> StoredMessage list \<Rightarrow> 'ch world \<Rightarrow> KeySharedDispatcher \<Rightarrow> bool" where
  "key_inv bx l w d \<longleftrightarrow> rd_inv (kd_redelivery_controller d) \<and> rd_block_hashes (kd_redelivery_controller d) \<and>
     tagged bx l (kd_redelivery_controller d) \<and> snd ` set (active_assignments d) \<subseteq> set (key_get_consumers d) \<and>
     (\<forall>mid \<in> fst ` set (rd_in_flight_hashes (kd_redelivery_controller d)). \<exists>r \<in> set (key_get_consumers d). mid \<in> held w r)"

definition key_config :: "KeySharedDispatcher \<Rightarrow> KeySharedDispatcher \<Rightarrow> bool" where
  "key_config d d' \<longleftrightarrow> kd_consumers_by_id d' = kd_consumers_by_id d \<and>
     kd_auto_split_assignments d' = kd_auto_split_assignments d \<and>
     kd_sticky_assignments d' = kd_sticky_assignments d \<and> kd_key_shared_policy d' = kd_key_shared_policy d"

lemma key_config_eq:
  "key_config d d' \<Longrightarrow> active_assignments d' = active_assignments d \<and> key_get_consumers d' = key_get_consumers d"
  by (simp add: key_config_def active_assignments_def key_get_consumers_def split: KeySharedMode.split)

text \<open>
  The ids of the messages sent with hash \<open>h\<close> are increasing, and unless a message of that hash is in flight everything
  of that hash that is queued or still to be read comes after them.
\<close>

definition ids_of :: "'ch broker_ext \<Rightarrow> i32 \<Rightarrow> sends \<Rightarrow> (u64 \<times> u64) list" where
  "ids_of bx h tr = map (\<lambda>(_, m, _). id_key (sm_message_id m)) (filter (\<lambda>(_, m, _). msg_hash bx m = h) tr)"

definition waiting :: "'ch broker_ext \<Rightarrow> StoredMessage list \<Rightarrow> KeySharedDispatcher \<Rightarrow> i32 \<Rightarrow> (u64 \<times> u64) set" where
  "waiting bx l d h = {id_key mid | mid e. (mid, e) \<in> set (rd_entries (kd_redelivery_controller d)) \<and> re_sticky_key_hash e = Some h} \<union>
     {id_key (sm_message_id x) | x. x \<in> set (to_read l (kd_read_position d)) \<and> msg_hash bx x = h}"

definition order_ok :: "'ch broker_ext \<Rightarrow> StoredMessage list \<Rightarrow> KeySharedDispatcher \<Rightarrow> sends \<Rightarrow> bool" where
  "order_ok bx l d tr \<longleftrightarrow> (\<forall>h. sorted_wrt (<) (ids_of bx h tr) \<and>
     (\<not> has_in_flight_hash h (kd_redelivery_controller d) \<longrightarrow> (\<forall>k \<in> set (ids_of bx h tr). \<forall>x \<in> waiting bx l d h. k < x)))"

lemma ids_of_simps [simp]:
  "ids_of bx h [] = []" "ids_of bx h (t @ t') = ids_of bx h t @ ids_of bx h t'"
  "ids_of bx h [(r, m, rc)] = (if msg_hash bx m = h then [id_key (sm_message_id m)] else [])"
  by (simp_all add: ids_of_def)

lemma order_ok_Nil [simp]: "order_ok bx l d []"
  by (simp add: order_ok_def)

text \<open>Nothing is sent and nothing new waits.\<close>

lemma order_ok_shrink:
  assumes "order_ok bx l d tr" "\<And>h. has_in_flight_hash h (kd_redelivery_controller d) \<Longrightarrow> has_in_flight_hash h (kd_redelivery_controller d')"
    "\<And>h. \<not> has_in_flight_hash h (kd_redelivery_controller d) \<Longrightarrow> waiting bx l d' h \<subseteq> waiting bx l d h"
  shows "order_ok bx l d' tr"
  using assms unfolding order_ok_def by blast

text \<open>The next message of a hash is sent.\<close>

lemma order_ok_send:
  assumes ok: "order_ok bx l d tr" and nf: "\<not> has_in_flight_hash (msg_hash bx m) (kd_redelivery_controller d)"
    and m: "id_key (sm_message_id m) \<in> waiting bx l d (msg_hash bx m)"
    and flight: "\<And>h. has_in_flight_hash h (kd_redelivery_controller d) \<Longrightarrow> has_in_flight_hash h (kd_redelivery_controller d')"
    and rest: "\<And>h. waiting bx l d' h \<subseteq> waiting bx l d h"
    and after: "\<not> has_in_flight_hash (msg_hash bx m) (kd_redelivery_controller d') \<Longrightarrow>
      \<forall>x \<in> waiting bx l d' (msg_hash bx m). id_key (sm_message_id m) < x"
  shows "order_ok bx l d' (tr @ [(r, m, rc)])"
  unfolding order_ok_def
proof
  fix h
  let ?ks = "ids_of bx h tr"
  have old: "sorted_wrt (<) ?ks" "\<not> has_in_flight_hash h (kd_redelivery_controller d) \<Longrightarrow> \<forall>k \<in> set ?ks. \<forall>x \<in> waiting bx l d h. k < x"
    using ok by (auto simp: order_ok_def)
  show "sorted_wrt (<) (ids_of bx h (tr @ [(r, m, rc)])) \<and>
    (\<not> has_in_flight_hash h (kd_redelivery_controller d') \<longrightarrow>
      (\<forall>k \<in> set (ids_of bx h (tr @ [(r, m, rc)])). \<forall>x \<in> waiting bx l d' h. k < x))"
  proof (cases "msg_hash bx m = h")
    case True
    then have lt: "\<forall>k \<in> set ?ks. \<forall>x \<in> waiting bx l d h. k < x" using old(2) nf by simp
    then have "sorted_wrt (<) (?ks @ [id_key (sm_message_id m)])" using old(1) m True by (simp add: sorted_wrt_append)
    moreover have "\<forall>x \<in> waiting bx l d' h. k < x"
      if "\<not> has_in_flight_hash h (kd_redelivery_controller d')" "k \<in> set ?ks \<or> k = id_key (sm_message_id m)" for k
      using that lt rest [of h] after True by blast
    ultimately show ?thesis using True by (simp del: sorted_wrt_append)
  next
    case False
    have "\<forall>x \<in> waiting bx l d' h. k < x" if "\<not> has_in_flight_hash h (kd_redelivery_controller d')" "k \<in> set ?ks" for k
      using that old(2) flight [of h] rest [of h] by blast
    then show ?thesis using False old(1) by simp
  qed
qed

text \<open>The effect of a stretch of the loop.\<close>

definition step_ok ::
    "'ch broker_ext \<Rightarrow> ('ch \<Rightarrow> (u64 \<times> PendingMessage) list) \<Rightarrow> StoredMessage list \<Rightarrow> 'ch world \<Rightarrow> KeySharedDispatcher
     \<Rightarrow> 'ch world \<Rightarrow> KeySharedDispatcher \<Rightarrow> bool" where
  "step_ok bx sent l w d w' d' \<longleftrightarrow> key_config d d' \<and> key_inv bx l w' d' \<and>
     (\<exists>tr. traced bx sent w w' tr \<and> (\<forall>(r, m, _) \<in> set tr. assigned d (msg_hash bx m) r) \<and>
       (\<forall>tr0. order_ok bx l d tr0 \<longrightarrow> order_ok bx l d' (tr0 @ tr)))"

lemma step_ok_refl: "key_inv bx l w d \<Longrightarrow> step_ok bx sent l w d w d"
  unfolding step_ok_def key_config_def by (auto intro!: exI [of _ "[]"])

lemma step_ok_trans:
  assumes "step_ok bx sent l w d w1 d1" "step_ok bx sent l w1 d1 w2 d2"
  shows "step_ok bx sent l w d w2 d2"
proof -
  from assms obtain t1 t2 where
    t1: "key_config d d1" "traced bx sent w w1 t1" "\<forall>(r, m, _) \<in> set t1. assigned d (msg_hash bx m) r"
      "\<forall>tr0. order_ok bx l d tr0 \<longrightarrow> order_ok bx l d1 (tr0 @ t1)" and
    t2: "key_config d1 d2" "key_inv bx l w2 d2" "traced bx sent w1 w2 t2" "\<forall>(r, m, _) \<in> set t2. assigned d1 (msg_hash bx m) r"
      "\<forall>tr0. order_ok bx l d1 tr0 \<longrightarrow> order_ok bx l d2 (tr0 @ t2)"
    by (auto simp: step_ok_def)
  have "assigned d1 = assigned d" using key_config_eq [OF t1(1)] by (intro ext) (simp add: assigned_def)
  moreover have "key_config d d2" using t1(1) t2(1) by (simp add: key_config_def)
  moreover have "order_ok bx l d2 (tr0 @ t1 @ t2)" if "order_ok bx l d tr0" for tr0
    using t1(4) t2(5) that by (metis append_assoc)
  ultimately show ?thesis
    using t1 t2 traced_trans [OF t1(2) t2(3)] unfolding step_ok_def by (intro conjI exI [of _ "t1 @ t2"]) auto
qed

section \<open>The halves of an iteration\<close>

lemma select_consumer_some:
  assumes "select_consumer_for_hash w d h = Some r"
  shows "assigned d h r" "0 < available_permits (w_consumers w r)"
proof -
  obtain rng where "find (\<lambda>(rng, r). range_start rng \<le> h \<and> h \<le> range_end rng \<and>
       0 < available_permits_now (w_consumers w r) \<and> is_writable w r) (active_assignments d) = Some (rng, r)"
    using assms by (auto simp: select_consumer_for_hash_def)
  note found = find_some_mem [OF this]
  then show "assigned d h r" by (auto simp: assigned_def in_range_def)
  have "0 < i32_as_u32 (max 0 (available_permits (w_consumers w r)))" using found by (simp add: available_permits_now_def)
  then show "0 < available_permits (w_consumers w r)"
    by (cases "0 < available_permits (w_consumers w r)") (auto simp: i32_as_u32_def max_def split: if_splits)
qed

lemma waiting_queued:
  "(mid, e) \<in> set (rd_entries (kd_redelivery_controller d)) \<Longrightarrow> re_sticky_key_hash e = Some h \<Longrightarrow> id_key mid \<in> waiting bx l d h"
  by (auto simp: waiting_def)

lemma waiting_read:
  "x \<in> set (to_read l (kd_read_position d)) \<Longrightarrow> id_key (sm_message_id x) \<in> waiting bx l d (msg_hash bx x)"
  by (auto simp: waiting_def)

lemma waiting_mono:
  assumes "\<And>mid e h. (mid, e) \<in> set (rd_entries (kd_redelivery_controller d')) \<Longrightarrow> re_sticky_key_hash e = Some h \<Longrightarrow>
      id_key mid \<in> waiting bx l d h"
    and "set (to_read l (kd_read_position d')) \<subseteq> set (to_read l (kd_read_position d))"
  shows "waiting bx l d' h \<subseteq> waiting bx l d h"
proof
  fix k assume "k \<in> waiting bx l d' h"
  then consider mid e where "k = id_key mid" "(mid, e) \<in> set (rd_entries (kd_redelivery_controller d'))" "re_sticky_key_hash e = Some h"
    | x where "k = id_key (sm_message_id x)" "x \<in> set (to_read l (kd_read_position d'))" "msg_hash bx x = h"
    unfolding waiting_def by blast
  then show "k \<in> waiting bx l d h"
  proof cases
    case 1
    then show ?thesis using assms(1) by blast
  next
    case 2
    then show ?thesis using assms(2) waiting_read by blast
  qed
qed

text \<open>The world after a message was sent, or not.\<close>

lemma attempt_world:
  assumes laws: "chan_laws bx sent"
    and send: "send_message_with_sticky_hash bx r (sm_message_id m) (sm_metadata m) (sm_payload m) rc h (charge r n w) = (ok, w2)"
    and w3_def: "w3 = upd_consumer r (if ok then record_message_dispatched n sz else add_permits n) w2"
  shows "traced bx sent w w3 (if ok then [(r, m, rc)] else [])"
    "held w x - {sm_message_id m} \<subseteq> held w3 x" "ok \<Longrightarrow> held w x \<subseteq> held w3 x" "ok \<Longrightarrow> sm_message_id m \<in> held w3 r"
proof -
  have "traced bx sent w2 w3 []" unfolding w3_def by (rule traced_upd_consumer) simp
  from traced_trans [OF traced_trans [OF traced_charge traced_send [OF laws send]] this]
  show "traced bx sent w w3 (if ok then [(r, m, rc)] else [])" by simp
  have "pendings w3 x = pendings w2 x" for x by (simp add: w3_def pendings_upd_consumer) (simp add: pendings_def)
  then have held: "held w3 x = held w2 x" for x by (simp add: held_def)
  note p = send_message_pendings [OF send, unfolded charge_facts(3)]
  have other: "x \<noteq> r \<Longrightarrow> held w2 x = held w x" using p(1) by (simp add: held_def)
  have sent: "ok \<Longrightarrow> held w2 r = insert (sm_message_id m) (held w r)" using p(2) by (simp add: held_def)
  have fail: "held w r - {sm_message_id m} \<subseteq> held w2 r" if "\<not> ok"
    using p(3) [OF that] unfolding held_def by (elim disjE) (simp_all add: Diff_subset)
  show "held w x - {sm_message_id m} \<subseteq> held w3 x" "ok \<Longrightarrow> held w x \<subseteq> held w3 x" "ok \<Longrightarrow> sm_message_id m \<in> held w3 r"
    unfolding held using other sent fail by (cases "x = r"; cases ok; auto)+
qed

lemma key_inv_member: "key_inv bx l w d \<Longrightarrow> assigned d h r \<Longrightarrow> r \<in> set (key_get_consumers d)"
  by (force simp: key_inv_def assigned_def)

text \<open>The message taken from the queue is sent: it is now in flight.\<close>

lemma redeliver_sent:
  assumes inv: "key_inv bx l w d" and pop: "pop_effect bx l sel (kd_redelivery_controller d) (Some (e, m, r)) c'"
    and r: "assigned d (msg_hash bx m) r"
    and world: "traced bx sent w w3 [(r, m, rc)]" "\<And>x. held w x \<subseteq> held w3 x" "sm_message_id m \<in> held w3 r"
    and d': "key_config d d'" "kd_redelivery_controller d' = c'" "kd_read_position d' = kd_read_position d"
  shows "step_ok bx sent l w d w3 d'"
proof -
  let ?c = "kd_redelivery_controller d" and ?mid = "re_message_id e" and ?h = "msg_hash bx m"
  note p = pop [unfolded pop_effect_def, simplified]
  have flight: "rd_in_flight_hashes c' = btm_insert ?mid ?h (rd_in_flight_hashes ?c)" using p by blast
  have nf: "?mid \<notin> fst ` set (rd_in_flight_hashes ?c)"
    using p inv queued_not_in_flight [of ?c ?mid e] by (auto simp: key_inv_def btm_get_None_iff)
  note cfg = key_config_eq [OF d'(1)]
  have "\<exists>x \<in> set (key_get_consumers d'). mid \<in> held w3 x" if "mid \<in> fst ` set (rd_in_flight_hashes c')" for mid
  proof (cases "mid = ?mid")
    case True
    then show ?thesis using world(3) p cfg key_inv_member [OF inv r] by auto
  next
    case False
    with that flight have "mid \<in> fst ` set (rd_in_flight_hashes ?c)" by simp
    with inv world(2) cfg show ?thesis by (fastforce simp: key_inv_def)
  qed
  moreover have "tagged bx l c'" using inv p tagged_mono [of bx l ?c c'] by (auto simp: key_inv_def)
  ultimately have inv': "key_inv bx l w3 d'" using inv p cfg d'(2) by (auto simp: key_inv_def)
  have "order_ok bx l d' (tr0 @ [(r, m, rc)])" if tr0: "order_ok bx l d tr0" for tr0
  proof (rule order_ok_send [OF tr0])
    show "\<not> has_in_flight_hash ?h ?c" using p by blast
    show "id_key (sm_message_id m) \<in> waiting bx l d ?h" using p waiting_queued [of ?mid e d ?h bx l] by auto
    show "waiting bx l d' h \<subseteq> waiting bx l d h" for h
      by (rule waiting_mono) (use p d'(2,3) in \<open>auto intro: waiting_queued\<close>)
    have in': "(mid, h) \<in> set (rd_in_flight_hashes c') \<longleftrightarrow> (mid, h) = (?mid, ?h) \<or> (mid, h) \<in> set (rd_in_flight_hashes ?c)" for mid h
      unfolding flight set_btm_insert_new [OF nf] by auto
    show "has_in_flight_hash h (kd_redelivery_controller d')" if "has_in_flight_hash h ?c" for h
      using that in' unfolding has_in_flight_iff d'(2) by blast
    have "has_in_flight_hash ?h (kd_redelivery_controller d')" using in' unfolding has_in_flight_iff d'(2) by blast
    then show "\<forall>x \<in> waiting bx l d' ?h. id_key (sm_message_id m) < x"
      if "\<not> has_in_flight_hash ?h (kd_redelivery_controller d')" using that by blast
  qed
  then show ?thesis using inv' world(1) r d'(1) by (auto simp: step_ok_def intro!: exI [of _ "[(r, m, rc)]"])
qed

text \<open>It could not be sent: it is queued again and no longer in flight.\<close>

lemma redeliver_restored:
  assumes inv: "key_inv bx l w d" and pop: "pop_effect bx l sel (kd_redelivery_controller d) (Some (e, m, r)) c'"
    and world: "traced bx sent w w3 []" "\<And>x. held w x - {sm_message_id m} \<subseteq> held w3 x"
    and e': "re_message_id e' = re_message_id e" "re_sticky_key_hash e' = Some (msg_hash bx m)"
    and d': "key_config d d'" "kd_redelivery_controller d' = rd_restore e' c'" "kd_read_position d' = kd_read_position d"
  shows "step_ok bx sent l w d w3 d'" "rd_len (kd_redelivery_controller d') \<le> rd_len (kd_redelivery_controller d)"
proof -
  let ?c = "kd_redelivery_controller d" and ?mid = "re_message_id e" and ?h = "msg_hash bx m"
  note p = pop [unfolded pop_effect_def, simplified]
  have rd: "rd_inv ?c" using inv by (simp add: key_inv_def)
  have nf: "btm_get ?mid (rd_in_flight_hashes ?c) = None" using p queued_not_in_flight [OF rd] by blast
  have flight: "rd_in_flight_hashes (rd_restore e' c') = rd_in_flight_hashes ?c"
    using p by (simp add: in_flight_restore e'(1) btm_remove_absent [OF nf])
  have ok: "btm_ok (rd_entries ?c)" using rd by (simp add: rd_inv_def rd_wf_def)
  have fresh: "?mid \<notin> fst ` set (rd_entries c')"
  proof
    assume "?mid \<in> fst ` set (rd_entries c')"
    then obtain x where "(?mid, x) \<in> set (rd_entries c')" by auto
    moreover from this p have "(?mid, x) \<in> set (rd_entries ?c)" "(?mid, e) \<in> set (rd_entries ?c)" by auto
    then have "x = e" using btm_get_Some_iff [OF ok, of ?mid] by (metis option.inject)
    ultimately show False using p by auto
  qed
  have entries: "set (rd_entries (rd_restore e' c')) = insert (?mid, e') (set (rd_entries c'))"
    using rd_add_new [of e' "release_in_flight_hash ?mid c'"] fresh by (simp add: rd_restore_def e'(1))
  note cfg = key_config_eq [OF d'(1)]
  have "tag_ok bx l e" using inv p by (auto simp: key_inv_def tagged_def)
  moreover have "re_sticky_key_hash e = Some ?h" using p by blast
  ultimately have "tag_ok bx l e'" unfolding tag_ok_def e' by (metis option.inject)
  then have "tagged bx l (rd_restore e' c')"
    using inv p tagged_mono [of bx l ?c c'] by (auto simp: key_inv_def tagged_def entries)
  moreover have "\<exists>x \<in> set (key_get_consumers d'). mid \<in> held w3 x" if "mid \<in> fst ` set (rd_in_flight_hashes ?c)" for mid
  proof -
    have "sm_message_id m = ?mid" using p by blast
    then have "mid \<noteq> sm_message_id m" using that nf by (metis btm_get_None_iff)
    with that inv world(2) cfg show ?thesis by (fastforce simp: key_inv_def)
  qed
  moreover have "rd_inv (rd_restore e' c')" "rd_block_hashes (rd_restore e' c')"
    using p rd_inv_restore [of c' e'] by (auto simp: rd_restore_def)
  ultimately have inv': "key_inv bx l w3 d'" using inv cfg d'(2) flight by (auto simp: key_inv_def)
  have "order_ok bx l d' tr0" if tr0: "order_ok bx l d tr0" for tr0
  proof (rule order_ok_shrink [OF tr0])
    show "has_in_flight_hash h (kd_redelivery_controller d')" if "has_in_flight_hash h ?c" for h
      using that by (simp add: has_in_flight_iff d'(2) flight)
    show "waiting bx l d' h \<subseteq> waiting bx l d h" for h
      by (rule waiting_mono) (use p d'(2,3) e'(2) in \<open>auto simp: entries intro: waiting_queued\<close>)
  qed
  then show "step_ok bx sent l w d w3 d'" using inv' world(1) d'(1) by (auto simp: step_ok_def intro!: exI [of _ "[]"])
  have "rd_len (rd_restore e' c') \<le> Suc (rd_len c')"
    using rd_add_len_le [of "release_in_flight_hash ?mid c'" e'] p rd_inv_release(1) [of c' ?mid]
    by (simp add: rd_restore_def e'(1) rd_len_def)
  then show "rd_len (kd_redelivery_controller d') \<le> rd_len ?c" using p d'(2) by simp
qed

lemma key_config_ops [simp]:
  "key_config d d"
  "key_config d (d\<lparr>kd_redelivery_controller := c\<rparr>)" "key_config d (d\<lparr>kd_read_position := rp\<rparr>)"
  "key_config d (d'\<lparr>kd_total_available_permits := n\<rparr>) = key_config d d'"
  "key_config d (d'\<lparr>kd_read_position := rp\<rparr>) = key_config d d'"
  "key_config d (d'\<lparr>kd_redelivery_controller := c\<rparr>) = key_config d d'"
  by (simp_all add: key_config_def)

lemmas key_queue_defs = key_restore_redelivery_message_def key_subtract_total_permits_def key_add_redelivery_entries_def

text \<open>Nothing was sent; entries that are acknowledged or missing may have left the queue.\<close>

lemma nothing_delivered:
  assumes inv: "key_inv bx l w d" and pop: "pop_effect bx l sel (kd_redelivery_controller d) None c'"
  shows "step_ok bx sent l w d w (d\<lparr>kd_redelivery_controller := c'\<rparr>)"
proof -
  let ?d = "d\<lparr>kd_redelivery_controller := c'\<rparr>"
  note p = pop [unfolded pop_effect_def, simplified]
  have "tagged bx l c'" using inv p tagged_mono by (auto simp: key_inv_def)
  moreover have cfg: "active_assignments ?d = active_assignments d" "key_get_consumers ?d = key_get_consumers d"
    using key_config_eq [of d ?d] by simp_all
  ultimately have "key_inv bx l w ?d" using inv p by (simp add: key_inv_def)
  moreover have "order_ok bx l ?d tr0" if tr0: "order_ok bx l d tr0" for tr0
  proof (rule order_ok_shrink [OF tr0])
    show "has_in_flight_hash h (kd_redelivery_controller ?d)" if "has_in_flight_hash h (kd_redelivery_controller d)" for h
      using that p by (simp add: has_in_flight_iff)
    show "waiting bx l ?d h \<subseteq> waiting bx l d h" for h
      by (rule waiting_mono) (use p in \<open>auto intro: waiting_queued\<close>)
  qed
  ultimately show ?thesis by (auto simp: step_ok_def intro!: exI [of _ "[]"])
qed

context storage_entries
begin

lemma key_pop_ok:
  assumes s: "inv s" and inv: "key_inv bx (log s topic) w d"
  shows "\<exists>res c'. pop_dispatchable_redelivery_message bx st s topic sub w d = (Inr res, d\<lparr>kd_redelivery_controller := c'\<rparr>) \<and>
    pop_effect bx (log s topic) (select_consumer_for_hash w d) (kd_redelivery_controller d) res c'"
proof -
  let ?c = "kd_redelivery_controller d"
  have rd: "rd_inv ?c" "rd_block_hashes ?c" using inv by (auto simp: key_inv_def)
  then have ok: "btm_ok (rd_entries ?c)" by (simp add: rd_inv_def rd_wf_def)
  have "tag_ok bx (log s topic) q \<and> btm_get (re_message_id q) (rd_in_flight_hashes ?c) = None \<and>
      (\<forall>e. btm_get (re_message_id q) (rd_entries ?c) = Some e \<longrightarrow> e = q)" if q: "q \<in> set (queued_entries ?c)" for q
  proof -
    obtain k where k: "(k, q) \<in> set (rd_entries ?c)" using q by (auto simp: queued_entries_def btm_values_def)
    then have id: "re_message_id q = k" using rd(1) by (auto simp: rd_inv_def rd_wf_def)
    have "tag_ok bx (log s topic) q" using inv k by (auto simp: key_inv_def tagged_def)
    moreover have "btm_get k (rd_entries ?c) = Some q" using k btm_get_Some_iff [OF ok] by simp
    ultimately show ?thesis using queued_not_in_flight [OF rd(1) k] unfolding id by simp
  qed
  then obtain res c' where "pop_dispatchable_loop st s topic sub (sticky_key_hash_from_metadata (bx_proto bx))
      (select_consumer_for_hash w d) (queued_entries ?c) ?c = (Inr res, c')"
    "pop_effect bx (log s topic) (select_consumer_for_hash w d) ?c res c'"
    using pop_loop_ok [OF s rd] by blast
  then show ?thesis by (auto simp: pop_dispatchable_redelivery_message_def)
qed

lemma key_redeliver_ok:
  assumes s: "inv s" and laws: "chan_laws bx sent" and inv: "key_inv bx (log s topic) w d"
  shows "\<exists>t w' d'. key_redeliver bx st s topic sub w d = (t, w', d') \<and> step_ok bx sent (log s topic) w d w' d' \<and>
    kd_read_position d' = kd_read_position d \<and>
    rd_len (kd_redelivery_controller d') \<le> rd_len (kd_redelivery_controller d) \<and>
    (t = Stop \<or> t = Next False \<or>
     t = Next True \<and> rd_len (kd_redelivery_controller d') < rd_len (kd_redelivery_controller d))"
proof -
  let ?l = "log s topic"
  from key_pop_ok [OF s inv, of sub] obtain res c' where
    pop: "pop_dispatchable_redelivery_message bx st s topic sub w d = (Inr res, d\<lparr>kd_redelivery_controller := c'\<rparr>)" and
    eff: "pop_effect bx ?l (select_consumer_for_hash w d) (kd_redelivery_controller d) res c'" by blast
  show ?thesis
  proof (cases res)
    case None
    then show ?thesis using pop nothing_delivered [OF inv eff [unfolded None]] eff
      by (auto simp: key_redeliver_def pop_effect_def)
  next
    case (Some x)
    obtain e m r where x: "x = (e, m, r)" by (metis prod_cases3)
    note eff = eff [unfolded Some x]
    note p = eff [unfolded pop_effect_def, simplified]
    let ?h = "msg_hash bx m" and ?d1 = "d\<lparr>kd_redelivery_controller := c'\<rparr>"
    have h: "re_sticky_key_hash e = Some ?h" and id: "sm_message_id m = re_message_id e" using p by auto
    note r = select_consumer_some [of w d ?h r]
    have r: "assigned d ?h r" "0 < available_permits (w_consumers w r)" using p r by auto
    define n where "n = messages_in_batch (bx_proto bx) (sm_metadata m)"
    obtain c1 where use: "try_use_permits n (w_consumers w r) = (True, c1)" using r(2) by (simp add: try_use_permits_def)
    have charged: "upd_consumer r (\<lambda>_. c1) w = charge r n w" by (simp add: charge_def use)
    obtain ok w2 where send: "send_message_with_sticky_hash bx r (sm_message_id m) (sm_metadata m) (sm_payload m)
        (re_redelivery_count e) (Some ?h) (charge r n w) = (ok, w2)" by fastforce
    note world = attempt_world [OF laws send refl]
    let ?w3 = "upd_consumer r (if ok then record_message_dispatched n (length (sm_payload m)) else add_permits n) w2"
    show ?thesis
    proof (cases ok)
      case True
      let ?d2 = "key_subtract_total_permits n ?d1"
      have "step_ok bx sent ?l w d ?w3 ?d2"
        by (rule redeliver_sent [OF inv eff r(1)]) (use world True in \<open>simp_all add: key_queue_defs\<close>)
      moreover have "key_redeliver bx st s topic sub w d = (Next True, ?w3, ?d2)"
        using pop Some x h use charged send True by (simp add: key_redeliver_def Let_def n_def [symmetric])
      ultimately show ?thesis using p by (simp add: key_queue_defs)
    next
      case False
      let ?e = "\<lparr>re_message_id = sm_message_id m, re_redelivery_count = re_redelivery_count e + 1, re_sticky_key_hash = Some ?h\<rparr>"
      let ?d3 = "key_restore_redelivery_message ?e (key_subtract_total_permits n ?d1)"
      let ?d4 = "?d3\<lparr>kd_total_available_permits := wrap_i32 (kd_total_available_permits ?d3 + u32_as_i32 n)\<rparr>"
      have traced: "traced bx sent w ?w3 []" using world(1) False by simp
      have e: "re_message_id ?e = re_message_id e" "re_sticky_key_hash ?e = Some ?h" using id by simp_all
      have d4: "key_config d ?d4" "kd_redelivery_controller ?d4 = rd_restore ?e c'" "kd_read_position ?d4 = kd_read_position d"
        by (simp_all add: key_queue_defs)
      note restored = redeliver_restored [OF inv eff traced world(2) e d4]
      moreover have "key_redeliver bx st s topic sub w d = (Stop, ?w3, ?d4)"
        using pop Some x h use charged send False by (simp add: key_redeliver_def Let_def n_def [symmetric])
      ultimately show ?thesis using d4(3) by simp
    qed
  qed
qed

end

lemma rd_add_entries:
  assumes c: "rd_inv c" and e: "(k, x) \<in> set (rd_entries (rd_add e c))" and old: "\<And>y. (k, y) \<in> set (rd_entries c) \<Longrightarrow> re_sticky_key_hash y \<noteq> None"
  shows "(k, x) = (re_message_id e, e) \<or>
    (\<exists>y. (k, y) \<in> set (rd_entries c) \<and> re_message_id x = re_message_id y \<and> re_sticky_key_hash x = re_sticky_key_hash y)"
proof (cases "btm_get (re_message_id e) (rd_entries c)")
  case None
  then show ?thesis using e rd_add_new [of e c] by (auto simp: btm_get_None_iff)
next
  case (Some y)
  have ok: "btm_ok (rd_entries c)" using c by (simp add: rd_inv_def rd_wf_def)
  note iff = btm_get_Some_iff [OF ok]
  show ?thesis
  proof (cases "k = re_message_id e")
    case False
    have "btm_get k (rd_entries (rd_add e c)) = btm_get k (rd_entries c)"
      using False ok by (simp add: rd_add_def Some Let_def)
    moreover have "btm_get k (rd_entries (rd_add e c)) = Some x"
      using e btm_get_Some_iff [of "rd_entries (rd_add e c)" k x] ok
      by (auto simp: rd_add_def Some Let_def btm_ok_insert split: if_splits)
    ultimately have "(k, x) \<in> set (rd_entries c)" using iff [of k x] by simp
    then show ?thesis by blast
  next
    case True
    then have y: "(k, y) \<in> set (rd_entries c)" using Some iff by simp
    then have "rd_entries (rd_add e c) = btm_insert k (y\<lparr>re_redelivery_count := max (re_redelivery_count y) (re_redelivery_count e)\<rparr>) (rd_entries c)"
      using Some True old [OF y] by (auto simp: rd_add_def Let_def)
    then have "btm_get k (rd_entries (rd_add e c)) = Some (y\<lparr>re_redelivery_count := max (re_redelivery_count y) (re_redelivery_count e)\<rparr>)"
      "btm_ok (rd_entries (rd_add e c))" using ok by (simp_all add: btm_ok_insert)
    then have "x = y\<lparr>re_redelivery_count := max (re_redelivery_count y) (re_redelivery_count e)\<rparr>"
      using e btm_get_Some_iff [of "rd_entries (rd_add e c)" k x] by simp
    with y show ?thesis by auto
  qed
qed

lemma tagged_hash: "tagged bx l c \<Longrightarrow> (k, y) \<in> set (rd_entries c) \<Longrightarrow> re_sticky_key_hash y \<noteq> None"
  by (auto simp: tagged_def tag_ok_def)

text \<open>A message of the log that cannot be sent now joins the queue.\<close>

lemma enqueue_new:
  assumes inv: "key_inv bx l w d" and m: "m \<in> set (to_read l (kd_read_position d))"
    and tag: "\<forall>x \<in> set l. sm_message_id x = sm_message_id m \<longrightarrow> msg_hash bx x = msg_hash bx m"
    and nf: "sm_message_id m \<notin> fst ` set (rd_in_flight_hashes (kd_redelivery_controller d))"
    and e: "re_message_id e = sm_message_id m" "re_sticky_key_hash e = Some (msg_hash bx m)"
    and world: "traced bx sent w w3 []" "\<And>x. held w x - {sm_message_id m} \<subseteq> held w3 x"
    and d': "key_config d d'" "kd_redelivery_controller d' = rd_add e (kd_redelivery_controller d)"
      "set (to_read l (kd_read_position d')) \<subseteq> set (to_read l (kd_read_position d))"
  shows "step_ok bx sent l w d w3 d'"
proof -
  let ?c = "kd_redelivery_controller d" and ?mid = "sm_message_id m" and ?h = "msg_hash bx m"
  have rd: "rd_inv ?c" "tagged bx l ?c" using inv by (auto simp: key_inv_def)
  note cfg = key_config_eq [OF d'(1)]
  have entry: "(k, x) = (?mid, e) \<or>
    (\<exists>y. (k, y) \<in> set (rd_entries ?c) \<and> re_message_id x = re_message_id y \<and> re_sticky_key_hash x = re_sticky_key_hash y)"
    if "(k, x) \<in> set (rd_entries (rd_add e ?c))" for k x
    using rd_add_entries [OF rd(1) that] tagged_hash [OF rd(2)] e(1) by simp
  have "tag_ok bx l e" using tag unfolding tag_ok_def e by blast
  moreover have "tag_ok bx l x" if "(k, y) \<in> set (rd_entries ?c)" "re_message_id x = re_message_id y"
      "re_sticky_key_hash x = re_sticky_key_hash y" for k x y
  proof -
    have "tag_ok bx l y" using rd(2) that(1) by (auto simp: tagged_def)
    then show ?thesis unfolding tag_ok_def that(2,3) .
  qed
  ultimately have "tagged bx l (rd_add e ?c)" unfolding tagged_def using entry by fast
  moreover have "rd_inv (rd_add e ?c)" by (rule rd_inv_add [OF rd(1)]) (use nf e(1) in \<open>simp add: btm_get_None_iff\<close>)
  moreover have "\<exists>x \<in> set (key_get_consumers d'). mid \<in> held w3 x" if "mid \<in> fst ` set (rd_in_flight_hashes ?c)" for mid
  proof -
    have "mid \<noteq> ?mid" using that nf by metis
    with that inv world(2) cfg show ?thesis by (fastforce simp: key_inv_def)
  qed
  ultimately have inv': "key_inv bx l w3 d'" using inv cfg d'(2) by (auto simp: key_inv_def)
  have "order_ok bx l d' tr0" if tr0: "order_ok bx l d tr0" for tr0
  proof (rule order_ok_shrink [OF tr0])
    show "has_in_flight_hash h (kd_redelivery_controller d')" if "has_in_flight_hash h ?c" for h
      using that by (simp add: has_in_flight_iff d'(2))
    show "waiting bx l d' h \<subseteq> waiting bx l d h" for h
    proof (rule waiting_mono [OF _ d'(3)])
      fix k x h assume x: "(k, x) \<in> set (rd_entries (kd_redelivery_controller d'))" "re_sticky_key_hash x = Some h"
      note x1 = x(1) [unfolded d'(2)]
      show "id_key k \<in> waiting bx l d h"
      proof (cases "(k, x) = (?mid, e)")
        case True
        then show ?thesis using waiting_read [OF m, of bx] x(2) e(2) by auto
      next
        case False
        then show ?thesis using entry [OF x1] x(2) waiting_queued by metis
      qed
    qed
  qed
  then show ?thesis using inv' world(1) d'(1) by (auto simp: step_ok_def intro!: exI [of _ "[]"])
qed

text \<open>A message of the log is sent: nothing of its hash is queued or in flight.\<close>

lemma new_sent:
  assumes inv: "key_inv bx l w d" and m: "m \<in> set (to_read l (kd_read_position d))" and r: "assigned d (msg_hash bx m) r"
    and free: "\<not> is_hash_blocked (msg_hash bx m) (kd_redelivery_controller d)"
    and world: "traced bx sent w w3 [(r, m, rc)]" "\<And>x. held w x \<subseteq> held w3 x"
    and d': "key_config d d'" "kd_redelivery_controller d' = kd_redelivery_controller d"
      "set (to_read l (kd_read_position d')) \<subseteq> set (to_read l (kd_read_position d))"
      "\<forall>x \<in> set (to_read l (kd_read_position d')). id_key (sm_message_id m) < id_key (sm_message_id x)"
  shows "step_ok bx sent l w d w3 d'"
proof -
  let ?c = "kd_redelivery_controller d" and ?h = "msg_hash bx m"
  note cfg = key_config_eq [OF d'(1)]
  have inv': "key_inv bx l w3 d'" using inv cfg d'(2) world(2) by (fastforce simp: key_inv_def)
  have count: "hash_count ?c ?h = 0"
    using inv free by (auto simp: key_inv_def rd_inv_def is_hash_blocked_def counter_of_def split: if_splits)
  then have none: "(k, e) \<in> set (rd_entries ?c) \<Longrightarrow> re_sticky_key_hash e \<noteq> Some ?h" "(k, h) \<in> set (rd_in_flight_hashes ?c) \<Longrightarrow> h \<noteq> ?h" for k e h
    by (auto simp: hash_count_def btm_count_zero_iff)
  have "order_ok bx l d' (tr0 @ [(r, m, rc)])" if tr0: "order_ok bx l d tr0" for tr0
  proof (rule order_ok_send [OF tr0])
    show "\<not> has_in_flight_hash ?h ?c" using none(2) unfolding has_in_flight_iff by blast
    show "id_key (sm_message_id m) \<in> waiting bx l d ?h" by (rule waiting_read [OF m])
    show "waiting bx l d' h \<subseteq> waiting bx l d h" for h
      by (rule waiting_mono [OF _ d'(3)]) (use d'(2) in \<open>auto intro: waiting_queued\<close>)
    show "\<forall>x \<in> waiting bx l d' ?h. id_key (sm_message_id m) < x"
    proof
      fix k assume "k \<in> waiting bx l d' ?h"
      then obtain x where "k = id_key (sm_message_id x)" "x \<in> set (to_read l (kd_read_position d'))"
        using none(1) unfolding waiting_def d'(2) by blast
      then show "id_key (sm_message_id m) < k" using d'(4) by blast
    qed
  qed (simp add: d'(2))
  then show ?thesis using inv' world(1) r d'(1) by (auto simp: step_ok_def intro!: exI [of _ "[(r, m, rc)]"])
qed

lemma sorted_to_read:
  assumes "sorted_wrt (<) (map (\<lambda>m. id_key (sm_message_id m)) l)"
  shows "sorted_wrt (\<lambda>m m'. id_key (sm_message_id m) < id_key (sm_message_id m')) (to_read l rp)"
  using assms by (cases rp) (auto simp: log_from_def sorted_wrt_map sorted_wrt_filter)

text \<open>What a batch has left to do.\<close>

definition key_work :: "StoredMessage list \<Rightarrow> KeySharedDispatcher \<Rightarrow> nat" where
  "key_work l d = 2 * length (to_read l (kd_read_position d)) + rd_len (kd_redelivery_controller d)"

context storage_entries
begin

lemma log_unique:
  assumes "inv s" "m \<in> set (log s topic)" "x \<in> set (log s topic)" "sm_message_id x = sm_message_id m"
  shows "x = m"
proof -
  have "distinct (map (\<lambda>m. id_key (sm_message_id m)) (log s topic))"
    using log_sorted [OF assms(1), of topic] by (simp add: strict_sorted_iff)
  then have "inj_on (\<lambda>m. id_key (sm_message_id m)) (set (log s topic))" by (simp add: distinct_map)
  then show ?thesis by (rule inj_onD) (simp_all add: assms)
qed

lemma next_dispatchable_pos:
  assumes "inv s"
  shows "\<exists>q c pre. next_dispatchable_message st s topic sub P rp = Some (Inr c, q) \<and>
    to_read (log s topic) rp = pre @ to_read (log s topic) q \<and>
    (c = None \<or> (\<exists>m np. c = Some (candidate_of m np) \<and> \<not> P (sm_message_id m) \<and>
       to_read (log s topic) q = m # log_from (log s topic) np))"
proof (induction "length (to_read (log s topic) rp)" arbitrary: rp rule: less_induct)
  case less
  let ?l = "log s topic" and ?A = "ackd s topic sub"
  from next_candidate [OF assms, of topic sub rp] obtain q c pre where
    run: "next_unacked_candidate st s topic sub rp = Some (Inr c, q)" and
    pre: "to_read ?l rp = pre @ to_read ?l q" and
    c: "case c of
       None \<Rightarrow> \<forall>m \<in> set (to_read ?l q). ?A (sm_message_id m)
     | Some c \<Rightarrow> \<exists>m np ms. to_read ?l q = m # ms \<and> c = candidate_of m np \<and> \<not> ?A (sm_message_id m) \<and>
         log_from ?l np = ms" by blast
  show ?case
  proof (cases c)
    case None
    then have "next_dispatchable_message st s topic sub P rp = Some (Inr None, q)"
      using run by (subst next_dispatchable_message.simps) simp
    with pre show ?thesis by blast
  next
    case (Some cand)
    with c obtain m np where m: "to_read ?l q = m # log_from ?l np" "cand = candidate_of m np" by auto
    show ?thesis
    proof (cases "P (sm_message_id m)")
      case True
      then have step: "next_dispatchable_message st s topic sub P rp = next_dispatchable_message st s topic sub P (Some np)"
        using run Some m
        by (subst next_dispatchable_message.simps) (simp add: candidate_of_def commit_read_position_def)
      have split: "to_read ?l rp = (pre @ [m]) @ to_read ?l (Some np)" using pre m(1) by simp
      then have "length (to_read ?l (Some np)) < length (to_read ?l rp)" by simp
      from less [OF this] obtain q' c' pre' where
        "next_dispatchable_message st s topic sub P (Some np) = Some (Inr c', q')"
        "to_read ?l (Some np) = pre' @ to_read ?l q'"
        "c' = None \<or> (\<exists>m np. c' = Some (candidate_of m np) \<and> \<not> P (sm_message_id m) \<and> to_read ?l q' = m # log_from ?l np)"
        by blast
      with step split show ?thesis by (metis append_assoc)
    next
      case False
      then have "next_dispatchable_message st s topic sub P rp = Some (Inr (Some cand), q)"
        using run Some m by (subst next_dispatchable_message.simps) (simp add: candidate_of_def)
      with pre m False show ?thesis by blast
    qed
  qed
qed

lemma key_dispatch_new_ok:
  assumes s: "inv s" and laws: "chan_laws bx sent" and inv: "key_inv bx (log s topic) w d"
  shows "\<exists>t w' d'. key_dispatch_new bx st s topic sub w d = Some (t, w', d') \<and> step_ok bx sent (log s topic) w d w' d' \<and>
    (t = Stop \<and> key_work (log s topic) d' \<le> key_work (log s topic) d \<or>
     (t = Next False \<or> t = Next True) \<and> key_work (log s topic) d' < key_work (log s topic) d \<and>
       length (to_read (log s topic) (kd_read_position d')) < length (to_read (log s topic) (kd_read_position d)))"
proof -
  let ?l = "log s topic" and ?c = "kd_redelivery_controller d"
  let ?P = "is_message_pending w (btm_values (kd_consumers_by_id d))"
  from next_dispatchable_pos [OF s, of topic sub ?P "kd_read_position d"] obtain q c pre where
    run: "next_dispatchable_message st s topic sub ?P (kd_read_position d) = Some (Inr c, q)" and
    pre: "to_read ?l (kd_read_position d) = pre @ to_read ?l q" and
    c: "c = None \<or> (\<exists>m np. c = Some (candidate_of m np) \<and> \<not> ?P (sm_message_id m) \<and> to_read ?l q = m # log_from ?l np)"
    by blast
  define d0 where "d0 = d\<lparr>kd_read_position := q\<rparr>"
  have rd: "rd_inv ?c" using inv by (simp add: key_inv_def)
  have d0: "kd_redelivery_controller d0 = ?c" "key_config d d0" "kd_read_position d0 = q" by (simp_all add: d0_def)
  have inv0: "key_inv bx ?l w d0"
    using inv key_config_eq [OF d0(2)] by (simp add: key_inv_def d0(1))
  have "order_ok bx ?l d0 tr0" if tr0: "order_ok bx ?l d tr0" for tr0
  proof (rule order_ok_shrink [OF tr0])
    show "waiting bx ?l d0 h \<subseteq> waiting bx ?l d h" for h
      by (rule waiting_mono) (use pre in \<open>auto simp: d0(1,3) intro: waiting_queued\<close>)
  qed (simp add: d0(1))
  then have step0: "step_ok bx sent ?l w d w d0"
    using inv0 d0(2) by (auto simp: step_ok_def intro!: exI [of _ "[]"])
  have work0: "key_work ?l d0 \<le> key_work ?l d" by (simp add: key_work_def d0(1,3) pre)
  show ?thesis
  proof (cases c)
    case None
    then have "key_dispatch_new bx st s topic sub w d = Some (Stop, w, d0)"
      using run by (simp add: key_dispatch_new_def d0_def)
    with step0 work0 show ?thesis by blast
  next
    case (Some cand)
    then obtain m np where m: "cand = candidate_of m np" "\<not> ?P (sm_message_id m)" "to_read ?l q = m # log_from ?l np"
      using c by auto
    let ?h = "msg_hash bx m" and ?mid = "sm_message_id m"
    have ml: "m \<in> set ?l" "m \<in> set (to_read ?l (kd_read_position d0))"
      using m(3) set_to_read [of m ?l q] by (simp_all add: d0(3))
    have tag: "\<forall>x \<in> set ?l. sm_message_id x = ?mid \<longrightarrow> msg_hash bx x = ?h" using log_unique [OF s ml(1)] by blast
    have nf: "?mid \<notin> fst ` set (rd_in_flight_hashes (kd_redelivery_controller d0))"
      using inv m(2) unfolding d0(1) by (auto simp: key_inv_def is_message_pending_iff key_get_consumers_def)
    have nf': "release_in_flight_hash ?mid ?c = ?c"
      using nf by (auto simp: d0(1) release_in_flight_hash_def btm_get_None_iff [symmetric])
    have after: "\<forall>x \<in> set (log_from ?l np). id_key ?mid < id_key (sm_message_id x)"
      using sorted_to_read [OF log_sorted [OF s, of topic], of q] m(3) by simp
    have sub: "set (to_read ?l (Some np)) \<subseteq> set (to_read ?l (kd_read_position d0))" using m(3) by (auto simp: d0(3))
    have less: "length (log_from ?l np) < length (to_read ?l (kd_read_position d))" using pre m(3) by simp
    have shrink: "key_work ?l d' < key_work ?l d \<and> length (to_read ?l (kd_read_position d')) < length (to_read ?l (kd_read_position d))"
      if "kd_read_position d' = Some np" "rd_len (kd_redelivery_controller d') \<le> Suc (rd_len ?c)" for d'
      using that less by (simp add: key_work_def)
    have goal: ?thesis if "key_dispatch_new bx st s topic sub w d = Some (t, w', d')" "step_ok bx sent ?l w d0 w' d'"
      "kd_read_position d' = Some np" "rd_len (kd_redelivery_controller d') \<le> Suc (rd_len ?c)" "t = Stop \<or> (t = Next False \<or> t = Next True)" for t w' d'
      using that shrink [OF that(3,4)] step_ok_trans [OF step0 that(2)] by (auto intro: less_imp_le)
    note eqs = key_dispatch_new_def run Some m(1) candidate_of_def Let_def commit_read_position_def d0_def [symmetric]
      msg_hash_def [symmetric] d0(1)
    show ?thesis
    proof (cases "is_hash_blocked ?h ?c")
      case True
      let ?e = "\<lparr>re_message_id = ?mid, re_redelivery_count = 0, re_sticky_key_hash = Some ?h\<rparr>"
      let ?d1 = "(key_add_redelivery_entries [?e] d0)\<lparr>kd_read_position := Some np\<rparr>"
      have st: "step_ok bx sent ?l w d0 w ?d1"
        by (rule enqueue_new [OF inv0 ml(2) tag nf, of ?e]) (use sub in \<open>simp_all add: key_queue_defs\<close>)
      have "key_dispatch_new bx st s topic sub w d = Some (Next False, w, ?d1)" using True by (simp add: eqs)
      then show ?thesis by (rule goal [OF _ st]) (use rd_add_len_le [OF rd, of ?e] in \<open>simp_all add: key_queue_defs d0(1)\<close>)
    next
      case False
      show ?thesis
      proof (cases "select_consumer_for_hash w d0 ?h")
        case None
        then have "key_dispatch_new bx st s topic sub w d = Some (Stop, w, d0)" using False by (simp add: eqs)
        with step0 work0 show ?thesis by blast
      next
        case (Some r)
        note r = select_consumer_some [OF Some]
        define n where "n = messages_in_batch (bx_proto bx) (sm_metadata m)"
        obtain c1 where use: "try_use_permits n (w_consumers w r) = (True, c1)" using r(2) by (simp add: try_use_permits_def)
        have charged: "upd_consumer r (\<lambda>_. c1) w = charge r n w" by (simp add: charge_def use)
        obtain ok w2 where send: "send_message_with_sticky_hash bx r ?mid (sm_metadata m) (sm_payload m) 0 (Some ?h)
            (charge r n w) = (ok, w2)" by fastforce
        note world = attempt_world [OF laws send refl]
        let ?w3 = "upd_consumer r (if ok then record_message_dispatched n (length (sm_payload m)) else add_permits n) w2"
        note eqs = eqs False Some use charged send n_def [symmetric]
        show ?thesis
        proof (cases ok)
          case True
          let ?d1 = "(key_subtract_total_permits n d0)\<lparr>kd_read_position := Some np\<rparr>"
          have st: "step_ok bx sent ?l w d0 ?w3 ?d1"
            by (rule new_sent [OF inv0 ml(2) r(1)])
               (use False world True sub after in \<open>simp_all add: key_queue_defs d0(1)\<close>)
          have "key_dispatch_new bx st s topic sub w d = Some (Next True, ?w3, ?d1)"
            using True by (simp add: eqs)
          then show ?thesis by (rule goal [OF _ st]) (simp_all add: key_queue_defs d0(1))
        next
          case notsent: False
          let ?e = "\<lparr>re_message_id = ?mid, re_redelivery_count = 1, re_sticky_key_hash = Some ?h\<rparr>"
          let ?d1 = "key_restore_redelivery_message ?e (key_subtract_total_permits n d0)"
          let ?d2 = "?d1\<lparr>kd_read_position := Some np,
              kd_total_available_permits := wrap_i32 (kd_total_available_permits ?d1 + u32_as_i32 n)\<rparr>"
          have rd2: "kd_redelivery_controller ?d2 = rd_add ?e (kd_redelivery_controller d0)"
            by (simp add: key_queue_defs rd_restore_def nf' d0(1))
          have traced: "traced bx sent w ?w3 []" using world(1) notsent by simp
          have st: "step_ok bx sent ?l w d0 ?w3 ?d2"
            by (rule enqueue_new [OF inv0 ml(2) tag nf, of ?e, OF _ _ traced world(2) _ rd2])
               (use sub in \<open>simp_all add: key_queue_defs\<close>)
          have "key_dispatch_new bx st s topic sub w d = Some (Stop, ?w3, ?d2)"
            using notsent by (simp add: eqs)
          then show ?thesis by (rule goal [OF _ st]) (use rd2 rd_add_len_le [OF rd, of ?e] in \<open>simp_all add: d0(1)\<close>)
        qed
      qed
    qed
  qed
qed

section \<open>Batches and passes\<close>

lemma key_batch_loop_ok:
  assumes s: "inv s" and laws: "chan_laws bx sent" and inv: "key_inv bx (log s topic) w d"
  shows "\<exists>p w' d'. key_batch_loop bx st s topic sub remaining progress w d = Some (Inr p, w', d') \<and>
    step_ok bx sent (log s topic) w d w' d' \<and> 
    key_work (log s topic) d' \<le> key_work (log s topic) d \<and> (p = progress \<or> key_work (log s topic) d' < key_work (log s topic) d)"
  using inv
proof (induction "length (to_read (log s topic) (kd_read_position d))" arbitrary: remaining progress w d rule: less_induct)
  case less
  let ?l = "log s topic"
  let ?run = "key_batch_loop bx st s topic sub remaining progress w d"
  show ?case
  proof (cases "remaining = 0")
    case True
    then have "?run = Some (Inr progress, w, d)" by (subst key_batch_loop.simps) simp
    with step_ok_refl [OF less.prems] show ?thesis by auto
  next
    case False
    from key_redeliver_ok [OF s laws less.prems, of sub] obtain t w1 d1 where
      re: "key_redeliver bx st s topic sub w d = (t, w1, d1)" "step_ok bx sent ?l w d w1 d1"
        "kd_read_position d1 = kd_read_position d" "rd_len (kd_redelivery_controller d1) \<le> rd_len (kd_redelivery_controller d)"
        "t = Stop \<or> t = Next False \<or>
         t = Next True \<and> rd_len (kd_redelivery_controller d1) < rd_len (kd_redelivery_controller d)" by blast
    have work1: "key_work ?l d1 \<le> key_work ?l d" "t = Next True \<Longrightarrow> key_work ?l d1 < key_work ?l d"
      using re(3-5) by (auto simp: key_work_def)
    show ?thesis
    proof (cases "t = Stop")
      case True
      then have "?run = Some (Inr progress, w1, d1)" using False re(1) by (subst key_batch_loop.simps) simp
      with re(2) work1(1) show ?thesis by blast
    next
      case notstop: False
      then obtain b where b: "t = Next b" using re(5) by blast
      define progress1 where "progress1 = (if b then progress + 1 else progress)"
      have inv1: "key_inv bx ?l w1 d1" using re(2) by (simp add: step_ok_def)
      from key_dispatch_new_ok [OF s laws inv1, of sub] obtain t2 w2 d2 where
        nw: "key_dispatch_new bx st s topic sub w1 d1 = Some (t2, w2, d2)" "step_ok bx sent ?l w1 d1 w2 d2" and
        t2: "t2 = Stop \<and> key_work ?l d2 \<le> key_work ?l d1 \<or>
          (t2 = Next False \<or> t2 = Next True) \<and> key_work ?l d2 < key_work ?l d1 \<and>
          length (to_read ?l (kd_read_position d2)) < length (to_read ?l (kd_read_position d1))" by blast
      note step2 = step_ok_trans [OF re(2) nw(2)]
      show ?thesis
      proof (cases "t2 = Stop")
        case True
        then have "?run = Some (Inr progress1, w2, d2)"
          using False re(1) b nw(1) by (subst key_batch_loop.simps) (simp add: progress1_def)
        moreover have "key_work ?l d2 \<le> key_work ?l d" "progress1 = progress \<or> key_work ?l d2 < key_work ?l d"
          using True t2 work1 b by (auto simp: progress1_def)
        ultimately show ?thesis using step2 by blast
      next
        case sent: False
        then obtain b2 where b2: "t2 = Next b2" using t2 by blast
        define remaining2 where "remaining2 = (if b2 then (if b then remaining - 1 else remaining) - 1 else if b then remaining - 1 else remaining)"
        have run: "?run = key_batch_loop bx st s topic sub remaining2 (progress1 + 1) w2 d2"
          using False re(1) b nw(1) b2 by (subst key_batch_loop.simps) (simp add: progress1_def remaining2_def)
        have shorter: "length (to_read ?l (kd_read_position d2)) < length (to_read ?l (kd_read_position d))"
          using t2 sent re(3) by auto
        have inv2: "key_inv bx ?l w2 d2" using nw(2) by (simp add: step_ok_def)
        from less.hyps [OF shorter inv2, of remaining2 "progress1 + 1"] obtain p w' d' where
          ih: "key_batch_loop bx st s topic sub remaining2 (progress1 + 1) w2 d2 = Some (Inr p, w', d')"
            "step_ok bx sent ?l w2 d2 w' d'" "key_work ?l d' \<le> key_work ?l d2" by blast
        then have "key_work ?l d' < key_work ?l d" using t2 sent work1(1) by auto
        then show ?thesis using run ih(1) step_ok_trans [OF step2 ih(2)] by auto
      qed
    qed
  qed
qed

lemma key_dispatch_ok:
  assumes s: "inv s" and laws: "chan_laws bx sent" and inv: "key_inv bx (log s topic) w d"
  shows "\<exists>w' d'. key_dispatch_messages bx st s topic sub w d = Some (Inr (), w', d') \<and> step_ok bx sent (log s topic) w d w' d'"
  using inv
proof (induction "key_work (log s topic) d" arbitrary: w d rule: less_induct)
  case less
  let ?l = "log s topic"
  let ?max = "min (kd_total_available_permits d) (u32_as_i32 DISPATCHER_MAX_ROUND_ROBIN_BATCH_SIZE)"
  let ?batch = "key_dispatch_messages_batch bx st s topic sub w d"
  have "\<exists>p w1 d1. ?batch = Some (Inr p, w1, d1) \<and> step_ok bx sent ?l w d w1 d1 \<and> (p = 0 \<or> key_work ?l d1 < key_work ?l d)"
  proof (cases "?max \<le> 0")
    case True
    then show ?thesis using step_ok_refl [OF less.prems] by (simp add: key_dispatch_messages_batch_def Let_def)
  next
    case False
    then show ?thesis using key_batch_loop_ok [OF s laws less.prems, of sub "i32_as_u32 ?max" 0]
      unfolding key_dispatch_messages_batch_def Let_def by auto
  qed
  then obtain p w1 d1 where batch: "?batch = Some (Inr p, w1, d1)" "step_ok bx sent ?l w d w1 d1" "p = 0 \<or> key_work ?l d1 < key_work ?l d"
    by blast
  show ?case
  proof (cases "p = 0 \<or> kd_total_available_permits d1 \<le> 0")
    case True
    then have "key_dispatch_messages bx st s topic sub w d = Some (Inr (), w1, d1)"
      using batch(1) by (subst key_dispatch_messages.simps) simp
    with batch(2) show ?thesis by blast
  next
    case False
    then have "key_dispatch_messages bx st s topic sub w d = key_dispatch_messages bx st s topic sub w1 d1"
      using batch(1) by (subst key_dispatch_messages.simps) simp
    moreover have "key_inv bx ?l w1 d1" using batch(2) by (simp add: step_ok_def)
    ultimately show ?thesis using less.hyps [of d1 w1] batch(2,3) False step_ok_trans by (metis (no_types, lifting))
  qed
qed

end

section \<open>A message that comes back twice\<close>

definition keyed :: "RedeliveryController \<Rightarrow> bool" where
  "keyed c \<longleftrightarrow> btm_ok (rd_entries c) \<and> (\<forall>(k, e) \<in> set (rd_entries c). re_message_id e = k)"

text \<open>The message is in flight, and if it is queued it carries the same hash.\<close>

definition marked :: "MessageId \<Rightarrow> i32 \<Rightarrow> RedeliveryController \<Rightarrow> bool" where
  "marked mid h c \<longleftrightarrow> (mid, h) \<in> set (rd_in_flight_hashes c) \<and>
     (\<forall>e. btm_get mid (rd_entries c) = Some e \<longrightarrow> re_sticky_key_hash e = Some h)"

lemma keyed_get: "keyed c \<Longrightarrow> btm_get mid (rd_entries c) = Some e \<Longrightarrow> re_message_id e = mid"
  by (auto simp: keyed_def btm_get_Some_iff)

lemma keyed_add: "keyed c \<Longrightarrow> keyed (rd_add e c)"
proof -
  assume c: "keyed c"
  then have ok: "btm_ok (rd_entries c)" by (simp add: keyed_def)
  then have ok': "btm_ok (rd_entries (rd_add e c))" by (auto simp: rd_add_def Let_def btm_ok_insert split: option.splits)
  have "re_message_id x = k" if "btm_get k (rd_entries (rd_add e c)) = Some x" for k x
    using that keyed_get [OF c] ok by (auto simp: rd_add_def Let_def split: option.splits if_splits)
  with ok' show ?thesis by (auto simp: keyed_def btm_get_Some_iff)
qed

lemma marked_add:
  assumes "keyed c" "marked mid h c" "re_message_id e = mid \<longrightarrow> re_sticky_key_hash e = Some h"
  shows "marked mid h (rd_add e c)"
proof -
  have "btm_ok (rd_entries c)" using assms(1) by (simp add: keyed_def)
  then show ?thesis using assms(2,3) by (auto simp: marked_def rd_add_def Let_def split: option.splits)
qed

lemma marked_fold:
  assumes "keyed c" "marked mid h c" "\<forall>e \<in> set es. re_message_id e = mid \<longrightarrow> re_sticky_key_hash e = Some h"
  shows "keyed (fold rd_add es c)" "marked mid h (fold rd_add es c)"
    "fst ` set (rd_entries (fold rd_add es c)) = re_message_id ` set es \<union> fst ` set (rd_entries c)"
  using assms by (induction es arbitrary: c) (auto simp: keyed_add marked_add rd_add_keys)

text \<open>The search passes over a message whose hash is marked as in flight.\<close>

lemma pop_loop_skips:
  assumes "keyed c" "marked mid h c \<or> btm_get mid (rd_entries c) = None"
    and "\<forall>q \<in> set qs. re_message_id q = mid \<longrightarrow> re_sticky_key_hash q = Some h"
    and "pop_dispatchable_loop st s topic sub hash_of sel qs c = (Inr (Some (e, m, r)), c')"
  shows "re_message_id e \<noteq> mid"
  using assms
proof (induction qs arbitrary: c)
  case (Cons q qs)
  let ?k = "re_message_id q" and ?loop = "pop_dispatchable_loop st s topic sub hash_of sel"
  define c1 where "c1 = snd (rd_remove ?k c)"
  have entries: "rd_entries c1 = btm_remove ?k (rd_entries c)"
    by (simp add: c1_def rd_remove_def Let_def btm_remove_absent split: option.split)
  have keyed1: "keyed c1" using Cons.prems(1) by (auto simp: keyed_def entries btm_ok_remove set_btm_remove)
  have "rd_in_flight_hashes c1 = btm_remove ?k (rd_in_flight_hashes c)"
    by (simp add: c1_def rd_remove_def Let_def in_flight_release split: option.split)
  then have marked1: "marked mid h c1 \<or> btm_get mid (rd_entries c1) = None"
    using Cons.prems(2) by (cases "?k = mid") (auto simp: entries marked_def set_btm_remove)
  have drop: ?case if "?loop qs c1 = (Inr (Some (e, m, r)), c')"
    using Cons.IH [OF keyed1 marked1 _ that] Cons.prems(3) by simp
  have skip: ?case if "?loop qs c = (Inr (Some (e, m, r)), c')"
    using Cons.IH [OF Cons.prems(1,2) _ that] Cons.prems(3) by simp
  show ?case
  proof (cases "is_acknowledged st s topic sub ?k")
    case (Inl err)
    then show ?thesis using Cons.prems(4) by simp
  next
    case ack: (Inr a)
    show ?thesis
    proof (cases "a \<or> get_message_entry_by_id st s topic ?k = None")
      case True
      then have "?loop (q # qs) c = ?loop qs c1" using ack by (cases a) (auto simp: c1_def)
      then show ?thesis using drop Cons.prems(4) by simp
    next
      case False
      then obtain x where x: "get_message_entry_by_id st s topic ?k = Some x" by blast
      define g where "g = (case re_sticky_key_hash q of Some h \<Rightarrow> h | None \<Rightarrow> hash_of (sm_metadata x))"
      have step: "?loop (q # qs) c =
          (if has_in_flight_hash g c then ?loop qs c
           else case sel g of None \<Rightarrow> ?loop qs c
             | Some r \<Rightarrow> (case rd_take_for_delivery_with_hash ?k (Some g) c of
                 (None, c1) \<Rightarrow> ?loop qs c1 | (Some e, c1) \<Rightarrow> (Inr (Some (e, x, r)), c1)))"
        using False ack x by (simp add: Let_def g_def [symmetric])
      show ?thesis
      proof (cases "has_in_flight_hash g c \<or> sel g = None \<or> btm_get ?k (rd_entries c) = None")
        case True
        then have "?loop (q # qs) c = ?loop qs c"
          using step by (auto simp: rd_take_for_delivery_with_hash_def split: option.splits)
        then show ?thesis using skip Cons.prems(4) by simp
      next
        case take: False
        then obtain y where y: "btm_get ?k (rd_entries c) = Some y" by blast
        have "e = y \<or> e = y\<lparr>re_sticky_key_hash := Some g\<rparr>"
          using step Cons.prems(4) take y
          by (auto simp: rd_take_for_delivery_with_hash_def Let_def split: option.splits if_splits)
        then have "re_message_id e = ?k" using keyed_get [OF Cons.prems(1) y] by auto
        moreover have "?k \<noteq> mid"
        proof
          assume k: "?k = mid"
          then have "marked mid h c" using Cons.prems(2) y by simp
          moreover have "g = h" using Cons.prems(3) k by (simp add: g_def)
          ultimately show False using take by (auto simp: marked_def has_in_flight_iff)
        qed
        ultimately show ?thesis by simp
      qed
    qed
  qed
qed simp

section \<open>Membership\<close>

lemma rebuild_assigned: "snd ` set (active_assignments (rebuild_assignments w d)) \<subseteq> set (key_get_consumers d)"
proof -
  let ?rs = "sort_key (\<lambda>r. consumer_id (w_consumers w r)) (btm_values (kd_consumers_by_id d))"
  have "map snd (kd_auto_split_assignments (rebuild_assignments w d)) = ?rs"
    unfolding rebuild_auto_split Let_def by (simp add: comp_def map_nth del: length_sort)
  then have "snd ` set (kd_auto_split_assignments (rebuild_assignments w d)) = set ?rs" by (metis set_map)
  moreover have "snd ` set (kd_sticky_assignments (rebuild_assignments w d)) \<subseteq> set (btm_values (kd_consumers_by_id d))"
    by (auto simp: rebuild_assignments_def rebuild_sticky_assignments_def rebuild_auto_split_assignments_def Let_def)
  ultimately show ?thesis
    by (auto simp: active_assignments_def key_get_consumers_def split: KeySharedMode.split)
qed

lemma rebuild_sel [simp]:
  "kd_redelivery_controller (rebuild_assignments w d) = kd_redelivery_controller d"
  "key_get_consumers (rebuild_assignments w d) = key_get_consumers d"
  "kd_read_position (rebuild_assignments w d) = kd_read_position d"
  by (simp_all add: rebuild_assignments_def rebuild_sticky_assignments_def rebuild_auto_split_assignments_def
      key_get_consumers_def Let_def)

lemma key_inv_new:
  assumes "\<And>p. policy = Some p \<Longrightarrow> \<not> ksp_allow_out_of_order_delivery p"
  shows "key_inv bx l w (KeySharedDispatcher_new policy)"
proof -
  have "kd_redelivery_controller (KeySharedDispatcher_new policy) = RedeliveryController_new True"
    using assms by (simp add: KeySharedDispatcher_new_def Let_def split: option.split)
  then show ?thesis
    by (simp add: key_inv_def rd_inv_new)
       (simp add: tagged_def RedeliveryController_new_def active_assignments_def KeySharedDispatcher_new_def Let_def
        split: KeySharedMode.split)
qed

lemma key_inv_add:
  assumes inv: "key_inv bx l w d" and run: "key_add_consumer w r d = (Inr (), d')"
  shows "key_inv bx l w d'"
proof -
  let ?d = "d\<lparr>kd_consumers_by_id := btm_insert (consumer_id (w_consumers w r)) r (kd_consumers_by_id d)\<rparr>"
  have d': "d' = rebuild_assignments w ?d" and new: "\<not> btm_contains (consumer_id (w_consumers w r)) (kd_consumers_by_id d)"
    using run by (auto simp: key_add_consumer_def Let_def split: if_splits)
  have "set (key_get_consumers d') = insert r (set (key_get_consumers d))"
    unfolding d' rebuild_sel
    using new by (simp add: btm_contains_def btm_get_None_iff key_get_consumers_def btm_values_def set_btm_insert_new)
  moreover have "snd ` set (active_assignments d') \<subseteq> set (key_get_consumers d')"
    using rebuild_assigned [of w ?d] by (simp add: d')
  ultimately show ?thesis using inv by (auto simp: key_inv_def d')
qed

section \<open>Properties\<close>

text \<open>C4: A pass of the Key\_Shared dispatcher over the in-memory storage returns without error. There is a sequence of
  sends, each of an entry of the log to a consumer whose range holds the hash of its key, such that every connection
  has received exactly its part of the sequence; and among the sends with the same hash the ids are strictly increasing,
  so the messages of one key are delivered in the order of the log. Unless a redelivery of the hash is in flight, no
  message has overtaken one of its hash that waits in the redelivery queue or is still to be read. The invariant is kept.\<close>

theorem key_shared_in_order:
  assumes "mem_wf s" "chan_laws bx sent" "key_inv bx (mem_get_message_entries s topic) w d"
  shows "\<exists>w' d' tr. key_dispatch_messages bx mem_storage s topic sub w d = Some (Inr (), w', d') \<and>
    key_inv bx (mem_get_message_entries s topic) w' d' \<and> traced bx sent w w' tr \<and>
    (\<forall>(r, m, rc) \<in> set tr. assigned d (msg_hash bx m) r) \<and>
    (\<forall>h. sorted_wrt (<) (ids_of bx h tr) \<and>
       (\<not> has_in_flight_hash h (kd_redelivery_controller d') \<longrightarrow>
          (\<forall>i \<in> set (ids_of bx h tr). \<forall>j \<in> waiting bx (mem_get_message_entries s topic) d' h. i < j)))"
proof -
  from mem_entries.key_dispatch_ok [OF assms, of sub] obtain w' d' where
    run: "key_dispatch_messages bx mem_storage s topic sub w d = Some (Inr (), w', d')" and
    st: "step_ok bx sent (mem_get_message_entries s topic) w d w' d'" by blast
  from st obtain tr where tr: "traced bx sent w w' tr" "\<forall>(r, m, _) \<in> set tr. assigned d (msg_hash bx m) r"
    "order_ok bx (mem_get_message_entries s topic) d' ([] @ tr)"
    unfolding step_ok_def using order_ok_Nil by blast
  then have "\<forall>h. sorted_wrt (<) (ids_of bx h tr) \<and>
       (\<not> has_in_flight_hash h (kd_redelivery_controller d') \<longrightarrow>
          (\<forall>i \<in> set (ids_of bx h tr). \<forall>j \<in> waiting bx (mem_get_message_entries s topic) d' h. i < j))"
    by (simp add: order_ok_def)
  then show ?thesis using run st tr(1,2) unfolding step_ok_def by blast
qed


section \<open>Instances\<close>

definition demo_key_shared :: KeySharedDispatcher where
  "demo_key_shared = snd (key_add_consumer demo_permits 2 (KeySharedDispatcher_new None))"

lemma demo_key_shared_inv: "key_inv bx l demo_permits demo_key_shared"
proof -
  have "key_add_consumer demo_permits 2 (KeySharedDispatcher_new None) = (Inr (), demo_key_shared)"
    by (simp add: demo_key_shared_def key_add_consumer_def Let_def KeySharedDispatcher_new_def btm_contains_def
        demo_permits_consumers Consumer_new_with_options_def has_same_key_shared_policy_def)
  then show ?thesis using key_inv_add key_inv_new [of None bx l demo_permits] by fastforce
qed

theorem key_shared_in_order_witness:
  "\<exists>w' d'. key_dispatch_messages (ref_bx demo_proto) mem_storage demo_log ''t'' ''s'' demo_permits demo_key_shared =
     Some (Inr (), w', d')"
  using key_shared_in_order [OF demo_log_wf ref_chan_laws demo_key_shared_inv, of demo_proto "''t''" "''s''"] by blast

text \<open>Consumer 2 holds message 0 with hash 7 for the second time.\<close>

definition demo_stuck_world :: "ref_chan world" where
  "demo_stuck_world = upd_consumer 2 (\<lambda>c. snd (track_message_dispatched_with_sticky_hash (MessageId 0 0 (- 1)) 1 (Some 7) c)) demo_permits"

definition demo_stuck :: KeySharedDispatcher where
  "demo_stuck = demo_key_shared\<lparr>kd_redelivery_controller := snd (rd_take_for_delivery_with_hash (MessageId 0 0 (- 1)) (Some 7)
     (rd_add \<lparr>re_message_id = MessageId 0 0 (- 1), re_redelivery_count = 1, re_sticky_key_hash = Some 7\<rparr> (RedeliveryController_new True)))\<rparr>"


end
