(* ===== verification/PL_NonPersistent.thy ===== *)
theory PL_NonPersistent
  imports PL_KeyShared
begin

text \<open>
  Non-persistent subscriptions (\<open>broker/non_persistent\<close>): entries are never stored; an entry is handed to a consumer
  at once or dropped.

  \<^item> The three counters that every dispatcher of the family has are the record \<open>NonPersistentCounters\<close>.
  \<^item> The Exclusive and the Failover dispatcher send with the same loop (\<open>np_single_loop\<close>).
  \<^item> \<open>send_messages\<close> owns the entries it is given: the model returns them as they are left behind.
  \<^item> A consumer name is compared byte by byte, and an \<open>AtomicUsize\<close> has 64 bits.
\<close>

unbundle bit_operations_syntax

section \<open>Sending one entry\<close>

record NonPersistentCounters =
  npc_received :: u64
  npc_dropped :: u64
  npc_dispatched :: u64

definition NonPersistentCounters_new :: NonPersistentCounters where
  "NonPersistentCounters_new = \<lparr>npc_received = 0, npc_dropped = 0, npc_dispatched = 0\<rparr>"

definition record_received :: "u64 \<Rightarrow> NonPersistentCounters \<Rightarrow> NonPersistentCounters" where
  "record_received n k = k\<lparr>npc_received := npc_received k + n\<rparr>"

definition record_drop :: "u64 \<Rightarrow> NonPersistentCounters \<Rightarrow> NonPersistentCounters" where
  "record_drop n k = k\<lparr>npc_dropped := npc_dropped k + n\<rparr>"

definition record_dispatched :: "u64 \<Rightarrow> NonPersistentCounters \<Rightarrow> NonPersistentCounters" where
  "record_dispatched n k = k\<lparr>npc_dispatched := npc_dispatched k + n\<rparr>"

definition np_message_id :: "NonPersistentEntry \<Rightarrow> MessageId" where
  "np_message_id e = MessageId (ledger_id (np_position e)) (entry_id (np_position e)) (pos_partition (np_position e))"

definition np_batch_count :: "'ch broker_ext \<Rightarrow> NonPersistentEntry \<Rightarrow> u32" where
  "np_batch_count bx e = messages_in_batch (bx_proto bx) (np_metadata e)"

text \<open>Reserve, send and record, for one consumer.\<close>

definition np_try_send :: "'ch broker_ext \<Rightarrow> NonPersistentEntry \<Rightarrow> cref \<Rightarrow> 'ch world \<Rightarrow> bool \<times> 'ch world" where
  "np_try_send bx e r w =
     (case try_reserve_dispatch bx r (np_message_id e) (np_metadata e) (np_payload e) 0 (np_batch_count bx e) w of
        (None, w1) \<Rightarrow> (False, w1)
      | (Some res, w1) \<Rightarrow>
          (True, upd_consumer r (record_message_dispatched (np_batch_count bx e) (np_len e)) (reservation_send bx res w1)))"

definition np_drop_all ::
    "'ch broker_ext \<Rightarrow> NonPersistentEntry list \<Rightarrow> NonPersistentCounters \<Rightarrow> NonPersistentEntry list \<times> NonPersistentCounters" where
  "np_drop_all bx es k =
     (map (\<lambda>e. snd (release e)) es, fold (\<lambda>e. record_drop (ucast (np_batch_count bx e))) es k)"

fun np_single_loop ::
    "'ch broker_ext \<Rightarrow> cref \<Rightarrow> NonPersistentEntry list \<Rightarrow> 'ch world \<Rightarrow> NonPersistentCounters
     \<Rightarrow> NonPersistentEntry list \<times> 'ch world \<times> NonPersistentCounters" where
  "np_single_loop bx r [] w k = ([], w, k)"
| "np_single_loop bx r (e # es) w k =
     (case np_try_send bx e r w of
        (ok, w1) \<Rightarrow>
          let k1 = (if ok then record_dispatched (ucast (np_batch_count bx e)) k
                    else record_drop (ucast (np_batch_count bx e)) k)
          in case np_single_loop bx r es w1 k1 of (rs, w2, k2) \<Rightarrow> (snd (release e) # rs, w2, k2))"

section \<open>The Exclusive dispatcher\<close>

record NonPersistentDispatcherExclusive =
  nxd_consumer :: "cref option"
  nxd_counters :: NonPersistentCounters

definition NonPersistentDispatcherExclusive_new :: NonPersistentDispatcherExclusive where
  "NonPersistentDispatcherExclusive_new = \<lparr>nxd_consumer = None, nxd_counters = NonPersistentCounters_new\<rparr>"

definition np_exclusive_get_consumers :: "NonPersistentDispatcherExclusive \<Rightarrow> cref list" where
  "np_exclusive_get_consumers d = (case nxd_consumer d of Some r \<Rightarrow> [r] | None \<Rightarrow> [])"

definition np_exclusive_add_consumer ::
    "cref \<Rightarrow> NonPersistentDispatcherExclusive \<Rightarrow> unit result \<times> NonPersistentDispatcherExclusive" where
  "np_exclusive_add_consumer r d =
     (if nxd_consumer d \<noteq> None
      then (Inl (Msg ''Non-persistent Exclusive subscription already has an active consumer''), d)
      else (Inr (), d\<lparr>nxd_consumer := Some r\<rparr>))"

definition np_exclusive_remove_consumer ::
    "'ch world \<Rightarrow> u64 \<Rightarrow> NonPersistentDispatcherExclusive \<Rightarrow> cref option \<times> NonPersistentDispatcherExclusive" where
  "np_exclusive_remove_consumer w cid d =
     (case nxd_consumer d of
        Some r \<Rightarrow> if consumer_id (w_consumers w r) = cid then (Some r, d\<lparr>nxd_consumer := None\<rparr>) else (None, d)
      | None \<Rightarrow> (None, d))"

definition np_exclusive_send_messages ::
    "'ch broker_ext \<Rightarrow> NonPersistentEntry list \<Rightarrow> 'ch world \<Rightarrow> NonPersistentDispatcherExclusive
     \<Rightarrow> NonPersistentEntry list \<times> 'ch world \<times> NonPersistentDispatcherExclusive" where
  "np_exclusive_send_messages bx es w d =
     (let k = record_received (of_nat (length es)) (nxd_counters d) in
      case nxd_consumer d of
        None \<Rightarrow> (case np_drop_all bx es k of (rs, k1) \<Rightarrow> (rs, w, d\<lparr>nxd_counters := k1\<rparr>))
      | Some r \<Rightarrow> (case np_single_loop bx r es w k of (rs, w1, k1) \<Rightarrow> (rs, w1, d\<lparr>nxd_counters := k1\<rparr>)))"

section \<open>The Failover dispatcher\<close>

record NonPersistentDispatcherFailover =
  nfd_topic_name :: string
  nfd_partition_index :: i32
  nfd_consumers :: "cref list"
  nfd_active_consumer_id :: "u64 option"
  nfd_counters :: NonPersistentCounters

definition NonPersistentDispatcherFailover_new :: "string \<Rightarrow> i32 \<Rightarrow> NonPersistentDispatcherFailover" where
  "NonPersistentDispatcherFailover_new topic idx =
     \<lparr>nfd_topic_name = topic, nfd_partition_index = idx, nfd_consumers = [], nfd_active_consumer_id = None,
      nfd_counters = NonPersistentCounters_new\<rparr>"

definition np_get_active_consumer :: "'ch world \<Rightarrow> NonPersistentDispatcherFailover \<Rightarrow> cref option" where
  "np_get_active_consumer w d =
     (case nfd_active_consumer_id d of
        None \<Rightarrow> None
      | Some a \<Rightarrow> find (\<lambda>r. consumer_id (w_consumers w r) = a) (nfd_consumers d))"

definition np_sort_consumers :: "'ch world \<Rightarrow> NonPersistentDispatcherFailover \<Rightarrow> NonPersistentDispatcherFailover" where
  "np_sort_consumers w d =
     d\<lparr>nfd_consumers := sort_key (\<lambda>r. (priority_level (w_consumers w r), consumer_name (w_consumers w r))) (nfd_consumers d)\<rparr>"

text \<open>The dispatcher has its own copy of the hash; the steps are named as in the loop of the source.\<close>

fun np_murmur_chunks :: "(u8 \<times> u8 \<times> u8 \<times> u8) list \<Rightarrow> u32 \<Rightarrow> u32" where
  "np_murmur_chunks [] hash = hash"
| "np_murmur_chunks (chunk # chunks) hash =
     (let k = u32_from_le chunk;
          k = k * 0xcc9e2d51;
          k = word_rotl 15 k;
          k = k * 0x1b873593;
          hash = hash XOR k;
          hash = word_rotl 13 hash;
          hash = hash * 5 + 0xe6546b64
      in np_murmur_chunks chunks hash)"

definition np_murmur_tail :: "bytes \<Rightarrow> u32" where
  "np_murmur_tail tail =
     (case tail of
        [a, b, c] \<Rightarrow> ((0 XOR push_bit 16 (ucast c)) XOR push_bit 8 (ucast b)) XOR ucast a
      | [a, b] \<Rightarrow> (0 XOR push_bit 8 (ucast b)) XOR ucast a
      | [a] \<Rightarrow> 0 XOR ucast a
      | _ \<Rightarrow> 0)"

definition np_murmur3_32 :: "bytes \<Rightarrow> u32 \<Rightarrow> u32" where
  "np_murmur3_32 bytes seed =
     (let (chunks, tail) = as_chunks4 bytes;
          hash = np_murmur_chunks chunks seed;
          hash = (if tail = [] then hash
                  else let k1 = np_murmur_tail tail * 0xcc9e2d51;
                           k1 = word_rotl 15 k1;
                           k1 = k1 * 0x1b873593
                       in hash XOR k1);
          hash = hash XOR of_nat (length bytes);
          hash = hash XOR drop_bit 16 hash;
          hash = hash * 0x85ebca6b;
          hash = hash XOR drop_bit 13 hash;
          hash = hash * 0xc2b2ae35
      in hash XOR drop_bit 16 hash)"

definition np_hash_ring :: "string list \<Rightarrow> (u32 \<times> nat) list" where
  "np_hash_ring names =
     sort_key fst (concat (map (\<lambda>(i, name).
       map (\<lambda>replica. (np_murmur3_32 (string_bytes (name @ dec_string replica)) 0, i)) [0..<100]) (enumerate 0 names)))"

definition np_ring_lookup :: "u32 \<Rightarrow> (u32 \<times> nat) list \<Rightarrow> nat" where
  "np_ring_lookup h ring =
     (case find (\<lambda>(hash, _). h \<le> hash) ring of
        Some (_, i) \<Rightarrow> i
      | None \<Rightarrow> (case ring of (_, i) # _ \<Rightarrow> i | [] \<Rightarrow> 0))"

definition np_select_active_consumer_id :: "'ch world \<Rightarrow> NonPersistentDispatcherFailover \<Rightarrow> u64 option" where
  "np_select_active_consumer_id w d =
     (case nfd_consumers d of
        [] \<Rightarrow> None
      | first # _ \<Rightarrow>
          let highest = filter (\<lambda>r. priority_level (w_consumers w r) = priority_level (w_consumers w first)) (nfd_consumers d)
          in
          if highest = [] then None
          else
          let selected =
            (if 0 \<le> nfd_partition_index d then nat (nfd_partition_index d) mod length highest
             else np_ring_lookup (np_murmur3_32 (string_bytes (nfd_topic_name d)) 0)
               (np_hash_ring (map (\<lambda>r. consumer_name (w_consumers w r)) highest)))
          in
          if selected < length highest then Some (consumer_id (w_consumers w (highest ! selected))) else None)"

definition np_notify_active_consumer_changed :: "u64 \<Rightarrow> NonPersistentDispatcherFailover \<Rightarrow> 'ch world \<Rightarrow> 'ch world" where
  "np_notify_active_consumer_changed cid d w =
     fold (\<lambda>r. upd_consumer r (notify_active_consumer_change cid)) (nfd_consumers d) w"

definition np_pick_and_schedule_active_consumer ::
    "'ch world \<Rightarrow> NonPersistentDispatcherFailover \<Rightarrow> bool \<times> 'ch world \<times> NonPersistentDispatcherFailover" where
  "np_pick_and_schedule_active_consumer w d =
     (let selected = np_select_active_consumer_id w d in
      if selected = nfd_active_consumer_id d then (False, w, d)
      else
      let d1 = d\<lparr>nfd_active_consumer_id := selected\<rparr> in
      (True, (case selected of Some a \<Rightarrow> np_notify_active_consumer_changed a d1 w | None \<Rightarrow> w), d1))"

definition np_failover_add_consumer ::
    "cref \<Rightarrow> 'ch world \<Rightarrow> NonPersistentDispatcherFailover \<Rightarrow> unit result \<times> 'ch world \<times> NonPersistentDispatcherFailover" where
  "np_failover_add_consumer r w d =
     (if \<exists>x \<in> set (nfd_consumers d). consumer_id (w_consumers w x) = consumer_id (w_consumers w r)
      then (Inl (Msg ''Consumer already exists in non-persistent failover dispatcher''), w, d)
      else
      case np_pick_and_schedule_active_consumer w
             (np_sort_consumers w (d\<lparr>nfd_consumers := nfd_consumers d @ [r]\<rparr>)) of
        (changed, w1, d1) \<Rightarrow>
          (Inr (),
           (if changed then w1
            else case nfd_active_consumer_id d1 of
                   Some a \<Rightarrow> upd_consumer r (notify_active_consumer_change a) w1
                 | None \<Rightarrow> w1),
           d1))"

definition np_failover_remove_consumer ::
    "u64 \<Rightarrow> 'ch world \<Rightarrow> NonPersistentDispatcherFailover \<Rightarrow> cref option \<times> 'ch world \<times> NonPersistentDispatcherFailover" where
  "np_failover_remove_consumer cid w d =
     (case find (\<lambda>i. consumer_id (w_consumers w (nfd_consumers d ! i)) = cid) [0..<length (nfd_consumers d)] of
        None \<Rightarrow> (None, w, d)
      | Some i \<Rightarrow>
          let removed = nfd_consumers d ! i;
              d1 = np_sort_consumers w (d\<lparr>nfd_consumers := take i (nfd_consumers d) @ drop (Suc i) (nfd_consumers d)\<rparr>)
          in
          if nfd_consumers d1 = [] then (Some removed, w, d1\<lparr>nfd_active_consumer_id := None\<rparr>)
          else case np_pick_and_schedule_active_consumer w d1 of (_, w2, d2) \<Rightarrow> (Some removed, w2, d2))"

definition np_failover_send_messages ::
    "'ch broker_ext \<Rightarrow> NonPersistentEntry list \<Rightarrow> 'ch world \<Rightarrow> NonPersistentDispatcherFailover
     \<Rightarrow> NonPersistentEntry list \<times> 'ch world \<times> NonPersistentDispatcherFailover" where
  "np_failover_send_messages bx es w d =
     (let k = record_received (of_nat (length es)) (nfd_counters d) in
      case np_get_active_consumer w d of
        None \<Rightarrow> (case np_drop_all bx es k of (rs, k1) \<Rightarrow> (rs, w, d\<lparr>nfd_counters := k1\<rparr>))
      | Some r \<Rightarrow> (case np_single_loop bx r es w k of (rs, w1, k1) \<Rightarrow> (rs, w1, d\<lparr>nfd_counters := k1\<rparr>)))"

section \<open>The dispatcher for several consumers\<close>

record NonPersistentDispatcherMultipleConsumers =
  nmd_consumers_by_id :: "(u64, cref) btree_map"
  nmd_ordered_consumers :: "cref list"
  nmd_next_consumer_index :: u64
  nmd_total_available_permits :: u32
  nmd_counters :: NonPersistentCounters

definition NonPersistentDispatcherMultipleConsumers_new :: NonPersistentDispatcherMultipleConsumers where
  "NonPersistentDispatcherMultipleConsumers_new =
     \<lparr>nmd_consumers_by_id = [], nmd_ordered_consumers = [], nmd_next_consumer_index = 0,
      nmd_total_available_permits = 0, nmd_counters = NonPersistentCounters_new\<rparr>"

definition rebuild_ordered_consumers ::
    "'ch world \<Rightarrow> NonPersistentDispatcherMultipleConsumers \<Rightarrow> NonPersistentDispatcherMultipleConsumers" where
  "rebuild_ordered_consumers w d =
     d\<lparr>nmd_ordered_consumers := sort_key (\<lambda>r. (priority_level (w_consumers w r), consumer_id (w_consumers w r)))
        (btm_values (nmd_consumers_by_id d))\<rparr>"

definition u32_saturating_sub :: "u32 \<Rightarrow> u32 \<Rightarrow> u32" where
  "u32_saturating_sub a b = (if b \<le> a then a - b else 0)"

definition np_multi_subtract_total_permits ::
    "u32 \<Rightarrow> NonPersistentDispatcherMultipleConsumers \<Rightarrow> NonPersistentDispatcherMultipleConsumers" where
  "np_multi_subtract_total_permits n d =
     d\<lparr>nmd_total_available_permits := u32_saturating_sub (nmd_total_available_permits d) n\<rparr>"

definition np_multi_add_consumer ::
    "'ch world \<Rightarrow> cref \<Rightarrow> NonPersistentDispatcherMultipleConsumers \<Rightarrow> unit result \<times> NonPersistentDispatcherMultipleConsumers" where
  "np_multi_add_consumer w r d =
     (let cid = consumer_id (w_consumers w r) in
      if btm_contains cid (nmd_consumers_by_id d)
      then (Inl (Msg ''Consumer already exists in non-persistent shared dispatcher''), d)
      else (Inr (), rebuild_ordered_consumers w (d\<lparr>nmd_consumers_by_id := btm_insert cid r (nmd_consumers_by_id d)\<rparr>)))"

definition np_multi_remove_consumer ::
    "'ch world \<Rightarrow> u64 \<Rightarrow> NonPersistentDispatcherMultipleConsumers \<Rightarrow> cref option \<times> NonPersistentDispatcherMultipleConsumers" where
  "np_multi_remove_consumer w cid d =
     (let removed = btm_get cid (nmd_consumers_by_id d);
          d1 = d\<lparr>nmd_consumers_by_id := btm_remove cid (nmd_consumers_by_id d)\<rparr>;
          d2 = (case removed of
                  Some r \<Rightarrow> np_multi_subtract_total_permits (available_permits_now (w_consumers w r)) d1
                | None \<Rightarrow> d1)
      in (removed, rebuild_ordered_consumers w d2))"

definition np_multi_consumer_flow ::
    "u64 \<Rightarrow> u32 \<Rightarrow> NonPersistentDispatcherMultipleConsumers \<Rightarrow> NonPersistentDispatcherMultipleConsumers" where
  "np_multi_consumer_flow cid n d = d\<lparr>nmd_total_available_permits := nmd_total_available_permits d + n\<rparr>"

definition next_consumer_start_index ::
    "NonPersistentDispatcherMultipleConsumers \<Rightarrow> usize option \<times> NonPersistentDispatcherMultipleConsumers" where
  "next_consumer_start_index d =
     (if nmd_ordered_consumers d = [] then (None, d)
      else (Some (unat (nmd_next_consumer_index d) mod length (nmd_ordered_consumers d)),
            d\<lparr>nmd_next_consumer_index := nmd_next_consumer_index d + 1\<rparr>))"

text \<open>The consumers are asked in turn until one takes the entry.\<close>

fun np_offer :: "'ch broker_ext \<Rightarrow> NonPersistentEntry \<Rightarrow> cref list \<Rightarrow> 'ch world \<Rightarrow> bool \<times> 'ch world" where
  "np_offer bx e [] w = (False, w)"
| "np_offer bx e (r # rs) w =
     (case np_try_send bx e r w of
        (True, w1) \<Rightarrow> (True, w1)
      | (False, w1) \<Rightarrow> np_offer bx e rs w1)"

definition np_multi_send_entry ::
    "'ch broker_ext \<Rightarrow> NonPersistentEntry \<Rightarrow> 'ch world \<Rightarrow> NonPersistentDispatcherMultipleConsumers
     \<Rightarrow> 'ch world \<times> NonPersistentDispatcherMultipleConsumers" where
  "np_multi_send_entry bx e w d =
     (let n = np_batch_count bx e in
      case next_consumer_start_index d of
        (None, d1) \<Rightarrow> (w, d1\<lparr>nmd_counters := record_drop (ucast n) (nmd_counters d1)\<rparr>)
      | (Some start, d1) \<Rightarrow>
          let cs = nmd_ordered_consumers d1 in
          (case np_offer bx e (map (\<lambda>offset. cs ! ((start + offset) mod length cs)) [0..<length cs]) w of
             (True, w1) \<Rightarrow>
               (w1, np_multi_subtract_total_permits n (d1\<lparr>nmd_counters := record_dispatched (ucast n) (nmd_counters d1)\<rparr>))
           | (False, w1) \<Rightarrow> (w1, d1\<lparr>nmd_counters := record_drop (ucast n) (nmd_counters d1)\<rparr>)))"

fun np_multi_loop ::
    "'ch broker_ext \<Rightarrow> NonPersistentEntry list \<Rightarrow> 'ch world \<Rightarrow> NonPersistentDispatcherMultipleConsumers
     \<Rightarrow> NonPersistentEntry list \<times> 'ch world \<times> NonPersistentDispatcherMultipleConsumers" where
  "np_multi_loop bx [] w d = ([], w, d)"
| "np_multi_loop bx (e # es) w d =
     (case np_multi_send_entry bx e w d of
        (w1, d1) \<Rightarrow> (case np_multi_loop bx es w1 d1 of (rs, w2, d2) \<Rightarrow> (snd (release e) # rs, w2, d2)))"

definition np_multi_send_messages ::
    "'ch broker_ext \<Rightarrow> NonPersistentEntry list \<Rightarrow> 'ch world \<Rightarrow> NonPersistentDispatcherMultipleConsumers
     \<Rightarrow> NonPersistentEntry list \<times> 'ch world \<times> NonPersistentDispatcherMultipleConsumers" where
  "np_multi_send_messages bx es w d =
     np_multi_loop bx es w (d\<lparr>nmd_counters := record_received (of_nat (length es)) (nmd_counters d)\<rparr>)"

section \<open>The dispatcher by key\<close>

record NonPersistentStickyKeyDispatcher =
  nkd_consumers_by_id :: "(u64, cref) btree_map"
  nkd_auto_split_assignments :: "(KeySharedHashRange \<times> cref) list"
  nkd_sticky_assignments :: "(KeySharedHashRange \<times> cref) list"
  nkd_key_shared_policy :: KeySharedPolicy
  nkd_total_available_permits :: u32
  nkd_counters :: NonPersistentCounters

definition NonPersistentStickyKeyDispatcher_new :: "KeySharedPolicy option \<Rightarrow> NonPersistentStickyKeyDispatcher" where
  "NonPersistentStickyKeyDispatcher_new policy =
     \<lparr>nkd_consumers_by_id = [], nkd_auto_split_assignments = [], nkd_sticky_assignments = [],
      nkd_key_shared_policy = (case policy of Some p \<Rightarrow> p
        | None \<Rightarrow> \<lparr>ksp_mode = AutoSplit, ksp_ranges = [], ksp_allow_out_of_order_delivery = False\<rparr>),
      nkd_total_available_permits = 0, nkd_counters = NonPersistentCounters_new\<rparr>"

definition np_has_same_key_shared_policy :: "KeySharedPolicy option \<Rightarrow> NonPersistentStickyKeyDispatcher \<Rightarrow> bool" where
  "np_has_same_key_shared_policy policy d =
     (case policy of
        None \<Rightarrow> ksp_mode (nkd_key_shared_policy d) = AutoSplit
      | Some p \<Rightarrow> ksp_mode p = ksp_mode (nkd_key_shared_policy d))"

definition np_key_subtract_total_permits :: "u32 \<Rightarrow> NonPersistentStickyKeyDispatcher \<Rightarrow> NonPersistentStickyKeyDispatcher" where
  "np_key_subtract_total_permits n d =
     d\<lparr>nkd_total_available_permits := u32_saturating_sub (nkd_total_available_permits d) n\<rparr>"

definition np_active_assignments :: "NonPersistentStickyKeyDispatcher \<Rightarrow> (KeySharedHashRange \<times> cref) list" where
  "np_active_assignments d =
     (case ksp_mode (nkd_key_shared_policy d) of
        AutoSplit \<Rightarrow> nkd_auto_split_assignments d
      | Sticky \<Rightarrow> nkd_sticky_assignments d)"

definition np_rebuild_auto_split_assignments ::
    "'ch world \<Rightarrow> NonPersistentStickyKeyDispatcher \<Rightarrow> NonPersistentStickyKeyDispatcher" where
  "np_rebuild_auto_split_assignments w d =
     (let consumers = sort_key (\<lambda>r. consumer_id (w_consumers w r)) (btm_values (nkd_consumers_by_id d)) in
      if consumers = [] then d\<lparr>nkd_auto_split_assignments := []\<rparr>
      else d\<lparr>nkd_auto_split_assignments :=
        map (\<lambda>(i, r). (auto_split_range (wrap_i32 (int (length consumers))) (wrap_i32 (int i)), r))
          (enumerate 0 consumers)\<rparr>)"

definition np_rebuild_sticky_assignments ::
    "'ch world \<Rightarrow> NonPersistentStickyKeyDispatcher \<Rightarrow> NonPersistentStickyKeyDispatcher" where
  "np_rebuild_sticky_assignments w d =
     d\<lparr>nkd_sticky_assignments :=
        sort_key (\<lambda>(rng, r). (range_start rng, range_end rng, consumer_id (w_consumers w r)))
          (concat (map (\<lambda>r. map (\<lambda>rng. (rng, r)) (sticky_ranges_for_consumer (w_consumers w r)))
             (btm_values (nkd_consumers_by_id d))))\<rparr>"

definition np_rebuild_assignments :: "'ch world \<Rightarrow> NonPersistentStickyKeyDispatcher \<Rightarrow> NonPersistentStickyKeyDispatcher" where
  "np_rebuild_assignments w d = np_rebuild_sticky_assignments w (np_rebuild_auto_split_assignments w d)"

definition np_key_add_consumer ::
    "'ch world \<Rightarrow> cref \<Rightarrow> NonPersistentStickyKeyDispatcher \<Rightarrow> unit result \<times> NonPersistentStickyKeyDispatcher" where
  "np_key_add_consumer w r d =
     (let c = w_consumers w r in
      if btm_contains (consumer_id c) (nkd_consumers_by_id d)
      then (Inl (Msg ''Consumer already exists in non-persistent key-shared dispatcher''), d)
      else if \<not> np_has_same_key_shared_policy (key_shared_policy c) d
      then (Inl (Msg ''Consumer key shared policy is incompatible with the dispatcher''), d)
      else (Inr (), np_rebuild_assignments w
             (d\<lparr>nkd_consumers_by_id := btm_insert (consumer_id c) r (nkd_consumers_by_id d)\<rparr>)))"

definition np_key_remove_consumer ::
    "'ch world \<Rightarrow> u64 \<Rightarrow> NonPersistentStickyKeyDispatcher \<Rightarrow> cref option \<times> NonPersistentStickyKeyDispatcher" where
  "np_key_remove_consumer w cid d =
     (let removed = btm_get cid (nkd_consumers_by_id d);
          d1 = d\<lparr>nkd_consumers_by_id := btm_remove cid (nkd_consumers_by_id d)\<rparr>;
          d2 = (case removed of
                  Some r \<Rightarrow> np_key_subtract_total_permits (available_permits_now (w_consumers w r)) d1
                | None \<Rightarrow> d1)
      in (removed, np_rebuild_assignments w d2))"

definition np_key_consumer_flow :: "u64 \<Rightarrow> u32 \<Rightarrow> NonPersistentStickyKeyDispatcher \<Rightarrow> NonPersistentStickyKeyDispatcher" where
  "np_key_consumer_flow cid n d = d\<lparr>nkd_total_available_permits := nkd_total_available_permits d + n\<rparr>"

definition np_select_consumer :: "'ch world \<Rightarrow> bytes \<Rightarrow> NonPersistentStickyKeyDispatcher \<Rightarrow> cref option" where
  "np_select_consumer w sticky_key d =
     (let h = sticky_key_hash sticky_key in
      map_option snd (find (\<lambda>(rng, r). range_start rng \<le> h \<and> h \<le> range_end rng \<and>
        0 < available_permits_now (w_consumers w r) \<and> is_writable w r) (np_active_assignments d)))"

definition np_key_send_entry ::
    "'ch broker_ext \<Rightarrow> NonPersistentEntry \<Rightarrow> 'ch world \<Rightarrow> NonPersistentStickyKeyDispatcher
     \<Rightarrow> 'ch world \<times> NonPersistentStickyKeyDispatcher" where
  "np_key_send_entry bx e w d =
     (let n = np_batch_count bx e in
      case np_select_consumer w (resolve_sticky_key (bx_proto bx) (np_metadata e)) d of
        None \<Rightarrow> (w, d\<lparr>nkd_counters := record_drop (ucast n) (nkd_counters d)\<rparr>)
      | Some r \<Rightarrow>
          (case np_try_send bx e r w of
             (True, w1) \<Rightarrow>
               (w1, np_key_subtract_total_permits n (d\<lparr>nkd_counters := record_dispatched (ucast n) (nkd_counters d)\<rparr>))
           | (False, w1) \<Rightarrow> (w1, d\<lparr>nkd_counters := record_drop (ucast n) (nkd_counters d)\<rparr>)))"

fun np_key_loop ::
    "'ch broker_ext \<Rightarrow> NonPersistentEntry list \<Rightarrow> 'ch world \<Rightarrow> NonPersistentStickyKeyDispatcher
     \<Rightarrow> NonPersistentEntry list \<times> 'ch world \<times> NonPersistentStickyKeyDispatcher" where
  "np_key_loop bx [] w d = ([], w, d)"
| "np_key_loop bx (e # es) w d =
     (case np_key_send_entry bx e w d of
        (w1, d1) \<Rightarrow> (case np_key_loop bx es w1 d1 of (rs, w2, d2) \<Rightarrow> (snd (release e) # rs, w2, d2)))"

text \<open>With an aggregate of no permits every entry is dropped, and entries are counted instead of messages.\<close>

definition np_key_send_messages ::
    "'ch broker_ext \<Rightarrow> NonPersistentEntry list \<Rightarrow> 'ch world \<Rightarrow> NonPersistentStickyKeyDispatcher
     \<Rightarrow> NonPersistentEntry list \<times> 'ch world \<times> NonPersistentStickyKeyDispatcher" where
  "np_key_send_messages bx es w d =
     (let d1 = d\<lparr>nkd_counters := record_received (of_nat (length es)) (nkd_counters d)\<rparr> in
      if nkd_total_available_permits d1 = 0
      then (map (\<lambda>e. snd (release e)) es, w, d1\<lparr>nkd_counters := record_drop (of_nat (length es)) (nkd_counters d1)\<rparr>)
      else np_key_loop bx es w d1)"

section \<open>The family of dispatchers\<close>

datatype NonPersistentDispatcherEnum =
  NpExclusive NonPersistentDispatcherExclusive
| NpFailover NonPersistentDispatcherFailover
| NpMultipleConsumers NonPersistentDispatcherMultipleConsumers
| NpStickyKey NonPersistentStickyKeyDispatcher

definition NonPersistentDispatcherEnum_new ::
    "SubscriptionType \<Rightarrow> string \<Rightarrow> i32 \<Rightarrow> KeySharedPolicy option \<Rightarrow> NonPersistentDispatcherEnum" where
  "NonPersistentDispatcherEnum_new sub_type topic idx policy =
     (case sub_type of
        Exclusive \<Rightarrow> NpExclusive NonPersistentDispatcherExclusive_new
      | Failover \<Rightarrow> NpFailover (NonPersistentDispatcherFailover_new topic idx)
      | Shared \<Rightarrow> NpMultipleConsumers NonPersistentDispatcherMultipleConsumers_new
      | KeyShared \<Rightarrow> NpStickyKey (NonPersistentStickyKeyDispatcher_new policy))"

fun np_get_type :: "NonPersistentDispatcherEnum \<Rightarrow> SubscriptionType" where
  "np_get_type (NpExclusive _) = Exclusive"
| "np_get_type (NpFailover _) = Failover"
| "np_get_type (NpMultipleConsumers _) = Shared"
| "np_get_type (NpStickyKey _) = KeyShared"

fun np_is_consumer_connected :: "NonPersistentDispatcherEnum \<Rightarrow> bool" where
  "np_is_consumer_connected (NpExclusive d) \<longleftrightarrow> nxd_consumer d \<noteq> None"
| "np_is_consumer_connected (NpFailover d) \<longleftrightarrow> nfd_consumers d \<noteq> []"
| "np_is_consumer_connected (NpMultipleConsumers d) \<longleftrightarrow> nmd_consumers_by_id d \<noteq> []"
| "np_is_consumer_connected (NpStickyKey d) \<longleftrightarrow> nkd_consumers_by_id d \<noteq> []"

fun np_add_consumer ::
    "cref \<Rightarrow> 'ch world \<Rightarrow> NonPersistentDispatcherEnum \<Rightarrow> unit result \<times> 'ch world \<times> NonPersistentDispatcherEnum" where
  "np_add_consumer r w (NpExclusive d) = (case np_exclusive_add_consumer r d of (x, d1) \<Rightarrow> (x, w, NpExclusive d1))"
| "np_add_consumer r w (NpFailover d) = (case np_failover_add_consumer r w d of (x, w1, d1) \<Rightarrow> (x, w1, NpFailover d1))"
| "np_add_consumer r w (NpMultipleConsumers d) =
     (case np_multi_add_consumer w r d of (x, d1) \<Rightarrow> (x, w, NpMultipleConsumers d1))"
| "np_add_consumer r w (NpStickyKey d) = (case np_key_add_consumer w r d of (x, d1) \<Rightarrow> (x, w, NpStickyKey d1))"

fun np_remove_consumer ::
    "u64 \<Rightarrow> 'ch world \<Rightarrow> NonPersistentDispatcherEnum \<Rightarrow> cref option \<times> 'ch world \<times> NonPersistentDispatcherEnum" where
  "np_remove_consumer cid w (NpExclusive d) = (case np_exclusive_remove_consumer w cid d of (x, d1) \<Rightarrow> (x, w, NpExclusive d1))"
| "np_remove_consumer cid w (NpFailover d) = (case np_failover_remove_consumer cid w d of (x, w1, d1) \<Rightarrow> (x, w1, NpFailover d1))"
| "np_remove_consumer cid w (NpMultipleConsumers d) =
     (case np_multi_remove_consumer w cid d of (x, d1) \<Rightarrow> (x, w, NpMultipleConsumers d1))"
| "np_remove_consumer cid w (NpStickyKey d) = (case np_key_remove_consumer w cid d of (x, d1) \<Rightarrow> (x, w, NpStickyKey d1))"

fun np_get_consumers :: "NonPersistentDispatcherEnum \<Rightarrow> cref list" where
  "np_get_consumers (NpExclusive d) = np_exclusive_get_consumers d"
| "np_get_consumers (NpFailover d) = nfd_consumers d"
| "np_get_consumers (NpMultipleConsumers d) = btm_values (nmd_consumers_by_id d)"
| "np_get_consumers (NpStickyKey d) = btm_values (nkd_consumers_by_id d)"

definition np_get_consumer :: "'ch world \<Rightarrow> u64 \<Rightarrow> NonPersistentDispatcherEnum \<Rightarrow> cref option" where
  "np_get_consumer w cid d = find (\<lambda>r. consumer_id (w_consumers w r) = cid) (np_get_consumers d)"

fun np_enum_get_active_consumer :: "'ch world \<Rightarrow> NonPersistentDispatcherEnum \<Rightarrow> cref option" where
  "np_enum_get_active_consumer w (NpExclusive d) = nxd_consumer d"
| "np_enum_get_active_consumer w (NpFailover d) = np_get_active_consumer w d"
| "np_enum_get_active_consumer w (NpMultipleConsumers _) = None"
| "np_enum_get_active_consumer w (NpStickyKey _) = None"

fun np_consumer_flow :: "u64 \<Rightarrow> u32 \<Rightarrow> NonPersistentDispatcherEnum \<Rightarrow> NonPersistentDispatcherEnum" where
  "np_consumer_flow cid n (NpExclusive d) = NpExclusive d"
| "np_consumer_flow cid n (NpFailover d) = NpFailover d"
| "np_consumer_flow cid n (NpMultipleConsumers d) = NpMultipleConsumers (np_multi_consumer_flow cid n d)"
| "np_consumer_flow cid n (NpStickyKey d) = NpStickyKey (np_key_consumer_flow cid n d)"

text \<open>\<open>received_messages\<close>, \<open>dropped_messages\<close> and \<open>dispatched_messages\<close> read one of the counters.\<close>

fun np_counters :: "NonPersistentDispatcherEnum \<Rightarrow> NonPersistentCounters" where
  "np_counters (NpExclusive d) = nxd_counters d"
| "np_counters (NpFailover d) = nfd_counters d"
| "np_counters (NpMultipleConsumers d) = nmd_counters d"
| "np_counters (NpStickyKey d) = nkd_counters d"

fun np_enum_has_same_key_shared_policy :: "KeySharedPolicy option \<Rightarrow> NonPersistentDispatcherEnum \<Rightarrow> bool" where
  "np_enum_has_same_key_shared_policy policy (NpStickyKey d) = np_has_same_key_shared_policy policy d"
| "np_enum_has_same_key_shared_policy policy _ \<longleftrightarrow> policy = None"

fun np_record_drop :: "u64 \<Rightarrow> NonPersistentDispatcherEnum \<Rightarrow> NonPersistentDispatcherEnum" where
  "np_record_drop n (NpExclusive d) = NpExclusive (d\<lparr>nxd_counters := record_drop n (nxd_counters d)\<rparr>)"
| "np_record_drop n (NpFailover d) = NpFailover (d\<lparr>nfd_counters := record_drop n (nfd_counters d)\<rparr>)"
| "np_record_drop n (NpMultipleConsumers d) = NpMultipleConsumers (d\<lparr>nmd_counters := record_drop n (nmd_counters d)\<rparr>)"
| "np_record_drop n (NpStickyKey d) = NpStickyKey (d\<lparr>nkd_counters := record_drop n (nkd_counters d)\<rparr>)"

fun np_send_messages ::
    "'ch broker_ext \<Rightarrow> NonPersistentEntry list \<Rightarrow> 'ch world \<Rightarrow> NonPersistentDispatcherEnum
     \<Rightarrow> NonPersistentEntry list \<times> 'ch world \<times> NonPersistentDispatcherEnum" where
  "np_send_messages bx es w (NpExclusive d) =
     (case np_exclusive_send_messages bx es w d of (rs, w1, d1) \<Rightarrow> (rs, w1, NpExclusive d1))"
| "np_send_messages bx es w (NpFailover d) =
     (case np_failover_send_messages bx es w d of (rs, w1, d1) \<Rightarrow> (rs, w1, NpFailover d1))"
| "np_send_messages bx es w (NpMultipleConsumers d) =
     (case np_multi_send_messages bx es w d of (rs, w1, d1) \<Rightarrow> (rs, w1, NpMultipleConsumers d1))"
| "np_send_messages bx es w (NpStickyKey d) =
     (case np_key_send_messages bx es w d of (rs, w1, d1) \<Rightarrow> (rs, w1, NpStickyKey d1))"

section \<open>The subscription runtime\<close>

record NonPersistentSubscriptionRuntime =
  nr_topic_name :: string
  nr_partition_index :: i32
  nr_sub_type :: SubscriptionType
  nr_properties :: "(string \<times> string) list"
  nr_key_shared_policy :: "KeySharedPolicy option"
  nr_is_fenced :: bool
  nr_dispatcher :: "NonPersistentDispatcherEnum option"

definition NonPersistentSubscriptionRuntime_new ::
    "string \<Rightarrow> i32 \<Rightarrow> SubscriptionType \<Rightarrow> (string \<times> string) list \<Rightarrow> KeySharedPolicy option \<Rightarrow> NonPersistentSubscriptionRuntime" where
  "NonPersistentSubscriptionRuntime_new topic idx sub_type props policy =
     \<lparr>nr_topic_name = topic, nr_partition_index = idx, nr_sub_type = sub_type, nr_properties = props,
      nr_key_shared_policy = policy, nr_is_fenced = False, nr_dispatcher = None\<rparr>"

definition np_reuse_or_create_dispatcher :: "NonPersistentSubscriptionRuntime \<Rightarrow> NonPersistentDispatcherEnum" where
  "np_reuse_or_create_dispatcher rt =
     (let fresh = NonPersistentDispatcherEnum_new (nr_sub_type rt) (nr_topic_name rt) (nr_partition_index rt)
        (nr_key_shared_policy rt)
      in
      case nr_dispatcher rt of
        None \<Rightarrow> fresh
      | Some d \<Rightarrow>
          if \<not> np_is_consumer_connected d \<and>
             (np_get_type d \<noteq> nr_sub_type rt \<or> \<not> np_enum_has_same_key_shared_policy (nr_key_shared_policy rt) d)
          then fresh else d)"

definition nr_add_consumer ::
    "cref \<Rightarrow> 'ch world \<Rightarrow> NonPersistentSubscriptionRuntime \<Rightarrow> unit result \<times> 'ch world \<times> NonPersistentSubscriptionRuntime" where
  "nr_add_consumer r w rt =
     (if nr_is_fenced rt then (Inl (Msg ''Subscription is fenced''), w, rt)
      else
      let d = np_reuse_or_create_dispatcher rt in
      if np_is_consumer_connected d \<and>
         (np_get_type d \<noteq> nr_sub_type rt \<or> \<not> np_enum_has_same_key_shared_policy (key_shared_policy (w_consumers w r)) d)
      then (Inl (Msg ''Consumer is incompatible with the current dispatcher''), w, rt\<lparr>nr_dispatcher := Some d\<rparr>)
      else case np_add_consumer r w d of (x, w1, d1) \<Rightarrow> (x, w1, rt\<lparr>nr_dispatcher := Some d1\<rparr>))"

definition nr_remove_consumer ::
    "u64 \<Rightarrow> 'ch world \<Rightarrow> NonPersistentSubscriptionRuntime \<Rightarrow> cref option \<times> 'ch world \<times> NonPersistentSubscriptionRuntime" where
  "nr_remove_consumer cid w rt =
     (case nr_dispatcher rt of
        None \<Rightarrow> (None, w, rt)
      | Some d \<Rightarrow>
          (case np_remove_consumer cid w d of
             (x, w1, d1) \<Rightarrow>
               (x, w1, rt\<lparr>nr_dispatcher := (if np_is_consumer_connected d1 then Some d1 else None)\<rparr>)))"

definition nr_get_consumer :: "'ch world \<Rightarrow> u64 \<Rightarrow> NonPersistentSubscriptionRuntime \<Rightarrow> cref option" where
  "nr_get_consumer w cid rt = (case nr_dispatcher rt of None \<Rightarrow> None | Some d \<Rightarrow> np_get_consumer w cid d)"

definition nr_get_consumers :: "NonPersistentSubscriptionRuntime \<Rightarrow> cref list" where
  "nr_get_consumers rt = (case nr_dispatcher rt of None \<Rightarrow> [] | Some d \<Rightarrow> np_get_consumers d)"

definition nr_get_active_consumer :: "'ch world \<Rightarrow> NonPersistentSubscriptionRuntime \<Rightarrow> cref option" where
  "nr_get_active_consumer w rt =
     (case nr_dispatcher rt of None \<Rightarrow> None | Some d \<Rightarrow> np_enum_get_active_consumer w d)"

definition nr_has_consumers :: "NonPersistentSubscriptionRuntime \<Rightarrow> bool" where
  "nr_has_consumers rt = (case nr_dispatcher rt of None \<Rightarrow> False | Some d \<Rightarrow> np_is_consumer_connected d)"

definition nr_fence :: "NonPersistentSubscriptionRuntime \<Rightarrow> NonPersistentSubscriptionRuntime" where
  "nr_fence rt = rt\<lparr>nr_is_fenced := True\<rparr>"

definition nr_resume_after_fence :: "NonPersistentSubscriptionRuntime \<Rightarrow> NonPersistentSubscriptionRuntime" where
  "nr_resume_after_fence rt = rt\<lparr>nr_is_fenced := False\<rparr>"

definition nr_counters :: "NonPersistentSubscriptionRuntime \<Rightarrow> NonPersistentCounters" where
  "nr_counters rt = (case nr_dispatcher rt of None \<Rightarrow> NonPersistentCounters_new | Some d \<Rightarrow> np_counters d)"

definition nr_consumer_flow :: "u64 \<Rightarrow> u32 \<Rightarrow> NonPersistentSubscriptionRuntime \<Rightarrow> NonPersistentSubscriptionRuntime" where
  "nr_consumer_flow cid n rt = rt\<lparr>nr_dispatcher := map_option (np_consumer_flow cid n) (nr_dispatcher rt)\<rparr>"

definition nr_record_drop :: "u64 \<Rightarrow> NonPersistentSubscriptionRuntime \<Rightarrow> NonPersistentSubscriptionRuntime" where
  "nr_record_drop n rt = rt\<lparr>nr_dispatcher := map_option (np_record_drop n) (nr_dispatcher rt)\<rparr>"

definition nr_send_messages ::
    "'ch broker_ext \<Rightarrow> NonPersistentEntry list \<Rightarrow> 'ch world \<Rightarrow> NonPersistentSubscriptionRuntime
     \<Rightarrow> NonPersistentEntry list \<times> 'ch world \<times> NonPersistentSubscriptionRuntime" where
  "nr_send_messages bx es w rt =
     (case nr_dispatcher rt of
        None \<Rightarrow> (map (\<lambda>e. snd (release e)) es, w, rt)
      | Some d \<Rightarrow> (case np_send_messages bx es w d of (rs, w1, d1) \<Rightarrow> (rs, w1, rt\<lparr>nr_dispatcher := Some d1\<rparr>)))"

end
