(* ===== verification/PL_NonPersistentDispatch.thy ===== *)
theory PL_NonPersistentDispatch
  imports PL_NonPersistent
begin

text \<open>
  What the non-persistent dispatchers guarantee: every entry is released, and is either handed to exactly one of the
  consumers or counted as dropped; the active Failover consumer always exists and has the least priority level; and the
  aggregate permit count of the dispatcher by key can run empty while a consumer still has permits.
\<close>

section \<open>One attempt\<close>

text \<open>A consumer can take an entry when it has permits, its connection can be written to and has a free slot, and it is
  not being removed.\<close>

definition np_can_take :: "'ch broker_ext \<Rightarrow> 'ch world \<Rightarrow> cref \<Rightarrow> bool" where
  "np_can_take bx w r \<longleftrightarrow> 0 < available_permits (w_consumers w r) \<and> is_writable w r \<and>
     ch_try_reserve bx (channel_of w r) \<noteq> None \<and> \<not> pam_closed (pending_acks (w_consumers w r))"

text \<open>What arrives at the connection of a consumer when the listed entries are sent.\<close>

definition np_delivered ::
    "'ch broker_ext \<Rightarrow> 'ch world \<Rightarrow> cref \<Rightarrow> (NonPersistentEntry \<times> cref option) list \<Rightarrow> (u64 \<times> PendingMessage) list" where
  "np_delivered bx w x os = concat (map (\<lambda>(e, t).
     case t of
       Some r \<Rightarrow>
         if c_connection (w_consumers w r) = c_connection (w_consumers w x)
         then [(consumer_id (w_consumers w r),
                pending_message bx (w_consumers w r) (np_message_id e) (np_metadata e) (np_payload e) 0)]
         else []
     | None \<Rightarrow> []) os)"

definition np_fan ::
    "'ch broker_ext \<Rightarrow> ('ch \<Rightarrow> (u64 \<times> PendingMessage) list) \<Rightarrow> 'ch world \<Rightarrow> 'ch world
     \<Rightarrow> (NonPersistentEntry \<times> cref option) list \<Rightarrow> bool" where
  "np_fan bx sent w w' os \<longleftrightarrow> frame_consumers w w' \<and>
     (\<forall>x. sent (channel_of w' x) = sent (channel_of w x) @ np_delivered bx w x os)"

lemma np_delivered_simps [simp]:
  "np_delivered bx w x [] = []"
  "np_delivered bx w x (os @ os') = np_delivered bx w x os @ np_delivered bx w x os'"
  "np_delivered bx w x ((e, None) # os) = np_delivered bx w x os"
  by (simp_all add: np_delivered_def)

lemma np_delivered_frame: "frame_consumers w w' \<Longrightarrow> np_delivered bx w' x os = np_delivered bx w x os"
  unfolding np_delivered_def
  by (rule arg_cong [where f = concat], rule map_cong [OF refl])
    (auto simp: frame_consumers_def same_identity_def pending_message_def split: option.split)

lemma np_fan_refl [simp]: "np_fan bx sent w w []"
  by (simp add: np_fan_def)

lemma np_fan_trans: "np_fan bx sent w w1 os \<Longrightarrow> np_fan bx sent w1 w2 os' \<Longrightarrow> np_fan bx sent w w2 (os @ os')"
  unfolding np_fan_def using frame_consumers_trans np_delivered_frame by fastforce

lemma np_fan_drop: "np_fan bx sent w w' [] \<Longrightarrow> np_fan bx sent w w' [(e, None)]"
  by (simp add: np_fan_def)

lemma frame_channel:
  assumes "frame_consumers w w'" "w_connections w' = w_connections w"
  shows "channel_of w' x = channel_of w x"
  using assms by (simp add: channel_of_def frame_consumers_def same_identity_def)

lemma np_try_send_cases:
  assumes laws: "chan_laws bx sent" and run: "np_try_send bx e r w = (ok, w')"
  shows "np_fan bx sent w w' [(e, if ok then Some r else None)]" "ok \<longleftrightarrow> np_can_take bx w r"
    "cn_write_state (w_connections w' n) = cn_write_state (w_connections w n)"
proof -
  let ?n = "np_batch_count bx e" and ?c = "w_consumers w r" and ?mid = "np_message_id e"
  let ?c1 = "?c\<lparr>available_permits := wrap_i32 (available_permits ?c - u32_as_i32 ?n)\<rparr>"
  let ?w1 = "upd_consumer r (\<lambda>_. ?c1) w"
  have wr: "is_writable ?w1 r = is_writable w r" by (simp add: is_writable_def)
  have ch: "channel_of ?w1 x = channel_of w x" for x by (rule channel_of_upd_consumer) simp
  have f1: "frame_consumers w ?w1" by (rule frame_upd_consumer) (simp add: same_identity_def)
  note defs = np_try_send_def try_reserve_dispatch_def try_use_permits_def np_can_take_def
  have "np_fan bx sent w w' [(e, if ok then Some r else None)] \<and> (ok \<longleftrightarrow> np_can_take bx w r) \<and>
    (\<forall>n. cn_write_state (w_connections w' n) = cn_write_state (w_connections w n))"
  proof (cases "0 < available_permits ?c")
    case False
    then show ?thesis using run by (simp add: defs np_fan_def)
  next
    case pos: True
    let ?w4 = "upd_consumer r (add_permits ?n) ?w1"
    have f4: "frame_consumers w ?w4" by (rule frame_consumers_trans [OF f1]) (rule frame_upd_consumer, simp)
    show ?thesis
    proof (cases "is_writable w r \<and> ch_try_reserve bx (channel_of w r) \<noteq> None")
      case False
      then have "ok = False" "w' = ?w4" using run pos by (auto simp: defs Let_def wr ch split: option.splits)
      then show ?thesis using False f4 frame_channel [OF f4] by (auto simp: np_fan_def np_can_take_def)
    next
      case True
      then obtain c' where c': "ch_try_reserve bx (channel_of w r) = Some c'" by auto
      have same_ch: "c_connection (w_consumers w x) = c_connection ?c \<Longrightarrow> channel_of w r = channel_of w x" for x
        by (simp add: channel_of_def)
      have sent': "sent c' = sent (channel_of w r)" using laws c' by (auto simp: chan_laws_def)
      let ?w2 = "upd_channel r (\<lambda>_. c') ?w1"
      show ?thesis
      proof (cases "pam_closed (pending_acks ?c)")
        case closed: True
        let ?w5 = "upd_channel r (ch_release bx) (upd_consumer r (add_permits ?n) (upd_consumer r (\<lambda>_. ?c1) ?w2))"
        have ok: "ok = False" and w': "w' = ?w5" using run pos True c' closed
          by (simp_all add: defs Let_def wr ch track_message_dispatched_with_sticky_hash_def add_pending_ack_def)
        have f5: "frame_consumers w ?w5"
          by (auto simp: frame_consumers_def same_identity_def add_permits_def)
        have ch5: "channel_of ?w5 x =
            (if c_connection (w_consumers w x) = c_connection ?c then ch_release bx c' else channel_of w x)" for x
          by (simp add: channel_of_upd_channel channel_of_upd_consumer add_permits_def ch)
        have "sent (channel_of ?w5 x) = sent (channel_of w x)" for x
          unfolding ch5 using laws sent' same_ch [of x] by (simp add: chan_laws_def)
        then show ?thesis using ok w' f5 closed by (simp add: np_fan_def np_can_take_def)
      next
        case open': False
        let ?c2 = "?c1\<lparr>pending_acks := (pending_acks ?c)\<lparr>pam_inner := btm_insert ?mid
            \<lparr>pa_redelivery_count = 0, pa_sticky_key_hash = None\<rparr> (pam_inner (pending_acks ?c))\<rparr>\<rparr>"
        let ?m = "(consumer_id ?c, pending_message bx ?c2 ?mid (np_metadata e) (np_payload e) 0)"
        let ?w6 = "upd_consumer r (record_message_dispatched ?n (np_len e))
            (upd_channel r (\<lambda>ch. ch_send bx ch ?m) (upd_consumer r (\<lambda>_. ?c2) ?w2))"
        have ok: "ok" and w': "w' = ?w6" using run pos True c' open'
          by (simp_all add: defs Let_def wr ch track_message_dispatched_with_sticky_hash_def add_pending_ack_def
              reservation_send_def)
        have f6: "frame_consumers w ?w6"
          by (auto simp: frame_consumers_def same_identity_def record_message_dispatched_def)
        have pm: "pending_message bx ?c2 ?mid md pl rc = pending_message bx ?c ?mid md pl rc" for md pl rc
          by (simp add: pending_message_def)
        have ch6: "channel_of ?w6 x =
            (if c_connection (w_consumers w x) = c_connection ?c then ch_send bx c' ?m else channel_of w x)" for x
          by (simp add: channel_of_upd_channel channel_of_upd_consumer record_message_dispatched_def ch)
        have "sent (channel_of ?w6 x) = sent (channel_of w x) @ np_delivered bx w x [(e, Some r)]" for x
          unfolding ch6 unfolding pm using laws sent' same_ch [of x] by (simp add: chan_laws_def np_delivered_def)
        then show ?thesis using ok w' f6 pos True open' by (auto simp: np_fan_def np_can_take_def)
      qed
    qed
  qed
  then show "np_fan bx sent w w' [(e, if ok then Some r else None)]" "ok \<longleftrightarrow> np_can_take bx w r"
    "cn_write_state (w_connections w' n) = cn_write_state (w_connections w n)" by blast+
qed

text \<open>An attempt that fails changes nothing, unless the consumer is being removed.\<close>

definition np_steady :: "'ch world \<Rightarrow> cref \<Rightarrow> bool" where
  "np_steady w r \<longleftrightarrow> \<not> pam_closed (pending_acks (w_consumers w r)) \<and>
     - 2147483648 \<le> available_permits (w_consumers w r) \<and> available_permits (w_consumers w r) < 2147483648"

lemma upd_consumer_twice: "upd_consumer r f (upd_consumer r g w) = upd_consumer r (\<lambda>c. f (g c)) w"
  by (simp add: upd_consumer_def)

lemma upd_consumer_same: "f (w_consumers w r) = w_consumers w r \<Longrightarrow> upd_consumer r f w = w"
  by (simp add: upd_consumer_def)

lemma np_try_send_refused:
  assumes "\<not> np_can_take bx w r" "np_steady w r"
  shows "np_try_send bx e r w = (False, w)"
proof (cases "0 < available_permits (w_consumers w r)")
  case True
  let ?p = "available_permits (w_consumers w r)" and ?n = "np_batch_count bx e"
  let ?w1 = "upd_consumer r (\<lambda>_. (w_consumers w r)\<lparr>available_permits := wrap_i32 (?p - u32_as_i32 ?n)\<rparr>) w"
  have "wrap_i32 ?p = ?p" using assms(2) by (intro wrap_i32_id) (auto simp: np_steady_def)
  then have undo: "upd_consumer r (add_permits ?n) ?w1 = w"
    unfolding upd_consumer_twice by (intro upd_consumer_same) (simp add: add_permits_def)
  have "is_writable ?w1 r = is_writable w r" "channel_of ?w1 r = channel_of w r"
    by (simp_all add: is_writable_def channel_of_upd_consumer)
  moreover have "\<not> is_writable w r \<or> ch_try_reserve bx (channel_of w r) = None"
    using assms True by (auto simp: np_can_take_def np_steady_def)
  ultimately show ?thesis using True undo
    by (auto simp: np_try_send_def try_reserve_dispatch_def try_use_permits_def Let_def)
qed (simp add: np_try_send_def try_reserve_dispatch_def try_use_permits_def)

section \<open>Accounting\<close>

definition messages_sent :: "'ch broker_ext \<Rightarrow> (NonPersistentEntry \<times> cref option) list \<Rightarrow> u64" where
  "messages_sent bx os = (\<Sum>(e, t) \<leftarrow> os. if t \<noteq> None then ucast (np_batch_count bx e) else 0)"

definition messages_lost :: "'ch broker_ext \<Rightarrow> (NonPersistentEntry \<times> cref option) list \<Rightarrow> u64" where
  "messages_lost bx os = (\<Sum>(e, t) \<leftarrow> os. if t = None then ucast (np_batch_count bx e) else 0)"

definition np_counted ::
    "'ch broker_ext \<Rightarrow> NonPersistentCounters \<Rightarrow> NonPersistentCounters \<Rightarrow> (NonPersistentEntry \<times> cref option) list \<Rightarrow> bool" where
  "np_counted bx k k' os \<longleftrightarrow> npc_received k' = npc_received k \<and>
     npc_dispatched k' = npc_dispatched k + messages_sent bx os \<and> npc_dropped k' = npc_dropped k + messages_lost bx os"

lemma messages_simps [simp]:
  "messages_sent bx [] = 0" "messages_lost bx [] = 0"
  "messages_sent bx (p # os) = (if snd p \<noteq> None then ucast (np_batch_count bx (fst p)) else 0) + messages_sent bx os"
  "messages_lost bx (p # os) = (if snd p = None then ucast (np_batch_count bx (fst p)) else 0) + messages_lost bx os"
  by (simp_all add: messages_sent_def messages_lost_def case_prod_beta)

lemma np_counted_refl [simp]: "np_counted bx k k []"
  by (simp add: np_counted_def)

lemma np_counted_step:
  "np_counted bx k1 k2 os \<Longrightarrow>
   k1 = (if t \<noteq> None then record_dispatched (ucast (np_batch_count bx e)) k else record_drop (ucast (np_batch_count bx e)) k) \<Longrightarrow>
   np_counted bx k k2 ((e, t) # os)"
  by (cases t) (simp_all add: np_counted_def record_dispatched_def record_drop_def)

text \<open>The result of sending a list of entries: who took each entry, what arrived and what was counted.\<close>

definition np_sent ::
    "'ch broker_ext \<Rightarrow> ('ch \<Rightarrow> (u64 \<times> PendingMessage) list) \<Rightarrow> NonPersistentEntry list \<Rightarrow> (NonPersistentEntry \<Rightarrow> cref \<Rightarrow> bool)
     \<Rightarrow> NonPersistentEntry list \<Rightarrow> 'ch world \<Rightarrow> 'ch world \<Rightarrow> NonPersistentCounters \<Rightarrow> NonPersistentCounters
     \<Rightarrow> (NonPersistentEntry \<times> cref option) list \<Rightarrow> bool" where
  "np_sent bx sent es P left w w' k k' os \<longleftrightarrow> map fst os = es \<and> left = map (\<lambda>e. snd (release e)) es \<and>
     np_fan bx sent w w' os \<and> np_counted bx k k' os \<and> (\<forall>(e, t) \<in> set os. \<forall>r. t = Some r \<longrightarrow> P e r)"

lemma np_sent_Nil: "\<exists>os. np_sent bx sent [] P [] w w k k os"
  by (rule exI [of _ "[]"]) (simp add: np_sent_def)

lemma np_sent_Cons:
  assumes "np_sent bx sent es P left w1 w2 k1 k2 os" "np_fan bx sent w w1 [(e, t)]" "\<And>r. t = Some r \<Longrightarrow> P e r"
    "k1 = (if t \<noteq> None then record_dispatched (ucast (np_batch_count bx e)) k else record_drop (ucast (np_batch_count bx e)) k)"
  shows "np_sent bx sent (e # es) P (snd (release e) # left) w w2 k k2 ((e, t) # os)"
  using assms np_fan_trans [OF assms(2)] np_counted_step [of bx k1 k2 os t e k] by (auto simp: np_sent_def)

lemma np_drop_all_sent:
  "\<exists>os. np_sent bx sent es P (fst (np_drop_all bx es k)) w w k (snd (np_drop_all bx es k)) os"
proof (induction es arbitrary: k)
  case (Cons e es)
  let ?k = "record_drop (ucast (np_batch_count bx e)) k"
  from Cons obtain os where "np_sent bx sent es P (fst (np_drop_all bx es ?k)) w w ?k (snd (np_drop_all bx es ?k)) os" by blast
  from np_sent_Cons [OF this np_fan_drop [OF np_fan_refl]] show ?case by (auto simp: np_drop_all_def)
qed (auto simp: np_drop_all_def intro: np_sent_Nil)

lemma np_single_loop_sent:
  assumes "chan_laws bx sent" "np_single_loop bx r es w k = (left, w', k')" "\<And>e. P e r"
  shows "\<exists>os. np_sent bx sent es P left w w' k k' os"
  using assms(2)
proof (induction es arbitrary: w k left w' k')
  case (Cons e es)
  obtain ok w1 where att: "np_try_send bx e r w = (ok, w1)" by fastforce
  let ?k = "if ok then record_dispatched (ucast (np_batch_count bx e)) k else record_drop (ucast (np_batch_count bx e)) k"
  obtain left1 w2 k2 where loop: "np_single_loop bx r es w1 ?k = (left1, w2, k2)" by (cases "np_single_loop bx r es w1 ?k")
  from Cons.IH [OF loop] obtain os where "np_sent bx sent es P left1 w1 w2 ?k k2 os" by blast
  from np_sent_Cons [OF this np_try_send_cases(1) [OF assms(1) att], of k]
  have "np_sent bx sent (e # es) P (snd (release e) # left1) w w2 k k2 ((e, if ok then Some r else None) # os)"
    using assms(3) [of e] by (auto split: if_splits)
  moreover have "left = snd (release e) # left1" "w' = w2" "k' = k2"
    using Cons.prems loop by (auto simp: att Let_def)
  ultimately show ?case by blast
qed (auto intro: np_sent_Nil)

lemma np_offer_fan:
  assumes "chan_laws bx sent" "np_offer bx e rs w = (ok, w')"
  shows "\<exists>t. np_fan bx sent w w' [(e, t)] \<and> (ok \<longleftrightarrow> t \<noteq> None) \<and> t \<in> insert None (Some ` set rs)"
  using assms(2)
proof (induction rs arbitrary: w)
  case Nil
  then show ?case by (auto intro: np_fan_drop)
next
  case (Cons r rs)
  obtain ok1 w1 where att: "np_try_send bx e r w = (ok1, w1)" by fastforce
  note one = np_try_send_cases(1) [OF assms(1) att]
  show ?case
  proof (cases ok1)
    case True
    with Cons.prems att have "ok" "w' = w1" by auto
    with one True show ?thesis by auto
  next
    case False
    with Cons.prems att have "np_offer bx e rs w1 = (ok, w')" by simp
    from Cons.IH [OF this] obtain t where t: "np_fan bx sent w1 w' [(e, t)]" "ok \<longleftrightarrow> t \<noteq> None" "t \<in> insert None (Some ` set rs)"
      by blast
    from one False have "np_fan bx sent w w1 []" by (simp add: np_fan_def)
    from np_fan_trans [OF this t(1)] t(2,3) show ?thesis by auto
  qed
qed

lemma np_try_send_ok: "fst (np_try_send bx e r w) \<longleftrightarrow> np_can_take bx w r"
proof -
  have "is_writable (upd_consumer r (\<lambda>_. (w_consumers w r)\<lparr>available_permits := p\<rparr>) w) r = is_writable w r"
    "channel_of (upd_consumer r (\<lambda>_. (w_consumers w r)\<lparr>available_permits := p\<rparr>) w) r = channel_of w r" for p
    by (simp_all add: is_writable_def channel_of_upd_consumer)
  then show ?thesis
    by (auto simp: np_try_send_def try_reserve_dispatch_def try_use_permits_def np_can_take_def Let_def
        track_message_dispatched_with_sticky_hash_def add_pending_ack_def split: option.split)
qed

text \<open>If no consumer is being removed, the first that can take the entry gets it.\<close>

lemma np_offer_first:
  "\<forall>r \<in> set rs. np_steady w r \<Longrightarrow>
   np_offer bx e rs w = (case find (np_can_take bx w) rs of None \<Rightarrow> (False, w) | Some r \<Rightarrow> np_try_send bx e r w)"
proof (induction rs)
  case (Cons r rs)
  show ?case
  proof (cases "np_can_take bx w r")
    case True
    define x where "x = np_try_send bx e r w"
    have "fst x"
      using True np_try_send_ok [of bx e r w] by (simp add: x_def)
    then show ?thesis using True by (cases x) (auto simp: x_def [symmetric])
  next
    case False
    with Cons show ?thesis by (simp add: np_try_send_refused)
  qed
qed simp

lemma np_rotation: "map (\<lambda>offset. cs ! ((start + offset) mod length cs)) [0..<length cs] = rotate start cs"
  by (rule nth_equalityI) (simp_all add: nth_rotate)

lemma np_multi_send_entry_ok:
  assumes "chan_laws bx sent" "np_multi_send_entry bx e w d = (w', d')"
  shows "\<exists>t. np_fan bx sent w w' [(e, t)] \<and> (\<forall>r. t = Some r \<longrightarrow> r \<in> set (nmd_ordered_consumers d)) \<and>
    nmd_counters d' = (if t \<noteq> None then record_dispatched (ucast (np_batch_count bx e)) (nmd_counters d)
                       else record_drop (ucast (np_batch_count bx e)) (nmd_counters d)) \<and>
    nmd_ordered_consumers d' = nmd_ordered_consumers d \<and> nmd_consumers_by_id d' = nmd_consumers_by_id d"
proof (cases "nmd_ordered_consumers d = []")
  case True
  with assms(2) have "w' = w" "d' = d\<lparr>nmd_counters := record_drop (ucast (np_batch_count bx e)) (nmd_counters d)\<rparr>"
    by (simp_all add: np_multi_send_entry_def next_consumer_start_index_def Let_def)
  then show ?thesis by (auto intro!: exI [of _ None] np_fan_drop)
next
  case False
  let ?cs = "rotate (unat (nmd_next_consumer_index d) mod length (nmd_ordered_consumers d)) (nmd_ordered_consumers d)"
  obtain ok w1 where offer: "np_offer bx e ?cs w = (ok, w1)" by fastforce
  from np_offer_fan [OF assms(1) offer] obtain t where
    t: "np_fan bx sent w w1 [(e, t)]" "ok \<longleftrightarrow> t \<noteq> None" "t \<in> insert None (Some ` set ?cs)" by blast
  show ?thesis
    using assms(2) False t
    by (intro exI [of _ t], cases ok)
      (auto simp: np_multi_send_entry_def next_consumer_start_index_def Let_def np_rotation offer
        np_multi_subtract_total_permits_def)
qed

lemma np_multi_loop_sent:
  assumes "chan_laws bx sent" "np_multi_loop bx es w d = (left, w', d')"
  shows "(\<exists>os. np_sent bx sent es (\<lambda>_ r. r \<in> set (nmd_ordered_consumers d)) left w w' (nmd_counters d) (nmd_counters d') os) \<and>
    nmd_ordered_consumers d' = nmd_ordered_consumers d \<and> nmd_consumers_by_id d' = nmd_consumers_by_id d"
  using assms(2)
proof (induction es arbitrary: w d left w' d')
  case (Cons e es)
  obtain w1 d1 where one: "np_multi_send_entry bx e w d = (w1, d1)" by fastforce
  obtain left1 w2 d2 where loop: "np_multi_loop bx es w1 d1 = (left1, w2, d2)" by (cases "np_multi_loop bx es w1 d1")
  from np_multi_send_entry_ok [OF assms(1) one] obtain t where
    t: "np_fan bx sent w w1 [(e, t)]" "\<And>r. t = Some r \<Longrightarrow> r \<in> set (nmd_ordered_consumers d)"
      "nmd_counters d1 = (if t \<noteq> None then record_dispatched (ucast (np_batch_count bx e)) (nmd_counters d)
         else record_drop (ucast (np_batch_count bx e)) (nmd_counters d))" and
    same: "nmd_ordered_consumers d1 = nmd_ordered_consumers d" "nmd_consumers_by_id d1 = nmd_consumers_by_id d" by blast
  from Cons.IH [OF loop] same obtain os where
    "np_sent bx sent es (\<lambda>_ r. r \<in> set (nmd_ordered_consumers d)) left1 w1 w2 (nmd_counters d1) (nmd_counters d2) os"
    "nmd_ordered_consumers d2 = nmd_ordered_consumers d" "nmd_consumers_by_id d2 = nmd_consumers_by_id d" by auto
  with np_sent_Cons [OF this(1) t] show ?case using Cons.prems by (auto simp: one loop)
qed (auto intro: np_sent_Nil)

definition np_assigned :: "'ch broker_ext \<Rightarrow> NonPersistentStickyKeyDispatcher \<Rightarrow> NonPersistentEntry \<Rightarrow> cref \<Rightarrow> bool" where
  "np_assigned bx d e r \<longleftrightarrow> (\<exists>rng. (rng, r) \<in> set (np_active_assignments d) \<and>
     in_range rng (sticky_key_hash_from_metadata (bx_proto bx) (np_metadata e)))"

text \<open>The parts of the dispatcher by key that sending never changes.\<close>

definition np_key_config :: "NonPersistentStickyKeyDispatcher \<Rightarrow> NonPersistentStickyKeyDispatcher \<Rightarrow> bool" where
  "np_key_config d d' \<longleftrightarrow> nkd_consumers_by_id d' = nkd_consumers_by_id d \<and>
     nkd_auto_split_assignments d' = nkd_auto_split_assignments d \<and> nkd_sticky_assignments d' = nkd_sticky_assignments d \<and>
     nkd_key_shared_policy d' = nkd_key_shared_policy d"

lemma np_key_config_assigned: "np_key_config d d' \<Longrightarrow> np_assigned bx d' = np_assigned bx d"
  by (simp add: np_key_config_def np_assigned_def np_active_assignments_def fun_eq_iff split: KeySharedMode.split)

lemma np_select_consumer_assigned:
  "np_select_consumer w (resolve_sticky_key (bx_proto bx) (np_metadata e)) d = Some r \<Longrightarrow> np_assigned bx d e r"
  by (auto simp: np_select_consumer_def Let_def np_assigned_def in_range_def sticky_key_hash_from_metadata_def
      dest!: find_some_mem)

lemma np_key_send_entry_ok:
  assumes "chan_laws bx sent" "np_key_send_entry bx e w d = (w', d')"
  shows "\<exists>t. np_fan bx sent w w' [(e, t)] \<and> (\<forall>r. t = Some r \<longrightarrow> np_assigned bx d e r) \<and>
    nkd_counters d' = (if t \<noteq> None then record_dispatched (ucast (np_batch_count bx e)) (nkd_counters d)
                       else record_drop (ucast (np_batch_count bx e)) (nkd_counters d)) \<and> np_key_config d d'"
proof (cases "np_select_consumer w (resolve_sticky_key (bx_proto bx) (np_metadata e)) d")
  case None
  with assms(2) have "w' = w" "d' = d\<lparr>nkd_counters := record_drop (ucast (np_batch_count bx e)) (nkd_counters d)\<rparr>"
    by (simp_all add: np_key_send_entry_def Let_def)
  then show ?thesis by (auto intro!: exI [of _ None] np_fan_drop simp: np_key_config_def)
next
  case (Some r)
  obtain ok w1 where att: "np_try_send bx e r w = (ok, w1)" by fastforce
  from np_try_send_cases(1) [OF assms(1) att] np_select_consumer_assigned [OF Some] show ?thesis
    using assms(2) Some
    by (intro exI [of _ "if ok then Some r else None"], cases ok)
      (auto simp: np_key_send_entry_def Let_def att np_key_subtract_total_permits_def np_key_config_def)
qed

lemma np_key_loop_sent:
  assumes "chan_laws bx sent" "np_key_loop bx es w d = (left, w', d')"
  shows "(\<exists>os. np_sent bx sent es (np_assigned bx d) left w w' (nkd_counters d) (nkd_counters d') os) \<and> np_key_config d d'"
  using assms(2)
proof (induction es arbitrary: w d left w' d')
  case Nil
  then show ?case by (auto intro: np_sent_Nil simp: np_key_config_def)
next
  case (Cons e es)
  obtain w1 d1 where one: "np_key_send_entry bx e w d = (w1, d1)" by fastforce
  obtain left1 w2 d2 where loop: "np_key_loop bx es w1 d1 = (left1, w2, d2)" by (cases "np_key_loop bx es w1 d1")
  from np_key_send_entry_ok [OF assms(1) one] obtain t where
    t: "np_fan bx sent w w1 [(e, t)]" "\<And>r. t = Some r \<Longrightarrow> np_assigned bx d e r"
      "nkd_counters d1 = (if t \<noteq> None then record_dispatched (ucast (np_batch_count bx e)) (nkd_counters d)
         else record_drop (ucast (np_batch_count bx e)) (nkd_counters d))" and same: "np_key_config d d1" by blast
  from Cons.IH [OF loop] obtain os where
    "np_sent bx sent es (np_assigned bx d) left1 w1 w2 (nkd_counters d1) (nkd_counters d2) os" "np_key_config d1 d2"
    unfolding np_key_config_assigned [OF same] by blast
  with np_sent_Cons [OF this(1) t] same show ?case using Cons.prems by (auto simp: one loop np_key_config_def)
qed

section \<open>The active consumer\<close>

lemma frame_fields:
  assumes "frame_consumers w w'"
  shows "consumer_id (w_consumers w' r) = consumer_id (w_consumers w r)"
    "consumer_name (w_consumers w' r) = consumer_name (w_consumers w r)"
    "priority_level (w_consumers w' r) = priority_level (w_consumers w r)"
    "key_shared_policy (w_consumers w' r) = key_shared_policy (w_consumers w r)"
  using assms by (simp_all add: frame_consumers_def same_identity_def)

lemma np_hash_ring_index: "p \<in> set (np_hash_ring names) \<Longrightarrow> snd p < length names"
  by (auto simp: np_hash_ring_def in_set_enumerate_eq)

lemma np_hash_ring_nonempty:
  assumes "names \<noteq> []"
  shows "np_hash_ring names \<noteq> []"
proof -
  have "(np_murmur3_32 (string_bytes (names ! 0 @ dec_string 0)) 0, 0) \<in> set (np_hash_ring names)"
    using assms unfolding np_hash_ring_def
    by (auto simp: in_set_enumerate_eq image_iff intro!: bexI [of _ "(0, names ! 0)"] bexI [of _ 0])
  then show ?thesis by auto
qed

lemma np_ring_lookup_index:
  assumes "names \<noteq> []"
  shows "np_ring_lookup h (np_hash_ring names) < length names"
proof (cases "find (\<lambda>(hash, _). h \<le> hash) (np_hash_ring names)")
  case None
  obtain p ps where p: "np_hash_ring names = p # ps" using np_hash_ring_nonempty [OF assms] by (cases "np_hash_ring names") auto
  then show ?thesis using None np_hash_ring_index [of p names] by (cases p) (simp add: np_ring_lookup_def)
next
  case (Some p)
  then show ?thesis using np_hash_ring_index [of p names] find_some_mem [OF Some]
    by (cases p) (simp add: np_ring_lookup_def)
qed

definition np_priority_key :: "'ch world \<Rightarrow> cref \<Rightarrow> i32 \<times> string" where
  "np_priority_key w r = (priority_level (w_consumers w r), consumer_name (w_consumers w r))"

lemma np_select_active_ok:
  assumes "nfd_consumers d \<noteq> []" "sorted (map (np_priority_key w) (nfd_consumers d))"
  shows "\<exists>r \<in> set (nfd_consumers d). np_select_active_consumer_id w d = Some (consumer_id (w_consumers w r)) \<and>
    (\<forall>x \<in> set (nfd_consumers d). priority_level (w_consumers w r) \<le> priority_level (w_consumers w x))"
proof -
  obtain f fs where f: "nfd_consumers d = f # fs" using assms(1) by (cases "nfd_consumers d") auto
  define highest where "highest = filter (\<lambda>r. priority_level (w_consumers w r) = priority_level (w_consumers w f)) (f # fs)"
  have ne: "highest \<noteq> []" by (simp add: highest_def)
  define i where "i = (if 0 \<le> nfd_partition_index d then nat (nfd_partition_index d) mod length highest
      else np_ring_lookup (np_murmur3_32 (string_bytes (nfd_topic_name d)) 0)
        (np_hash_ring (map (\<lambda>r. consumer_name (w_consumers w r)) highest)))"
  have "np_ring_lookup h (np_hash_ring (map (\<lambda>r. consumer_name (w_consumers w r)) highest)) < length highest" for h
    using np_ring_lookup_index [of "map (\<lambda>r. consumer_name (w_consumers w r)) highest" h] ne by simp
  then have i: "i < length highest" using ne by (simp add: i_def)
  have sel: "np_select_active_consumer_id w d = Some (consumer_id (w_consumers w (highest ! i)))"
    unfolding np_select_active_consumer_id_def f Let_def list.case highest_def [symmetric] i_def [symmetric]
    using i ne by simp
  have "highest ! i \<in> set (f # fs)" "priority_level (w_consumers w (highest ! i)) = priority_level (w_consumers w f)"
    using nth_mem [OF i] by (auto simp: highest_def)
  moreover have "priority_level (w_consumers w f) \<le> priority_level (w_consumers w x)" if "x \<in> set (f # fs)" for x
    using assms(2) that by (auto simp: f np_priority_key_def less_eq_prod_def)
  ultimately show ?thesis using sel by (auto simp: f)
qed

section \<open>The invariant\<close>

fun np_wf :: "'ch world \<Rightarrow> NonPersistentDispatcherEnum \<Rightarrow> bool" where
  "np_wf w (NpExclusive d) \<longleftrightarrow> True"
| "np_wf w (NpFailover d) \<longleftrightarrow> sorted (map (np_priority_key w) (nfd_consumers d)) \<and>
     distinct (map (\<lambda>r. consumer_id (w_consumers w r)) (nfd_consumers d)) \<and>
     nfd_active_consumer_id d = np_select_active_consumer_id w d"
| "np_wf w (NpMultipleConsumers d) \<longleftrightarrow> rebuild_ordered_consumers w d = d"
| "np_wf w (NpStickyKey d) \<longleftrightarrow> np_rebuild_assignments w d = d"

lemma np_select_frame: "frame_consumers w w' \<Longrightarrow> np_select_active_consumer_id w' d = np_select_active_consumer_id w d"
  unfolding np_select_active_consumer_id_def by (simp only: frame_fields)

lemma np_rebuild_frame:
  assumes "frame_consumers w w'"
  shows "rebuild_ordered_consumers w' d1 = rebuild_ordered_consumers w d1" "np_rebuild_assignments w' d2 = np_rebuild_assignments w d2"
  by (simp_all add: rebuild_ordered_consumers_def np_rebuild_assignments_def np_rebuild_auto_split_assignments_def
      np_rebuild_sticky_assignments_def sticky_ranges_for_consumer_def frame_fields [OF assms])

lemma np_wf_frame: "frame_consumers w w' \<Longrightarrow> np_wf w' d = np_wf w d"
  by (cases d) (simp_all add: np_select_frame np_rebuild_frame np_priority_key_def [abs_def] frame_fields)

lemma np_wf_new: "np_wf w (NonPersistentDispatcherEnum_new ty topic idx policy)"
  by (cases ty) (simp_all add: NonPersistentDispatcherEnum_new_def NonPersistentDispatcherFailover_new_def
      np_select_active_consumer_id_def NonPersistentDispatcherMultipleConsumers_new_def rebuild_ordered_consumers_def
      NonPersistentStickyKeyDispatcher_new_def np_rebuild_assignments_def np_rebuild_auto_split_assignments_def
      np_rebuild_sticky_assignments_def btm_values_def)

lemma np_rebuild_idem [simp]:
  "rebuild_ordered_consumers w (rebuild_ordered_consumers w d1) = rebuild_ordered_consumers w d1"
  "np_rebuild_assignments w (np_rebuild_assignments w d2) = np_rebuild_assignments w d2"
  by (simp_all add: rebuild_ordered_consumers_def np_rebuild_assignments_def np_rebuild_auto_split_assignments_def
      np_rebuild_sticky_assignments_def Let_def)

lemma np_notify_frame: "frame_consumers w (np_notify_active_consumer_changed a d w)"
proof -
  have "w_consumers (np_notify_active_consumer_changed a d w) r =
      (if r \<in> set (nfd_consumers d) then notify_active_consumer_change a (w_consumers w r) else w_consumers w r)" for r
    unfolding np_notify_active_consumer_changed_def by (rule fold_upd_consumer) (simp add: notify_active_consumer_change_def)
  then show ?thesis by (simp add: frame_consumers_def)
qed

lemma np_sort_sorted: "sorted (map (np_priority_key w) (nfd_consumers (np_sort_consumers w d)))"
  by (simp add: np_sort_consumers_def np_priority_key_def [abs_def])

lemma np_sort_distinct:
  "distinct (map (\<lambda>r. consumer_id (w_consumers w r)) (nfd_consumers (np_sort_consumers w d))) \<longleftrightarrow>
   distinct (map (\<lambda>r. consumer_id (w_consumers w r)) (nfd_consumers d))"
  by (simp add: np_sort_consumers_def distinct_map)

lemma np_pick_ok:
  assumes "np_pick_and_schedule_active_consumer w d = (changed, w', d')" "sorted (map (np_priority_key w) (nfd_consumers d))"
    "distinct (map (\<lambda>r. consumer_id (w_consumers w r)) (nfd_consumers d))"
  shows "frame_consumers w w'" "np_wf w' (NpFailover d')" "nfd_consumers d' = nfd_consumers d"
proof -
  have sel: "np_select_active_consumer_id w (d\<lparr>nfd_active_consumer_id := a\<rparr>) = np_select_active_consumer_id w d" for a
    by (cases "nfd_consumers d") (simp_all add: np_select_active_consumer_id_def Let_def)
  show fr: "frame_consumers w w'"
    using assms(1) np_notify_frame by (auto simp: np_pick_and_schedule_active_consumer_def Let_def split: if_splits option.splits)
  show cs: "nfd_consumers d' = nfd_consumers d"
    using assms(1) by (auto simp: np_pick_and_schedule_active_consumer_def Let_def split: if_splits)
  have "np_wf w (NpFailover d')"
    using assms by (auto simp: np_pick_and_schedule_active_consumer_def Let_def sel split: if_splits)
  then show "np_wf w' (NpFailover d')" using np_wf_frame [OF fr] by blast
qed

lemma np_add_consumer_wf:
  assumes "np_add_consumer r w d = (x, w', d')" "np_wf w d"
  shows "frame_consumers w w' \<and> np_wf w' d'"
proof (cases d)
  case (NpFailover fd)
  let ?fd = "np_sort_consumers w (fd\<lparr>nfd_consumers := nfd_consumers fd @ [r]\<rparr>)"
  obtain ch w1 d1 where pick: "np_pick_and_schedule_active_consumer w ?fd = (ch, w1, d1)"
    by (cases "np_pick_and_schedule_active_consumer w ?fd")
  show ?thesis
  proof (cases "\<exists>y \<in> set (nfd_consumers fd). consumer_id (w_consumers w y) = consumer_id (w_consumers w r)")
    case True
    then show ?thesis using assms by (simp add: NpFailover np_failover_add_consumer_def)
  next
    case False
    have "distinct (map (\<lambda>r. consumer_id (w_consumers w r)) (nfd_consumers ?fd))"
      unfolding np_sort_distinct using False assms(2) by (auto simp: NpFailover)
    note ok = np_pick_ok [OF pick np_sort_sorted this]
    have "frame_consumers w1 (upd_consumer r (notify_active_consumer_change a) w1)" for a
      by (rule frame_upd_consumer) simp
    then have "frame_consumers w1 w'" "d' = NpFailover d1"
      using assms(1) False by (auto simp: NpFailover np_failover_add_consumer_def pick split: if_splits option.splits)
    then show ?thesis using frame_consumers_trans [OF ok(1)] np_wf_frame [of w1 w' d'] ok(2) by blast
  qed
qed (use assms in \<open>auto simp: np_multi_add_consumer_def np_key_add_consumer_def Let_def split: prod.splits if_splits\<close>)

lemma np_remove_consumer_wf:
  assumes "np_remove_consumer cid w d = (x, w', d')" "np_wf w d"
  shows "frame_consumers w w' \<and> np_wf w' d'"
proof (cases d)
  case (NpFailover fd)
  show ?thesis
  proof (cases "find (\<lambda>i. consumer_id (w_consumers w (nfd_consumers fd ! i)) = cid) [0..<length (nfd_consumers fd)]")
    case None
    then show ?thesis using assms by (auto simp: NpFailover np_failover_remove_consumer_def)
  next
    case (Some i)
    let ?fd = "np_sort_consumers w (fd\<lparr>nfd_consumers := take i (nfd_consumers fd) @ drop (Suc i) (nfd_consumers fd)\<rparr>)"
    obtain ch w1 d1 where pick: "np_pick_and_schedule_active_consumer w ?fd = (ch, w1, d1)"
      by (cases "np_pick_and_schedule_active_consumer w ?fd")
    have dis: "distinct (map (\<lambda>r. consumer_id (w_consumers w r)) (nfd_consumers ?fd))"
    proof -
      let ?id = "\<lambda>r. consumer_id (w_consumers w r)"
      have "distinct (map ?id (nfd_consumers fd))" using assms(2) by (simp add: NpFailover)
      then have "distinct (take i (map ?id (nfd_consumers fd)) @ drop (Suc i) (map ?id (nfd_consumers fd)))"
        by (simp add: distinct_take distinct_drop set_take_disj_set_drop_if_distinct)
      then show ?thesis unfolding np_sort_distinct by (simp add: take_map drop_map)
    qed
    note ok = np_pick_ok [OF pick np_sort_sorted dis]
    show ?thesis
    proof (cases "nfd_consumers ?fd = []")
      case True
      then show ?thesis using assms(1) Some
        by (auto simp: NpFailover np_failover_remove_consumer_def Let_def np_select_active_consumer_id_def)
    next
      case False
      then have "w' = w1" "d' = NpFailover d1"
        using assms(1) Some by (simp_all add: NpFailover np_failover_remove_consumer_def Let_def pick)
      then show ?thesis using ok by simp
    qed
  qed
qed (use assms in \<open>auto simp: np_multi_remove_consumer_def np_key_remove_consumer_def Let_def split: prod.splits if_splits\<close>)

lemma np_key_config_wf:
  assumes "np_key_config d d'" "np_wf w (NpStickyKey d)"
  shows "np_wf w (NpStickyKey d')"
  using assms unfolding np_key_config_def
  by (cases d; cases d') (simp add: np_rebuild_assignments_def np_rebuild_auto_split_assignments_def
      np_rebuild_sticky_assignments_def Let_def split: if_splits)

lemma np_multi_config_wf:
  assumes "nmd_ordered_consumers d' = nmd_ordered_consumers d" "nmd_consumers_by_id d' = nmd_consumers_by_id d"
    "np_wf w (NpMultipleConsumers d)"
  shows "np_wf w (NpMultipleConsumers d')"
  using assms by (cases d; cases d') (simp add: rebuild_ordered_consumers_def)

lemma np_flow_wf: "np_wf w d \<Longrightarrow> np_wf w (np_consumer_flow cid n d)"
proof (cases d)
  case (NpStickyKey x)
  have "np_key_config x (np_key_consumer_flow cid n x)" by (simp add: np_key_config_def np_key_consumer_flow_def)
  moreover assume "np_wf w d"
  ultimately show ?thesis using np_key_config_wf NpStickyKey by simp
next
  case (NpMultipleConsumers x)
  assume "np_wf w d"
  then show ?thesis using NpMultipleConsumers np_multi_config_wf [of "np_multi_consumer_flow cid n x" x w]
    by (simp add: np_multi_consumer_flow_def)
qed simp_all

section \<open>Properties\<close>

text \<open>Who may receive an entry: the consumer of an Exclusive subscription, the active one of a Failover subscription, any
  consumer of a Shared one, and the consumer whose range holds the hash of the key.\<close>

fun np_target :: "'ch broker_ext \<Rightarrow> 'ch world \<Rightarrow> NonPersistentDispatcherEnum \<Rightarrow> NonPersistentEntry \<Rightarrow> cref \<Rightarrow> bool" where
  "np_target bx w (NpExclusive d) e r \<longleftrightarrow> nxd_consumer d = Some r"
| "np_target bx w (NpFailover d) e r \<longleftrightarrow> np_get_active_consumer w d = Some r"
| "np_target bx w (NpMultipleConsumers d) e r \<longleftrightarrow> r \<in> set (btm_values (nmd_consumers_by_id d))"
| "np_target bx w (NpStickyKey d) e r \<longleftrightarrow> np_assigned bx d e r"

text \<open>The dispatcher by key refuses everything while its aggregate permit count is zero.\<close>

fun np_gate_closed :: "NonPersistentDispatcherEnum \<Rightarrow> bool" where
  "np_gate_closed (NpStickyKey d) \<longleftrightarrow> nkd_total_available_permits d = 0"
| "np_gate_closed _ \<longleftrightarrow> False"

text \<open>The four dispatchers, each after it has counted the entries received.\<close>

lemma np_exclusive_sent:
  assumes "chan_laws bx sent" "np_exclusive_send_messages bx es w x = (left, w', x')"
  shows "\<exists>os. np_sent bx sent es (\<lambda>_ r. nxd_consumer x = Some r) left w w'
    (record_received (of_nat (length es)) (nxd_counters x)) (nxd_counters x') os"
proof (cases "nxd_consumer x")
  case None
  then show ?thesis
    using assms(2) np_drop_all_sent [of bx sent es _ "record_received (of_nat (length es)) (nxd_counters x)" w]
    by (auto simp: np_exclusive_send_messages_def Let_def split: prod.splits)
next
  case (Some r)
  let ?k = "record_received (of_nat (length es)) (nxd_counters x)"
  obtain l1 w1 k1 where loop: "np_single_loop bx r es w ?k = (l1, w1, k1)" by (cases "np_single_loop bx r es w ?k")
  from np_single_loop_sent [OF assms(1) loop, of "\<lambda>_ y. nxd_consumer x = Some y"] show ?thesis using assms(2) Some
    by (auto simp: np_exclusive_send_messages_def Let_def loop)
qed

lemma np_failover_sent:
  assumes "chan_laws bx sent" "np_failover_send_messages bx es w x = (left, w', x')"
  shows "\<exists>os. np_sent bx sent es (\<lambda>_ r. np_get_active_consumer w x = Some r) left w w'
    (record_received (of_nat (length es)) (nfd_counters x)) (nfd_counters x') os" (is ?sent)
    and "np_wf w (NpFailover x) \<Longrightarrow> np_wf w (NpFailover x')"
proof -
  let ?k = "record_received (of_nat (length es)) (nfd_counters x)"
  show ?sent
  proof (cases "np_get_active_consumer w x")
    case None
    then show ?thesis using assms(2) np_drop_all_sent [of bx sent es _ ?k w]
      by (auto simp: np_failover_send_messages_def Let_def split: prod.splits)
  next
    case (Some r)
    obtain l1 w1 k1 where loop: "np_single_loop bx r es w ?k = (l1, w1, k1)" by (cases "np_single_loop bx r es w ?k")
    from np_single_loop_sent [OF assms(1) loop, of "\<lambda>_ y. np_get_active_consumer w x = Some y"] show ?thesis using assms(2) Some
      by (auto simp: np_failover_send_messages_def Let_def loop)
  qed
  obtain k where "x' = x\<lparr>nfd_counters := k\<rparr>"
    using assms(2) by (auto simp: np_failover_send_messages_def Let_def split: prod.splits option.splits)
  then show "np_wf w (NpFailover x) \<Longrightarrow> np_wf w (NpFailover x')"
    by (cases "nfd_consumers x") (simp_all add: np_select_active_consumer_id_def Let_def)
qed

lemma np_multi_sent:
  assumes "chan_laws bx sent" "np_wf w (NpMultipleConsumers x)" "np_multi_send_messages bx es w x = (left, w', x')"
  shows "\<exists>os. np_sent bx sent es (\<lambda>_ r. r \<in> set (btm_values (nmd_consumers_by_id x))) left w w'
    (record_received (of_nat (length es)) (nmd_counters x)) (nmd_counters x') os" "np_wf w (NpMultipleConsumers x')"
proof -
  let ?x = "x\<lparr>nmd_counters := record_received (of_nat (length es)) (nmd_counters x)\<rparr>"
  have fix1: "nmd_ordered_consumers x = nmd_ordered_consumers (rebuild_ordered_consumers w x)" using assms(2) by simp
  have "set (nmd_ordered_consumers x) = set (btm_values (nmd_consumers_by_id x))"
    by (subst fix1) (simp add: rebuild_ordered_consumers_def)
  moreover note loop = np_multi_loop_sent [OF assms(1), of es w ?x left w' x']
  ultimately show "\<exists>os. np_sent bx sent es (\<lambda>_ r. r \<in> set (btm_values (nmd_consumers_by_id x))) left w w'
    (record_received (of_nat (length es)) (nmd_counters x)) (nmd_counters x') os"
    using assms(3) by (simp add: np_multi_send_messages_def)
  show "np_wf w (NpMultipleConsumers x')"
    by (rule np_multi_config_wf [OF _ _ assms(2)]) (use loop assms(3) in \<open>simp_all add: np_multi_send_messages_def\<close>)
qed

lemma np_key_sent:
  assumes "chan_laws bx sent" "np_wf w (NpStickyKey x)" "np_key_send_messages bx es w x = (left, w', x')"
    "nkd_total_available_permits x \<noteq> 0"
  shows "\<exists>os. np_sent bx sent es (np_assigned bx x) left w w'
    (record_received (of_nat (length es)) (nkd_counters x)) (nkd_counters x') os" "np_wf w (NpStickyKey x')"
proof -
  let ?x = "x\<lparr>nkd_counters := record_received (of_nat (length es)) (nkd_counters x)\<rparr>"
  have cfg: "np_key_config x ?x" by (simp add: np_key_config_def)
  have run: "np_key_loop bx es w ?x = (left, w', x')" using assms(3,4) by (simp add: np_key_send_messages_def Let_def)
  note loop = np_key_loop_sent [OF assms(1) run, unfolded np_key_config_assigned [OF cfg]]
  then show "\<exists>os. np_sent bx sent es (np_assigned bx x) left w w'
    (record_received (of_nat (length es)) (nkd_counters x)) (nkd_counters x') os" by simp
  have "np_key_config x x'" using loop by (simp add: np_key_config_def)
  from np_key_config_wf [OF this assms(2)] show "np_wf w (NpStickyKey x')" .
qed

lemma np_key_closed_sent:
  assumes "np_wf w (NpStickyKey x)" "np_key_send_messages bx es w x = (left, w', x')" "nkd_total_available_permits x = 0"
  shows "left = map (\<lambda>e. snd (release e)) es" "w' = w" "np_wf w (NpStickyKey x')"
    "nkd_counters x' = record_drop (of_nat (length es)) (record_received (of_nat (length es)) (nkd_counters x))"
    "np_fan bx sent w w (map (\<lambda>e. (e, None)) es)" "messages_sent bx (map (\<lambda>e. (e, None)) es) = 0"
proof -
  show "left = map (\<lambda>e. snd (release e)) es" "w' = w"
    "nkd_counters x' = record_drop (of_nat (length es)) (record_received (of_nat (length es)) (nkd_counters x))"
    using assms(2,3) by (auto simp: np_key_send_messages_def Let_def)
  show "np_wf w (NpStickyKey x')"
    by (rule np_key_config_wf [OF _ assms(1)]) (use assms(2,3) in \<open>auto simp: np_key_config_def np_key_send_messages_def Let_def\<close>)
  show "np_fan bx sent w w (map (\<lambda>e. (e, None)) es)" "messages_sent bx (map (\<lambda>e. (e, None)) es) = 0"
    by (induction es) (simp_all add: np_fan_def)
qed

lemma np_send_messages_sent:
  assumes "chan_laws bx sent" "np_wf w d" "np_send_messages bx es w d = (left, w', d')" "\<not> np_gate_closed d"
  shows "\<exists>os. np_sent bx sent es (np_target bx w d) left w w' (record_received (of_nat (length es)) (np_counters d)) (np_counters d') os"
    (is ?A) and "np_wf w d'" (is ?B)
proof (atomize (full), cases d)
  case (NpExclusive x)
  obtain x' where x': "np_exclusive_send_messages bx es w x = (left, w', x')" "d' = NpExclusive x'"
    using assms(3) by (auto simp: NpExclusive split: prod.splits)
  have "np_target bx w d = (\<lambda>_ r. nxd_consumer x = Some r)" by (simp add: NpExclusive fun_eq_iff)
  then show "?A \<and> ?B" using np_exclusive_sent [OF assms(1) x'(1)] by (simp add: NpExclusive x'(2))
next
  case (NpFailover x)
  obtain x' where x': "np_failover_send_messages bx es w x = (left, w', x')" "d' = NpFailover x'"
    using assms(3) by (auto simp: NpFailover split: prod.splits)
  have "np_target bx w d = (\<lambda>_ r. np_get_active_consumer w x = Some r)" by (simp add: NpFailover fun_eq_iff)
  moreover have "np_wf w d'" unfolding x'(2) by (rule np_failover_sent(2) [OF assms(1) x'(1)]) (use assms(2) NpFailover in blast)
  ultimately show "?A \<and> ?B" using np_failover_sent(1) [OF assms(1) x'(1)] by (simp add: NpFailover x'(2))
next
  case (NpMultipleConsumers x)
  obtain x' where x': "np_multi_send_messages bx es w x = (left, w', x')" "d' = NpMultipleConsumers x'"
    using assms(3) by (auto simp: NpMultipleConsumers split: prod.splits)
  have "np_target bx w d = (\<lambda>_ r. r \<in> set (btm_values (nmd_consumers_by_id x)))" by (simp add: NpMultipleConsumers fun_eq_iff)
  then show "?A \<and> ?B" using np_multi_sent [OF assms(1) _ x'(1)] assms(2) by (simp add: NpMultipleConsumers x'(2))
next
  case (NpStickyKey x)
  obtain x' where x': "np_key_send_messages bx es w x = (left, w', x')" "d' = NpStickyKey x'"
    using assms(3) by (auto simp: NpStickyKey split: prod.splits)
  have "np_target bx w d = np_assigned bx x" by (simp add: NpStickyKey fun_eq_iff)
  then show "?A \<and> ?B" using np_key_sent [OF assms(1) _ x'(1)] assms(2,4) by (simp add: NpStickyKey x'(2))
qed

text \<open>C12: Publishing to a non-persistent subscription of any type handles every entry exactly once. All entries are
  released; each is either handed to exactly one consumer that the subscription type allows, in the order given, or
  dropped, and every connection receives exactly the entries handed to its consumers. The counters add up: the entries
  received, the messages (of all batches) dispatched and the messages dropped; only while the aggregate permit count of
  the dispatcher by key is zero are dropped entries counted instead of dropped messages. The invariant is kept.\<close>

theorem np_every_entry_once:
  assumes "chan_laws bx sent" "np_wf w d" "np_send_messages bx es w d = (left, w', d')"
  shows "left = map (\<lambda>e. snd (release e)) es \<and> np_wf w' d' \<and>
    (\<exists>os. map fst os = es \<and> np_fan bx sent w w' os \<and> (\<forall>(e, t) \<in> set os. \<forall>r. t = Some r \<longrightarrow> np_target bx w d e r) \<and>
       npc_received (np_counters d') = npc_received (np_counters d) + of_nat (length es) \<and>
       npc_dispatched (np_counters d') = npc_dispatched (np_counters d) + messages_sent bx os \<and>
       npc_dropped (np_counters d') = npc_dropped (np_counters d) +
         (if np_gate_closed d then of_nat (length es) else messages_lost bx os))"
proof (cases "np_gate_closed d")
  case True
  then obtain x where d: "d = NpStickyKey x" "nkd_total_available_permits x = 0" by (cases d) auto
  obtain x' where x': "np_key_send_messages bx es w x = (left, w', x')" "d' = NpStickyKey x'"
    using assms(3) by (auto simp: d split: prod.splits)
  note closed = np_key_closed_sent [OF assms(2) [unfolded d(1)] x'(1) d(2)]
  have "map fst (map (\<lambda>e. (e, None)) es) = es" by (simp add: comp_def)
  then show ?thesis using closed(1-4,6) closed(5) [of sent] d x'(2)
    by (auto simp: record_received_def record_drop_def intro!: exI [of _ "map (\<lambda>e. (e, None)) es"])
next
  case False
  from np_send_messages_sent(1) [OF assms False] obtain os where
    os: "np_sent bx sent es (np_target bx w d) left w w' (record_received (of_nat (length es)) (np_counters d)) (np_counters d') os"
    by blast
  then have "np_wf w' d'" using np_send_messages_sent(2) [OF assms False] np_wf_frame [of w w' d']
    by (simp add: np_sent_def np_fan_def)
  with os False show ?thesis by (auto simp: np_sent_def np_counted_def record_received_def intro!: exI [of _ os])
qed

text \<open>The states a dispatcher can reach: consumers come and go, permits and entries arrive, and meanwhile the consumers'
  permits, statistics and pending messages change.\<close>

inductive np_reach :: "'ch broker_ext \<Rightarrow> 'ch world \<Rightarrow> NonPersistentDispatcherEnum \<Rightarrow> bool" for bx where
  init: "np_reach bx w (NonPersistentDispatcherEnum_new ty topic idx policy)"
| add: "np_reach bx w d \<Longrightarrow> np_add_consumer r w d = (x, w', d') \<Longrightarrow> np_reach bx w' d'"
| remove: "np_reach bx w d \<Longrightarrow> np_remove_consumer cid w d = (y, w', d') \<Longrightarrow> np_reach bx w' d'"
| flow: "np_reach bx w d \<Longrightarrow> np_reach bx w (np_consumer_flow cid n d)"
| publish: "np_reach bx w d \<Longrightarrow> np_send_messages bx es w d = (left, w', d') \<Longrightarrow> np_reach bx w' d'"
| env: "np_reach bx w d \<Longrightarrow> frame_consumers w w' \<Longrightarrow> np_reach bx w' d"

lemma np_send_messages_wf:
  assumes "chan_laws bx sent" "np_wf w d" "np_send_messages bx es w d = (left, w', d')"
  shows "np_wf w' d'"
proof (cases "np_gate_closed d")
  case True
  then obtain x where d: "d = NpStickyKey x" "nkd_total_available_permits x = 0" by (cases d) auto
  obtain x' where x': "np_key_send_messages bx es w x = (left, w', x')" "d' = NpStickyKey x'"
    using assms(3) by (auto simp: d split: prod.splits)
  from np_key_closed_sent(2,3) [OF assms(2) [unfolded d(1)] x'(1) d(2)] show ?thesis by (simp add: x')
next
  case False
  from np_send_messages_sent(1) [OF assms False] have "frame_consumers w w'" by (auto simp: np_sent_def np_fan_def)
  with np_send_messages_sent(2) [OF assms False] show ?thesis using np_wf_frame by blast
qed

lemma np_reach_wf: "np_reach bx w d \<Longrightarrow> chan_laws bx sent \<Longrightarrow> np_wf w d"
proof (induction rule: np_reach.induct)
  case (publish w d es left w' d')
  then show ?case using np_send_messages_wf by blast
next
  case (env w d w')
  then show ?case using np_wf_frame by blast
qed (auto simp: np_wf_new np_flow_wf dest: np_add_consumer_wf np_remove_consumer_wf)

text \<open>C21: A non-persistent Failover subscription with consumers always has an active consumer: whatever sequence of
  arrivals, departures, flows and publications led to the state, one of the connected consumers is active, and no
  consumer has a smaller priority level.\<close>

theorem np_failover_always_active:
  assumes "chan_laws bx sent" "np_reach bx w (NpFailover d)" "nfd_consumers d \<noteq> []"
  shows "\<exists>r \<in> set (nfd_consumers d). np_get_active_consumer w d = Some r \<and>
    (\<forall>x \<in> set (nfd_consumers d). priority_level (w_consumers w r) \<le> priority_level (w_consumers w x))"
proof -
  let ?id = "\<lambda>r. consumer_id (w_consumers w r)"
  from np_reach_wf [OF assms(2,1)] have wf: "sorted (map (np_priority_key w) (nfd_consumers d))" "distinct (map ?id (nfd_consumers d))"
    "nfd_active_consumer_id d = np_select_active_consumer_id w d" by auto
  from np_select_active_ok [OF assms(3) wf(1)] obtain r where r: "r \<in> set (nfd_consumers d)"
    "nfd_active_consumer_id d = Some (?id r)"
    "\<forall>x \<in> set (nfd_consumers d). priority_level (w_consumers w r) \<le> priority_level (w_consumers w x)" unfolding wf(3) by blast
  have "find (\<lambda>y. ?id y = ?id r) (nfd_consumers d) = Some r"
  proof (cases "find (\<lambda>y. ?id y = ?id r) (nfd_consumers d)")
    case None
    then show ?thesis using find_none_all [OF None r(1)] by simp
  next
    case (Some y)
    from find_some_mem [OF this] r(1) wf(2) have "y = r" by (auto simp: distinct_map inj_on_def)
    with Some show ?thesis by simp
  qed
  then have "np_get_active_consumer w d = Some r" using r(2) by (simp add: np_get_active_consumer_def)
  with r show ?thesis by blast
qed

text \<open>C20: A Shared non-persistent subscription loses an entry only when none of its consumers could take it: if some
  consumer has permits, a writable connection and a free slot, the entry is dispatched, and to the first such consumer in
  the round that starts at the next index; otherwise it is counted as dropped and no consumer changes.\<close>

theorem np_shared_drops_only_unplaceable:
  assumes "np_wf w (NpMultipleConsumers d)" "\<forall>r \<in> set (btm_values (nmd_consumers_by_id d)). np_steady w r"
    and "np_multi_send_entry bx e w d = (w', d')"
  shows "nmd_counters d' =
      (if \<exists>r \<in> set (btm_values (nmd_consumers_by_id d)). np_can_take bx w r
       then record_dispatched (ucast (np_batch_count bx e)) (nmd_counters d)
       else record_drop (ucast (np_batch_count bx e)) (nmd_counters d)) \<and>
    (case find (np_can_take bx w) (rotate (unat (nmd_next_consumer_index d)) (nmd_ordered_consumers d)) of
       Some r \<Rightarrow> np_try_send bx e r w = (True, w')
     | None \<Rightarrow> w' = w)"
proof -
  let ?cs = "nmd_ordered_consumers d" and ?i = "unat (nmd_next_consumer_index d)"
  have fix1: "?cs = nmd_ordered_consumers (rebuild_ordered_consumers w d)" using assms(1) by simp
  have members: "set ?cs = set (btm_values (nmd_consumers_by_id d))"
    by (subst fix1) (simp add: rebuild_ordered_consumers_def)
  show ?thesis
  proof (cases "?cs = []")
    case True
    then show ?thesis using assms(3) members
      by (auto simp: np_multi_send_entry_def next_consumer_start_index_def Let_def)
  next
    case False
    have rot: "rotate (?i mod length ?cs) ?cs = rotate ?i ?cs" by (simp add: rotate_conv_mod [of ?i])
    have offer: "np_offer bx e (rotate ?i ?cs) w =
        (case find (np_can_take bx w) (rotate ?i ?cs) of None \<Rightarrow> (False, w) | Some r \<Rightarrow> np_try_send bx e r w)"
      by (rule np_offer_first) (use assms(2) members in simp)
    show ?thesis
    proof (cases "find (np_can_take bx w) (rotate ?i ?cs)")
      case None
      then have "\<not> (\<exists>r \<in> set (btm_values (nmd_consumers_by_id d)). np_can_take bx w r)"
        unfolding members [symmetric] using find_none_all [OF None] by (metis set_rotate)
      then show ?thesis using assms(3) False offer None
        by (auto simp: np_multi_send_entry_def next_consumer_start_index_def Let_def np_rotation rot)
    next
      case (Some r)
      from find_some_mem [OF Some] have r: "r \<in> set (btm_values (nmd_consumers_by_id d))" "np_can_take bx w r"
        by (simp_all add: members)
      from r(2) obtain w1 where att: "np_try_send bx e r w = (True, w1)"
        using np_try_send_ok [of bx e r w] by (cases "np_try_send bx e r w") auto
      show ?thesis using assms(3) False offer Some r att
        by (auto simp: np_multi_send_entry_def next_consumer_start_index_def Let_def np_rotation rot
            np_multi_subtract_total_permits_def)
    qed
  qed
qed


section \<open>The copies of shared code\<close>

text \<open>The hash of the Failover dispatcher is the one of the sticky keys.\<close>

lemma np_murmur3_32_eq: "np_murmur3_32 bs seed = murmur3_32 bs seed"
proof -
  have chunks: "np_murmur_chunks cs h = foldl murmur_round h cs" for cs h
    by (induction cs arbitrary: h) (simp_all add: Let_def murmur_round_def murmur_mix_k_def)
  have tail: "length t < 4 \<Longrightarrow> np_murmur_tail t = murmur_tail t" for t
    by (auto simp: np_murmur_tail_def murmur_tail_def xor.assoc split: list.split)
  obtain cs t where ct: "as_chunks4 bs = (cs, t)" by fastforce
  then have "length t < 4" using as_chunks4_tail [of bs] by simp
  then show ?thesis
    by (simp add: np_murmur3_32_def murmur3_32_def ct chunks tail Let_def murmur_final_def murmur_mix_k_def)
qed

text \<open>The dispatcher by key assigns the hashes like the persistent one, so its automatic split is a partition too.\<close>

lemma np_rebuild_like_key_shared:
  assumes "nkd_consumers_by_id d = kd_consumers_by_id d'"
  shows "nkd_auto_split_assignments (np_rebuild_assignments w d) = kd_auto_split_assignments (rebuild_assignments w d')"
    "nkd_sticky_assignments (np_rebuild_assignments w d) = kd_sticky_assignments (rebuild_assignments w d')"
  using assms by (simp_all add: np_rebuild_assignments_def np_rebuild_auto_split_assignments_def np_rebuild_sticky_assignments_def
      rebuild_assignments_def rebuild_auto_split_assignments_def rebuild_sticky_assignments_def Let_def)

section \<open>The subscription runtime\<close>

definition nr_wf :: "'ch world \<Rightarrow> NonPersistentSubscriptionRuntime \<Rightarrow> bool" where
  "nr_wf w rt \<longleftrightarrow> (\<forall>d. nr_dispatcher rt = Some d \<longrightarrow> np_wf w d)"

lemma nr_wf_new: "nr_wf w (NonPersistentSubscriptionRuntime_new topic idx ty props policy)"
  by (simp add: nr_wf_def NonPersistentSubscriptionRuntime_new_def)

lemma nr_add_consumer_wf:
  assumes "nr_add_consumer r w rt = (x, w', rt')" "nr_wf w rt"
  shows "frame_consumers w w' \<and> nr_wf w' rt'"
proof (cases "nr_is_fenced rt")
  case True
  then show ?thesis using assms by (simp add: nr_add_consumer_def)
next
  case False
  let ?d = "np_reuse_or_create_dispatcher rt"
  have wf: "np_wf w ?d"
    using assms(2) by (auto simp: np_reuse_or_create_dispatcher_def nr_wf_def Let_def np_wf_new split: option.split)
  obtain y w1 d1 where add: "np_add_consumer r w ?d = (y, w1, d1)" by (cases "np_add_consumer r w ?d")
  from np_add_consumer_wf [OF add wf] wf assms(1) False show ?thesis
    by (auto simp: nr_add_consumer_def Let_def add nr_wf_def split: if_splits)
qed

lemma nr_remove_consumer_wf:
  assumes "nr_remove_consumer cid w rt = (x, w', rt')" "nr_wf w rt"
  shows "frame_consumers w w' \<and> nr_wf w' rt'"
proof (cases "nr_dispatcher rt")
  case None
  then show ?thesis using assms by (auto simp: nr_remove_consumer_def)
next
  case (Some d)
  obtain y w1 d1 where rem: "np_remove_consumer cid w d = (y, w1, d1)" by (cases "np_remove_consumer cid w d")
  from np_remove_consumer_wf [OF rem] assms Some show ?thesis
    by (auto simp: nr_remove_consumer_def rem nr_wf_def split: if_splits)
qed

lemma nr_send_messages_released:
  assumes "chan_laws bx sent" "nr_wf w rt" "nr_send_messages bx es w rt = (left, w', rt')"
  shows "left = map (\<lambda>e. snd (release e)) es \<and> nr_wf w' rt'"
proof (cases "nr_dispatcher rt")
  case None
  then show ?thesis using assms(2,3) by (auto simp: nr_send_messages_def nr_wf_def)
next
  case (Some d)
  obtain l1 w1 d1 where run: "np_send_messages bx es w d = (l1, w1, d1)" by (cases "np_send_messages bx es w d")
  have wf: "np_wf w d" using assms(2) Some by (simp add: nr_wf_def)
  have "l1 = map (\<lambda>e. snd (release e)) es"
  proof (cases "np_gate_closed d")
    case True
    then obtain x where d: "d = NpStickyKey x" "nkd_total_available_permits x = 0" by (cases d) auto
    then show ?thesis using run by (auto simp: np_key_send_messages_def Let_def)
  next
    case False
    from np_send_messages_sent(1) [OF assms(1) wf run False] show ?thesis by (auto simp: np_sent_def)
  qed
  then show ?thesis using assms(3) Some run np_send_messages_wf [OF assms(1) wf run]
    by (auto simp: nr_send_messages_def nr_wf_def)
qed

section \<open>Instances\<close>

definition demo_np_entry :: NonPersistentEntry where
  "demo_np_entry = NonPersistentEntry_create 0 0 (- 1) [] [1]"

definition demo_np :: "SubscriptionType \<Rightarrow> NonPersistentDispatcherEnum" where
  "demo_np ty = snd (snd (np_add_consumer 2 demo_permits (NonPersistentDispatcherEnum_new ty ''t'' 0 None)))"

lemma demo_np_multi: "demo_np Shared = NpMultipleConsumers \<lparr>nmd_consumers_by_id = [(2, 2)], nmd_ordered_consumers = [2],
    nmd_next_consumer_index = 0, nmd_total_available_permits = 0, nmd_counters = NonPersistentCounters_new\<rparr>"
  by (simp add: demo_np_def NonPersistentDispatcherEnum_new_def np_multi_add_consumer_def Let_def btm_contains_def
      NonPersistentDispatcherMultipleConsumers_new_def rebuild_ordered_consumers_def btm_values_def demo_permits_consumers
      Consumer_new_with_options_def)

lemma demo_np_multi_wf: "np_wf demo_permits (demo_np Shared)"
  by (simp add: demo_np_multi rebuild_ordered_consumers_def btm_values_def)

theorem np_every_entry_once_witness:
  "\<exists>left w' d'. np_send_messages (ref_bx demo_proto) [demo_np_entry] demo_permits (demo_np Shared) = (left, w', d') \<and>
     npc_received (np_counters d') = 1 \<and> left = [snd (release demo_np_entry)]"
proof -
  obtain left w' d' where run: "np_send_messages (ref_bx demo_proto) [demo_np_entry] demo_permits (demo_np Shared) = (left, w', d')"
    by (cases "np_send_messages (ref_bx demo_proto) [demo_np_entry] demo_permits (demo_np Shared)")
  have "npc_received (np_counters (demo_np Shared)) = 0" by (simp add: demo_np_multi NonPersistentCounters_new_def)
  with np_every_entry_once [OF ref_chan_laws demo_np_multi_wf run] run show ?thesis by auto
qed

theorem np_shared_drops_only_unplaceable_witness:
  "\<exists>d w' d'. demo_np Shared = NpMultipleConsumers d \<and>
     np_multi_send_entry (ref_bx demo_proto) demo_np_entry demo_permits d = (w', d') \<and> npc_dispatched (nmd_counters d') = 1"
proof -
  obtain d where d: "demo_np Shared = NpMultipleConsumers d" by (simp add: demo_np_multi)
  have ids: "nmd_consumers_by_id d = [(2, 2)]" "nmd_counters d = NonPersistentCounters_new" using d by (auto simp: demo_np_multi)
  obtain w' d' where run: "np_multi_send_entry (ref_bx demo_proto) demo_np_entry demo_permits d = (w', d')" by fastforce
  have c: "w_consumers demo_permits 2 = (Consumer_new_with_options 2 ''c'' ''conn'' 2 0 None)\<lparr>available_permits := 5\<rparr>"
    by (simp add: demo_permits_consumers)
  have steady: "np_steady demo_permits 2" by (simp add: np_steady_def c Consumer_new_with_options_def PendingAcksMap_new_def)
  have "w_connections demo_permits = (\<lambda>_. demo_connection)" by (simp add: demo_permits_def demo_world_def)
  then have take: "np_can_take (ref_bx demo_proto) demo_permits 2"
    by (simp add: np_can_take_def c Consumer_new_with_options_def PendingAcksMap_new_def is_writable_def channel_of_def
        demo_connection_def ref_bx_def)
  have "np_batch_count (ref_bx demo_proto) demo_np_entry = 1"
    by (simp add: np_batch_count_def messages_in_batch_def ref_bx_def demo_proto_def)
  with np_shared_drops_only_unplaceable [OF demo_np_multi_wf [unfolded d] _ run] steady take have "npc_dispatched (nmd_counters d') = 1"
    by (simp add: ids btm_values_def record_dispatched_def NonPersistentCounters_new_def)
  with d run show ?thesis by blast
qed

theorem np_failover_always_active_witness:
  "\<exists>d. demo_np Failover = NpFailover d \<and> (\<exists>w :: ref_chan world. np_get_active_consumer w d = Some 2)"
proof -
  obtain x w d' where add: "np_add_consumer 2 demo_permits (NonPersistentDispatcherEnum_new Failover ''t'' 0 None) = (x, w, d')"
    by (cases "np_add_consumer 2 demo_permits (NonPersistentDispatcherEnum_new Failover ''t'' 0 None)")
  have d': "d' = demo_np Failover" by (simp add: demo_np_def add)
  obtain d where d: "d' = NpFailover d" "nfd_consumers d = [2]"
  proof -
    have "\<exists>d. d' = NpFailover d \<and> nfd_consumers d = [2]"
      using add by (auto simp: NonPersistentDispatcherEnum_new_def np_failover_add_consumer_def np_sort_consumers_def
          NonPersistentDispatcherFailover_new_def np_pick_and_schedule_active_consumer_def Let_def split: if_splits)
    then show ?thesis using that by blast
  qed
  have "np_reach (ref_bx demo_proto) w (NpFailover d)" using np_reach.add [OF np_reach.init add] d by simp
  from np_failover_always_active [OF ref_chan_laws this] d d' show ?thesis by auto
qed

text \<open>Two consumers with 1 and 10 permits, and a batch of 20 messages for the first.\<close>

definition demo_batch_proto :: proto_ext where
  "demo_batch_proto = demo_proto\<lparr>meta_decode := (\<lambda>_. Some ((default_metadata 0)\<lparr>mm_num_messages_in_batch := Some 20\<rparr>))\<rparr>"

definition demo_np_world :: "ref_chan world" where
  "demo_np_world = upd_consumer 2 (add_permits 1) (upd_consumer 3 (add_permits 10) demo_world)"

definition demo_np_key :: NonPersistentStickyKeyDispatcher where
  "demo_np_key = np_key_consumer_flow 3 10 (np_key_consumer_flow 2 1
     (snd (np_key_add_consumer demo_np_world 3 (snd (np_key_add_consumer demo_np_world 2 (NonPersistentStickyKeyDispatcher_new None))))))"

lemma demo_np_world_consumers:
  "w_consumers demo_np_world 2 = (Consumer_new_with_options 2 ''c'' ''conn'' 2 0 None)\<lparr>available_permits := 1\<rparr>"
  "w_consumers demo_np_world 3 = (Consumer_new_with_options 3 ''c'' ''conn'' 3 0 None)\<lparr>available_permits := 10\<rparr>"
  "w_connections demo_np_world = (\<lambda>_. demo_connection)"
  by (simp_all add: demo_np_world_def demo_world_def add_permits_def Consumer_new_with_options_def u32_as_i32_small wrap_i32_id)

lemma demo_np_key_assignments:
  "np_active_assignments demo_np_key =
     [(\<lparr>range_start = 0, range_end = 32767\<rparr>, 2), (\<lparr>range_start = 32768, range_end = 65535\<rparr>, 3)]"
  "nkd_total_available_permits demo_np_key = 11"
  by (simp_all add: demo_np_key_def np_key_consumer_flow_def np_key_add_consumer_def Let_def NonPersistentStickyKeyDispatcher_new_def
      btm_contains_def np_has_same_key_shared_policy_def demo_np_world_consumers Consumer_new_with_options_def
      np_rebuild_assignments_def np_rebuild_auto_split_assignments_def np_rebuild_sticky_assignments_def btm_values_def
      np_active_assignments_def auto_split_range_def KEY_RANGE_SIZE_def wrap_i32_id signed_divide_int_def sticky_ranges_for_consumer_def
      btm_get_Cons)


end
