(* ===== verification/Spec2Isabelle.thy ===== *)
theory Spec2Isabelle
  imports PL_ReadPosition PL_RocksCursor PL_EntryLog PL_Limiter PL_StickyKey PL_SharedDispatch PL_KeySharedDispatch
    PL_NonPersistentDispatch
begin

text \<open>
  A verification of the message delivery core of pulsar-lite, a broker in Rust that speaks the Pulsar protocol. Paths
  below are relative to \<open>src/rust\<close>.

  \<^bold>\<open>The program.\<close> A producer appends messages to the log of a topic (the storage). A subscription reads the log
  through a cursor, which remembers the acknowledged entries. Its dispatcher hands unacknowledged entries to consumers,
  each of which has a number of permits and records what it has not acknowledged. A message that a consumer gives back
  waits in the redelivery queue of the dispatcher. The connection of a consumer has a bounded channel and a write state
  that signals back-pressure; frames are encoded by the codec. Messages of non-persistent topics skip the storage.

  \<^bold>\<open>Theories and sources.\<close>
  \<^item> \<open>PL_Prelude\<close>, \<open>PL_Collections\<close>: machine integers, results, lists; Rust's ordered maps and sets as sorted lists.
  \<^item> \<open>PL_Position\<close>, \<open>PL_RangeSet\<close>, \<open>PL_SubscriptionCursor\<close>: \<open>storage/managed-ledger/src/position.rs\<close>,
    \<open>cursor_init.rs\<close>, \<open>cursor_read.rs\<close>, \<open>range_set.rs\<close>, \<open>cursor.rs\<close>.
  \<^item> \<open>PL_Storage\<close>, \<open>PL_MemoryStorage\<close>: the storage trait \<open>legacy_storage.rs\<close> as a record of operations and its
    in-memory implementation \<open>memory.rs\<close>.
  \<^item> \<open>PL_RocksMeta\<close>, \<open>PL_RocksCursor\<close>, \<open>PL_EntryLog\<close>: \<open>keys.rs\<close>, \<open>metadata.rs\<close>, \<open>cursor.rs\<close> and
    \<open>entrylog.rs\<close> of \<open>storage/managed-ledger-rocksdb/src\<close>.
  \<^item> \<open>PL_Codec\<close>: \<open>proto/src/command.rs\<close> and \<open>codec.rs\<close>. \<open>PL_Limiter\<close>: \<open>src/broker/connection_limiter.rs\<close>.
  \<^item> \<open>PL_Consumer\<close>: \<open>consumer.rs\<close>, \<open>pending_acks.rs\<close> and \<open>connection_write_state.rs\<close> of \<open>src/broker/service\<close>.
  \<^item> \<open>PL_Redelivery\<close>, \<open>PL_StickyKey\<close>, \<open>PL_ReadPosition\<close>: \<open>redelivery_controller.rs\<close>, \<open>sticky_key.rs\<close> and
    \<open>read_position.rs\<close> of \<open>src/broker/dispatcher\<close>.
  \<^item> \<open>PL_Shared\<close> and \<open>PL_SharedDispatch\<close>, \<open>PL_SingleActive\<close>, \<open>PL_KeyShared\<close> and \<open>PL_KeySharedDispatch\<close>: the
    dispatchers \<open>shared.rs\<close>, \<open>exclusive.rs\<close>, \<open>failover.rs\<close>, \<open>single_active.rs\<close> and \<open>key_shared.rs\<close>.
  \<^item> \<open>PL_NonPersistent\<close> and \<open>PL_NonPersistentDispatch\<close>: \<open>src/broker/non_persistent\<close>.

  \<^bold>\<open>State and operations.\<close> A struct is a record with the fields of the source and an operation a function from the
  state to the result and the new state; an early return and an error is a branch. An \<open>Arc<Consumer>\<close> is a number that
  refers into the record \<open>world\<close> of consumers and connections, so consumers of one connection share its channel. A
  method that holds a lock, or updates an atomic in a loop, is one step; where the interleaving of calls matters (the
  connection limiter, the guard of the Shared dispatcher, the life of a non-persistent dispatcher), it is a step relation.

  \<^bold>\<open>Code that is not in the repository\<close> is a parameter: RocksDB and the file system (\<open>rocks_ext\<close>, and a directory
  whose writes may fail), the generated protobuf code (\<open>proto_ext\<close>), tokio's bounded channel (\<open>broker_ext\<close>, with
  \<open>chan_laws\<close>: reserving or releasing a slot sends nothing, and sending appends one message). Each has a reference
  instance that meets its laws, on which the witnesses run. The laws a dispatcher needs of the storage are the locales
  \<open>storage_reads\<close> and \<open>storage_entries\<close>, interpreted on the in-memory storage; those of a range set over its keys are
  the locale \<open>succ_key\<close>, interpreted on entry ids and on positions.

  \<^bold>\<open>What is shown.\<close>
  \<^item> Acknowledgements: the cursor represents exactly the set of acknowledged entries, whatever their order, and keeps
    its frontier maximal; a durable acknowledgement agrees with the database; positions and metadata survive encoding.
  \<^item> Storage: what is appended is read back, seeking and opening position a cursor as documented, the read loop offers
    the first unacknowledged entry and always returns, batches written to the entry log are read back.
  \<^item> Persistent dispatchers: a pass returns; no message is held twice or lost; a pass ends only when permits, messages
    or channel run out; Failover and Exclusive deliver in log order to a single consumer; Key\_Shared delivers the
    messages of one key in log order to the consumer that owns its hash, and the automatic ranges partition the hashes;
    a disconnect returns the unacknowledged messages.
  \<^item> Non-persistent dispatchers: every entry is handed over once or counted as dropped, only if nobody could take it;
    the active consumer always exists.
  \<^item> Connections: limits hold in every reachable state, back-pressure has hysteresis, frames survive the wire.
  \<^item> Where the code does not do what it means to, the theorem states what happens instead: cumulative acknowledgements
    ignored after individual ones, a frontier that moves back, a batch lost after a failed rollover, a dispatch trigger
    that is lost, permit counts that starve consumers, and a Key\_Shared message that is never redelivered.

  \<^bold>\<open>Bounds and loops.\<close> \<open>u32\<close> and \<open>u64\<close> wrap as in release builds; \<open>i32\<close> counters wrap or saturate as the source
  says; \<open>usize\<close> counts things in memory and is a natural number. A loop without a bound is a \<open>partial_function\<close>, and
  the theorems prove that it returns; no fuel is used. The text of an error is kept without its parameters. The ids of
  the log are assumed to fit 64 bits (\<open>mem_wf\<close>), and the automatic split 32767 consumers, above which its products
  overflow.

  \<^bold>\<open>Not modelled.\<close> The subscription object, topics, producers, broker service, command handlers and the connection
  actor, which route commands to the parts above under async locks and in spawned tasks, with \<open>Consumer::message_acked\<close>
  and the enum that forwards to the persistent dispatchers; the RocksDB ledger and store, its write queue and the storage
  facade; the metadata store and its resources; metrics, configuration and start-up, which do not affect delivery; the
  Python package that starts the broker. Logging, metrics counters and time stamps that are never read are left out of
  the operations that are modelled.
\<close>

end
